(* ===== verification/Prelude.thy ===== *)
theory Prelude
  imports Main "HOL-Library.Word" "HOL-Library.List_Lexorder"
begin

unbundle bit_operations_syntax

text \<open>
  Shared vocabulary of the development: machine words at the widths the C++ code uses,
  byte strings, the error values an operation returns instead of a \<^verbatim>\<open>Status\<close>, and the
  generic facts on bits and lists that the component theories rely on.

  A byte buffer (\<^verbatim>\<open>char*\<close>, \<^verbatim>\<open>string\<close>, \<^verbatim>\<open>StringPiece\<close>, \<^verbatim>\<open>tstring\<close>) is a \<open>byte list\<close>.
  A routine of the source that reads through a pointer without checking bounds returns an
  option in the model, with \<open>None\<close> for a read past the end, so that a caller that relies
  on such a read has to show that it stays inside the buffer.
\<close>

section \<open>Types\<close>

type_synonym byte = "8 word"
type_synonym bytes = "byte list"
type_synonym u16 = "16 word"
type_synonym u32 = "32 word"
type_synonym u64 = "64 word"

text \<open>
  The error codes the modelled operations return (\<^verbatim>\<open>errors::DataLoss\<close> and so on, with the
  literal part of the message). \<open>CheckFailed\<close> is a \<^verbatim>\<open>CHECK\<close> or \<^verbatim>\<open>LOG(FATAL)\<close> that stops
  the process; \<open>MemFault\<close> is a read or write outside an object, which the source never
  tests for. A theorem that an operation never returns \<open>MemFault\<close> is a memory-safety
  statement about the code.
\<close>

datatype tf_error =
    DataLoss string
  | OutOfRange string
  | InvalidArgument string
  | FailedPrecondition string
  | IOError string
  | CheckFailed
  | MemFault

type_synonym 'a result = "tf_error + 'a"

named_theorems word_bits \<open>facts that reduce an equation between words to their bits\<close>

section \<open>Words\<close>

text \<open>The simplifier reads the bits of a word numeral off the integer numeral.\<close>

lemma bit_255_int [word_bits]: "bit (255 :: int) n = (n < 8)"
proof -
  have "(255 :: int) = mask 8" by (simp add: mask_eq_exp_minus_1)
  then show ?thesis by (simp only: bit_mask_iff) simp
qed

lemma bit_127_int [word_bits]: "bit (127 :: int) n = (n < 7)"
proof -
  have "(127 :: int) = mask 7" by (simp add: mask_eq_exp_minus_1)
  then show ?thesis by (simp only: bit_mask_iff) simp
qed

lemma bit_128_int [word_bits]: "bit (128 :: int) n = (n = 7)"
proof -
  have "(128 :: int) = 2 ^ 7" by simp
  then show ?thesis by (simp only: bit_exp_iff) auto
qed

lemma word_eq_bits_iff:
  "((v :: 'a::len word) = w) = (\<forall>n < LENGTH('a). bit v n = bit w n)"
  by (auto intro: bit_word_eqI)

lemma unat_drop_bit_word: "unat (drop_bit k (w :: 'a::len word)) = unat w div 2 ^ k"
  by (simp only: unat_drop_bit_eq) (simp add: drop_bit_eq_div)

lemma unat_bound: "unat (w :: 'a::len word) < 2 ^ LENGTH('a)"
  by (rule unsigned_less)

lemma unat_of_nat_small: "n < 2 ^ LENGTH('a) \<Longrightarrow> unat (of_nat n :: 'a::len word) = n"
  by (simp add: unsigned_of_nat take_bit_nat_eq_self)

lemma take_bit_word_self:
  "unat (w :: 'a::len word) < 2 ^ k \<Longrightarrow> take_bit k w = w"
  by (simp add: word_eq_iff_unsigned [where ?'a = nat] unsigned_take_bit_eq take_bit_nat_eq_self)

lemma pow2_split: "k \<le> n \<Longrightarrow> (2 :: nat) ^ n = 2 ^ k * 2 ^ (n - k)"
  by (simp add: power_add [symmetric])

text \<open>A word read in two parts, the low \<open>k\<close> bits and the rest, and put together again
  at an offset.\<close>

lemma push_ucast_take_drop:
  fixes v :: "'b::len word"
  shows "push_bit s (ucast (take_bit k v)) OR push_bit (s + k) (ucast (drop_bit k v)) =
     push_bit s (ucast v :: 'a::len word)"
proof (rule bit_word_eqI)
  fix n assume "n < LENGTH('a)"
  moreover have "k + (n - (s + k)) = n - s" if "s + k \<le> n" using that by simp
  ultimately show "bit (push_bit s (ucast (take_bit k v)) OR
      push_bit (s + k) (ucast (drop_bit k v)) :: 'a word) n = bit (push_bit s (ucast v :: 'a word)) n"
    by (cases "s + k \<le> n") (auto simp: bit_simps)
qed

lemma ucast_byte_and_mask [simp]:
  "(ucast ((w :: 'a::len word) AND 255) :: byte) = ucast w"
  by (rule bit_word_eqI) (auto simp: bit_simps word_bits dest: bit_imp_le_length)

lemma unat_ucast_byte [simp]:
  assumes "8 \<le> LENGTH('a::len)"
  shows "unat (ucast (b :: byte) :: 'a word) = unat b"
proof -
  have "unat b < 2 ^ 8" using unsigned_less [of b] by simp
  also have "(2::nat) ^ 8 \<le> 2 ^ LENGTH('a)" using assms by (rule power_increasing) simp
  finally have "unat b < 2 ^ LENGTH('a)" .
  then show ?thesis
    by (simp add: unsigned_ucast_eq take_bit_nat_eq_self)
qed

lemma and_127_word: "(w :: 'a::len word) AND 127 = take_bit 7 w"
  by (rule bit_word_eqI) (auto simp: bit_simps word_bits)

lemma and_128_zero_iff: "((b :: 'a::len word) AND 128 = 0) = (\<not> bit b 7)"
  by (auto simp: word_eq_bits_iff bit_simps word_bits dest: bit_imp_le_length)

section \<open>Lists\<close>

lemma take_append_exact [simp]: "length xs = n \<Longrightarrow> take n (xs @ ys) = xs"
  by simp

lemma drop_append_exact [simp]: "length xs = n \<Longrightarrow> drop n (xs @ ys) = ys"
  by simp


section \<open>The interface of an encoding\<close>

text \<open>
  What a client relies on when it writes values one after another into a buffer and reads
  them back: decoding the encoding of a value gives the value and leaves the bytes that
  follow it. Every encoding of the library (fixed-width, varint, ordered strings and
  numbers, block handles) provides it.
\<close>

locale prefix_codec =
  fixes enc :: "'v \<Rightarrow> bytes" and dec :: "bytes \<Rightarrow> ('v \<times> bytes) option"
  assumes dec_enc: "dec (enc v @ rest) = Some (v, rest)"
begin

lemma dec_enc_exact: "dec (enc v) = Some (v, [])"
  using dec_enc [of v "[]"] by simp

text \<open>No encoding is a prefix of another one, so a sequence of values has one reading.\<close>

lemma enc_append_eq: "enc v @ xs = enc w @ ys \<longleftrightarrow> v = w \<and> xs = ys"
proof
  assume "enc v @ xs = enc w @ ys"
  then have "dec (enc v @ xs) = dec (enc w @ ys)" by simp
  then show "v = w \<and> xs = ys" by (simp add: dec_enc)
qed simp

lemma enc_inject: "enc v = enc w \<longleftrightarrow> v = w"
  using enc_append_eq [of v "[]" w "[]"] by simp

text \<open>Reading \<open>n\<close> values in a row.\<close>

fun dec_many :: "nat \<Rightarrow> bytes \<Rightarrow> ('v list \<times> bytes) option" where
  "dec_many 0 bs = Some ([], bs)"
| "dec_many (Suc n) bs =
     (case dec bs of None \<Rightarrow> None
      | Some (v, bs') \<Rightarrow> (case dec_many n bs' of None \<Rightarrow> None
                         | Some (vs, bs'') \<Rightarrow> Some (v # vs, bs'')))"

lemma dec_many_concat:
  "dec_many (length vs) (concat (map enc vs) @ rest) = Some (vs, rest)"
  by (induction vs) (simp_all add: dec_enc)

end

text \<open>
  An encoding that also keeps the order of the values: comparing the bytes compares the
  values, whatever follows them. (Lists of bytes are ordered lexicographically, as
  \<^verbatim>\<open>StringPiece::compare\<close> orders them.)
\<close>

locale ordered_codec = prefix_codec enc dec
  for enc :: "'v::linorder \<Rightarrow> bytes" and dec +
  assumes enc_less: "v < w \<Longrightarrow> enc v @ xs < enc w @ ys"
begin

lemma enc_less_iff: "enc v < enc w \<longleftrightarrow> v < w"
  using enc_less [of v w "[]" "[]"] enc_less [of w v "[]" "[]"]
  by (metis append_Nil2 less_asym linorder_neqE)

text \<open>Keys made of several fields sort by the first field, then by the second.\<close>

lemma enc_pair_less_iff:
  "enc v @ enc v' < enc w @ enc w' \<longleftrightarrow> v < w \<or> (v = w \<and> v' < w')"
proof -
  have "enc v @ enc v' < enc v @ enc w' \<longleftrightarrow> v' < w'"
    by (simp add: list_less_def lexord_same_pref_iff enc_less_iff [unfolded list_less_def])
  then show ?thesis
    using enc_less [of v w "enc v'" "enc w'"] enc_less [of w v "enc w'" "enc v'"]
    by (metis less_asym linorder_neqE)
qed

end

end
