(* ===== verification/Coding.thy ===== *)
theory Coding
  imports Prelude
begin

unbundle bit_operations_syntax

text \<open>
  The byte encodings of \<^verbatim>\<open>core/platform/coding.cc\<close> and \<^verbatim>\<open>core/platform/raw_coding.h\<close>:
  fixed-width little-endian integers and base-128 varints. A pointer into a buffer is the
  list of the bytes from it to the buffer's end (\<^verbatim>\<open>limit\<close>), and a routine that advances a
  pointer returns the bytes that are left.
\<close>

section \<open>Fixed-width integers\<close>

text \<open>
  \<open>port::kLittleEndian\<close> of \<^verbatim>\<open>byte_order.h\<close>; the fixed-width routines take the byte order of
  the host as an argument, and the rest of the development uses the little-endian hosts the
  library is built for (\<open>EncodeFixed32_endian_neutral\<close> and its kin show that the choice
  does not change a byte of the output).
\<close>

definition kLittleEndian :: bool where
  "kLittleEndian = True"

text \<open>The object representation \<^verbatim>\<open>memcpy\<close> copies: least significant byte first on a
  little-endian host, last on a big-endian one.\<close>

definition byte_at :: "'a::len word \<Rightarrow> nat \<Rightarrow> byte" where
  "byte_at v i = ucast (drop_bit (8 * i) v)"

definition object_bytes :: "bool \<Rightarrow> nat \<Rightarrow> 'a::len word \<Rightarrow> bytes" where
  "object_bytes le n v =
     (let bs = map (byte_at v) [0..<n] in if le then bs else rev bs)"

fun le_value :: "bytes \<Rightarrow> 'a::len word" where
  "le_value [] = 0"
| "le_value (b # bs) = ucast b OR push_bit 8 (le_value bs)"

definition object_value :: "bool \<Rightarrow> bytes \<Rightarrow> 'a::len word" where
  "object_value le bs = le_value (if le then bs else rev bs)"

definition EncodeFixed16 :: "bool \<Rightarrow> u16 \<Rightarrow> bytes" where
  "EncodeFixed16 le value =
     (if le then object_bytes le 2 value
      else [ucast (value AND 255), ucast (drop_bit 8 value AND 255)])"

definition EncodeFixed32 :: "bool \<Rightarrow> u32 \<Rightarrow> bytes" where
  "EncodeFixed32 le value =
     (if le then object_bytes le 4 value
      else [ucast (value AND 255), ucast (drop_bit 8 value AND 255),
            ucast (drop_bit 16 value AND 255), ucast (drop_bit 24 value AND 255)])"

definition EncodeFixed64 :: "bool \<Rightarrow> u64 \<Rightarrow> bytes" where
  "EncodeFixed64 le value =
     (if le then object_bytes le 8 value
      else [ucast (value AND 255), ucast (drop_bit 8 value AND 255),
            ucast (drop_bit 16 value AND 255), ucast (drop_bit 24 value AND 255),
            ucast (drop_bit 32 value AND 255), ucast (drop_bit 40 value AND 255),
            ucast (drop_bit 48 value AND 255), ucast (drop_bit 56 value AND 255)])"

definition PutFixed16 :: "bytes \<Rightarrow> u16 \<Rightarrow> bytes" where
  "PutFixed16 dst value = dst @ EncodeFixed16 kLittleEndian value"

definition PutFixed32 :: "bytes \<Rightarrow> u32 \<Rightarrow> bytes" where
  "PutFixed32 dst value = dst @ EncodeFixed32 kLittleEndian value"

definition PutFixed64 :: "bytes \<Rightarrow> u64 \<Rightarrow> bytes" where
  "PutFixed64 dst value = dst @ EncodeFixed64 kLittleEndian value"

text \<open>
  The decoders read a fixed number of bytes and check no bound; \<open>None\<close> is a read past the
  end of the buffer.
\<close>

definition DecodeFixed16 :: "bool \<Rightarrow> bytes \<Rightarrow> u16 option" where
  "DecodeFixed16 le ptr =
     (if length ptr < 2 then None
      else if le then Some (object_value le (take 2 ptr))
      else Some (ucast (ptr ! 0) OR push_bit 8 (ucast (ptr ! 1))))"

definition DecodeFixed32 :: "bool \<Rightarrow> bytes \<Rightarrow> u32 option" where
  "DecodeFixed32 le ptr =
     (if length ptr < 4 then None
      else if le then Some (object_value le (take 4 ptr))
      else Some (ucast (ptr ! 0) OR push_bit 8 (ucast (ptr ! 1)) OR
                 push_bit 16 (ucast (ptr ! 2)) OR push_bit 24 (ucast (ptr ! 3))))"

definition DecodeFixed64 :: "bool \<Rightarrow> bytes \<Rightarrow> u64 option" where
  "DecodeFixed64 le ptr =
     (if length ptr < 8 then None
      else if le then Some (object_value le (take 8 ptr))
      else (case (DecodeFixed32 le ptr, DecodeFixed32 le (drop 4 ptr)) of
              (Some lo, Some hi) \<Rightarrow> Some (push_bit 32 (ucast hi) OR ucast lo)
            | _ \<Rightarrow> None))"

section \<open>Varints\<close>

definition EncodeVarint32 :: "u32 \<Rightarrow> bytes" where
  "EncodeVarint32 v =
     (let B = 128 in
      if v < 2 ^ 7 then [ucast v]
      else if v < 2 ^ 14 then [ucast (v OR B), ucast (drop_bit 7 v)]
      else if v < 2 ^ 21 then
        [ucast (v OR B), ucast (drop_bit 7 v OR B), ucast (drop_bit 14 v)]
      else if v < 2 ^ 28 then
        [ucast (v OR B), ucast (drop_bit 7 v OR B), ucast (drop_bit 14 v OR B),
         ucast (drop_bit 21 v)]
      else
        [ucast (v OR B), ucast (drop_bit 7 v OR B), ucast (drop_bit 14 v OR B),
         ucast (drop_bit 21 v OR B), ucast (drop_bit 28 v)])"

definition PutVarint32 :: "bytes \<Rightarrow> u32 \<Rightarrow> bytes" where
  "PutVarint32 dst v = dst @ EncodeVarint32 v"

lemma drop_bit_7_decreases:
  assumes "(128 :: u64) \<le> v"
  shows "unat (drop_bit 7 v) < unat v"
proof -
  have "0 < unat v" using assms by (simp add: word_le_nat_alt)
  then show ?thesis by (simp only: unat_drop_bit_word) simp
qed

function EncodeVarint64 :: "u64 \<Rightarrow> bytes" where
  "EncodeVarint64 v =
     (if 128 \<le> v then ucast ((v AND 127) OR 128) # EncodeVarint64 (drop_bit 7 v)
      else [ucast v])"
  by pat_completeness auto
termination
  by (relation "measure unat") (auto intro: drop_bit_7_decreases)

declare EncodeVarint64.simps [simp del]

definition PutVarint64 :: "bytes \<Rightarrow> u64 \<Rightarrow> bytes" where
  "PutVarint64 dst v = dst @ EncodeVarint64 v"

function VarintLength :: "u64 \<Rightarrow> nat" where
  "VarintLength v = (if 128 \<le> v then Suc (VarintLength (drop_bit 7 v)) else 1)"
  by pat_completeness auto
termination
  by (relation "measure unat") (auto intro: drop_bit_7_decreases)

declare VarintLength.simps [simp del]

text \<open>The decoding loops: \<open>shift\<close>, \<open>result\<close> and the bytes from \<^verbatim>\<open>p\<close> to \<^verbatim>\<open>limit\<close>.\<close>

fun GetVarint32PtrFallbackLoop :: "nat \<Rightarrow> u32 \<Rightarrow> bytes \<Rightarrow> (u32 \<times> bytes) option" where
  "GetVarint32PtrFallbackLoop shift result [] = None"
| "GetVarint32PtrFallbackLoop shift result (b # p) =
     (if shift \<le> 28 then
        (let byte = ucast b :: u32 in
         if byte AND 128 \<noteq> 0
         then GetVarint32PtrFallbackLoop (shift + 7) (result OR push_bit shift (byte AND 127)) p
         else Some (result OR push_bit shift byte, p))
      else None)"

definition GetVarint32PtrFallback :: "bytes \<Rightarrow> (u32 \<times> bytes) option" where
  "GetVarint32PtrFallback p = GetVarint32PtrFallbackLoop 0 0 p"

definition GetVarint32Ptr :: "bytes \<Rightarrow> (u32 \<times> bytes) option" where
  "GetVarint32Ptr p =
     (case p of
        [] \<Rightarrow> GetVarint32PtrFallback p
      | b # q \<Rightarrow> (let result = ucast b :: u32 in
                  if result AND 128 = 0 then Some (result, q) else GetVarint32PtrFallback p))"

definition GetVarint32 :: "bytes \<Rightarrow> (u32 \<times> bytes) option" where
  "GetVarint32 input =
     (case GetVarint32Ptr input of None \<Rightarrow> None | Some (value, q) \<Rightarrow> Some (value, q))"

fun GetVarint64PtrLoop :: "nat \<Rightarrow> u64 \<Rightarrow> bytes \<Rightarrow> (u64 \<times> bytes) option" where
  "GetVarint64PtrLoop shift result [] = None"
| "GetVarint64PtrLoop shift result (b # p) =
     (if shift \<le> 63 then
        (let byte = ucast b :: u64 in
         if byte AND 128 \<noteq> 0
         then GetVarint64PtrLoop (shift + 7) (result OR push_bit shift (byte AND 127)) p
         else Some (result OR push_bit shift byte, p))
      else None)"

definition GetVarint64Ptr :: "bytes \<Rightarrow> (u64 \<times> bytes) option" where
  "GetVarint64Ptr p = GetVarint64PtrLoop 0 0 p"

definition GetVarint64 :: "bytes \<Rightarrow> (u64 \<times> bytes) option" where
  "GetVarint64 input =
     (case GetVarint64Ptr input of None \<Rightarrow> None | Some (value, q) \<Rightarrow> Some (value, q))"


section \<open>Facts on the fixed-width encodings\<close>

lemma bit_le_value:
  "bit (le_value bs :: 'a::len word) n =
     (n < LENGTH('a) \<and> n div 8 < length bs \<and> bit (bs ! (n div 8)) (n mod 8))"
proof (induction bs arbitrary: n)
  case Nil
  then show ?case by simp
next
  case (Cons b bs)
  show ?case
  proof (cases "n < 8")
    case True
    then show ?thesis by (auto simp: bit_simps)
  next
    case False
    then have "n div 8 = Suc ((n - 8) div 8)" and "n mod 8 = (n - 8) mod 8"
      by (simp_all add: le_div_geq le_mod_geq)
    with False Cons.IH [of "n - 8"] show ?thesis
      by (auto simp: bit_simps dest: bit_imp_le_length)
  qed
qed

lemma bit_byte_at: "bit (byte_at v i) n = (n < 8 \<and> bit v (8 * i + n))"
  by (auto simp: byte_at_def bit_simps)

lemma le_value_bytes:
  assumes "LENGTH('a) = 8 * k"
  shows "le_value (map (byte_at v) [0..<k]) = (v :: 'a::len word)"
proof (rule bit_word_eqI)
  fix n assume n: "n < LENGTH('a)"
  then have "n div 8 < k" using assms by (simp add: div_less_iff_less_mult)
  with n show "bit (le_value (map (byte_at v) [0..<k]) :: 'a word) n = bit v n"
    by (simp add: bit_le_value bit_byte_at)
qed

lemma bytes_le_value:
  assumes "length bs = k" "8 * k \<le> LENGTH('a)"
  shows "map (byte_at (le_value bs :: 'a::len word)) [0..<k] = bs"
proof (rule nth_equalityI)
  fix i assume "i < length (map (byte_at (le_value bs :: 'a word)) [0..<k])"
  then have i: "i < k" by simp
  show "map (byte_at (le_value bs :: 'a word)) [0..<k] ! i = bs ! i"
  proof (rule bit_word_eqI)
    fix n assume "n < LENGTH(8)"
    then have "8 * i + n < LENGTH('a)" using i assms(2) by simp
    with i \<open>n < LENGTH(8)\<close> assms(1)
    show "bit (map (byte_at (le_value bs :: 'a word)) [0..<k] ! i) n = bit (bs ! i) n"
      by (simp add: bit_byte_at bit_le_value)
  qed
qed (simp add: assms)

lemma upt_lists:
  "[0..<2] = [0, Suc 0]"
  "[0..<4] = [0, Suc 0, 2, 3]"
  "[0..<8] = [0, Suc 0, 2, 3, 4, 5, 6, 7]"
  by (simp_all add: upt_rec)

lemma EncodeFixed16_bytes: "EncodeFixed16 le v = map (byte_at v) [0..<2]"
  by (simp add: EncodeFixed16_def object_bytes_def upt_lists byte_at_def)

lemma EncodeFixed32_bytes: "EncodeFixed32 le v = map (byte_at v) [0..<4]"
  by (simp add: EncodeFixed32_def object_bytes_def upt_lists byte_at_def)

lemma EncodeFixed64_bytes: "EncodeFixed64 le v = map (byte_at v) [0..<8]"
  by (simp add: EncodeFixed64_def object_bytes_def upt_lists byte_at_def)

lemma EncodeFixed32_le_value: "length bs = 4 \<Longrightarrow> EncodeFixed32 le (le_value bs) = bs"
  by (simp add: EncodeFixed32_bytes bytes_le_value)

lemma EncodeFixed64_le_value: "length bs = 8 \<Longrightarrow> EncodeFixed64 le (le_value bs) = bs"
  by (simp add: EncodeFixed64_bytes bytes_le_value)

lemma length_EncodeFixed [simp]:
  "length (EncodeFixed16 le v) = 2" "length (EncodeFixed32 le w) = 4"
  "length (EncodeFixed64 le x) = 8"
  by (simp_all add: EncodeFixed16_bytes EncodeFixed32_bytes EncodeFixed64_bytes)

lemma take_nth_lists:
  assumes "length p = n" shows "p = map (\<lambda>i. p ! i) [0..<n]"
  using assms by (auto simp: map_nth)

lemma DecodeFixed16_le_value:
  "2 \<le> length ptr \<Longrightarrow> DecodeFixed16 le ptr = Some (le_value (take 2 ptr))"
proof -
  assume len: "2 \<le> length ptr"
  then have t: "take 2 ptr = [ptr ! 0, ptr ! 1]"
    using take_nth_lists [of "take 2 ptr" 2] by (simp add: upt_lists)
  from len show ?thesis
    by (simp add: DecodeFixed16_def object_value_def t)
qed

lemma DecodeFixed32_le_value:
  "4 \<le> length ptr \<Longrightarrow> DecodeFixed32 le ptr = Some (le_value (take 4 ptr))"
proof -
  assume len: "4 \<le> length ptr"
  then have t: "take 4 ptr = [ptr ! 0, ptr ! 1, ptr ! 2, ptr ! 3]"
    using take_nth_lists [of "take 4 ptr" 4] by (simp add: upt_lists)
  from len show ?thesis
    by (simp add: DecodeFixed32_def object_value_def t push_bit_or or.assoc)
qed

lemma le_value_append:
  "(le_value (xs @ ys) :: 'a::len word) = le_value xs OR push_bit (8 * length xs) (le_value ys)"
  by (induction xs) (simp_all add: push_bit_or or.assoc)

lemma ucast_le_value:
  assumes "length xs = 4"
  shows "ucast (le_value xs :: u32) = (le_value xs :: u64)"
  using assms by (intro bit_word_eqI) (auto simp: bit_simps bit_le_value)

lemma DecodeFixed64_le_value:
  "8 \<le> length ptr \<Longrightarrow> DecodeFixed64 le ptr = Some (le_value (take 8 ptr))"
proof -
  assume len: "8 \<le> length ptr"
  have "take 8 ptr = take 4 ptr @ take 4 (drop 4 ptr)"
    by (simp add: take_add [symmetric])
  then have "(le_value (take 8 ptr) :: u64) =
      push_bit 32 (le_value (take 4 (drop 4 ptr))) OR le_value (take 4 ptr)"
    using len by (simp add: le_value_append or.commute)
  with len show ?thesis
    by (simp add: DecodeFixed64_def object_value_def DecodeFixed32_le_value ucast_le_value)
qed

lemma EncodeFixed32_endian_neutral: "EncodeFixed32 False v = EncodeFixed32 True v"
  by (simp add: EncodeFixed32_bytes)

lemma EncodeFixed64_endian_neutral: "EncodeFixed64 False v = EncodeFixed64 True v"
  by (simp add: EncodeFixed64_bytes)

lemma DecodeFixed16_EncodeFixed16 [simp]:
  "DecodeFixed16 le (EncodeFixed16 le' v @ rest) = Some v"
  by (simp add: DecodeFixed16_le_value EncodeFixed16_bytes le_value_bytes)

lemma DecodeFixed32_EncodeFixed32 [simp]:
  "DecodeFixed32 le (EncodeFixed32 le' v @ rest) = Some v"
  by (simp add: DecodeFixed32_le_value EncodeFixed32_bytes le_value_bytes)

lemma DecodeFixed64_EncodeFixed64 [simp]:
  "DecodeFixed64 le (EncodeFixed64 le' v @ rest) = Some v"
  by (simp add: DecodeFixed64_le_value EncodeFixed64_bytes le_value_bytes)


section \<open>Facts on varints\<close>

lemma varint_last_byte:
  assumes "(v :: u64) < 128" and "8 \<le> LENGTH('a::len)"
  shows "(ucast (ucast v :: byte) :: 'a word) = ucast v" and "\<not> bit v 7"
proof -
  from assms have "unat v < 2 ^ 7" by (simp add: word_less_nat_alt)
  then have v: "take_bit 7 v = v"
    by (rule take_bit_word_self)
  show "(ucast (ucast v :: byte) :: 'a word) = ucast v"
    by (subst (2) v [symmetric], subst v [symmetric]) (rule bit_word_eqI, auto simp: bit_simps)
  show "\<not> bit v 7"
    by (subst v [symmetric]) (simp add: bit_simps)
qed

text \<open>Both decoding loops are one loop over the width of the result, with \<open>m\<close> the last
  shift they try.\<close>

fun varint_loop :: "nat \<Rightarrow> nat \<Rightarrow> 'a::len word \<Rightarrow> bytes \<Rightarrow> ('a word \<times> bytes) option" where
  "varint_loop m s r [] = None"
| "varint_loop m s r (b # p) =
     (if m < s then None
      else if bit b 7 then varint_loop m (s + 7) (r OR push_bit s (ucast (take_bit 7 b))) p
      else Some (r OR push_bit s (ucast b), p))"

lemma ucast_byte_and_127:
  "8 \<le> LENGTH('a::len) \<Longrightarrow> (ucast (b :: byte) AND 127 :: 'a word) = ucast (take_bit 7 b)"
  by (rule bit_word_eqI) (auto simp: bit_simps word_bits)

lemma GetVarint32PtrFallbackLoop_eq: "GetVarint32PtrFallbackLoop s r p = varint_loop 28 s r p"
  by (induction p arbitrary: s r)
    (auto simp: and_128_zero_iff bit_simps ucast_byte_and_127 Let_def)

lemma GetVarint64PtrLoop_eq: "GetVarint64PtrLoop s r p = varint_loop 63 s r p"
  by (induction p arbitrary: s r)
    (auto simp: and_128_zero_iff bit_simps ucast_byte_and_127 Let_def)

lemma varint_loop_EncodeVarint64:
  assumes m: "\<And>k. 7 dvd k \<Longrightarrow> k < LENGTH('a::len) \<Longrightarrow> k \<le> m" and len: "8 \<le> LENGTH('a)"
  shows "7 dvd s \<Longrightarrow> s < LENGTH('a) \<Longrightarrow> unat v < 2 ^ (LENGTH('a) - s) \<Longrightarrow>
    varint_loop m s (r :: 'a word) (EncodeVarint64 v @ rest) = Some (r OR push_bit s (ucast v), rest)"
proof (induction v arbitrary: s r rule: EncodeVarint64.induct)
  case (1 v)
  from "1.prems" have s: "s \<le> m" using m by blast
  show ?case
  proof (cases "128 \<le> v")
    case True
    then have "2 ^ 7 \<le> unat v" by (simp add: word_le_nat_alt)
    with "1.prems" have "(2::nat) ^ 7 < 2 ^ (LENGTH('a) - s)" by linarith
    then have s7: "s + 7 < LENGTH('a)"
      by (subst (asm) power_strict_increasing_iff) auto
    have "(2::nat) ^ (LENGTH('a) - s) = 2 ^ 7 * 2 ^ (LENGTH('a) - (s + 7))"
      using s7 pow2_split [of 7 "LENGTH('a) - s"] by simp
    with "1.prems" have "unat (drop_bit 7 v) < 2 ^ (LENGTH('a) - (s + 7))"
      by (simp only: unat_drop_bit_word) (simp add: less_mult_imp_div_less mult.commute)
    with s7 "1.prems" have "varint_loop m (s + 7) (r OR push_bit s (ucast (take_bit 7 v)))
        (EncodeVarint64 (drop_bit 7 v) @ rest) =
        Some ((r OR push_bit s (ucast (take_bit 7 v))) OR push_bit (s + 7) (ucast (drop_bit 7 v)), rest)"
      by (intro "1.IH" [OF True]) auto
    moreover have "bit (ucast ((v AND 127) OR 128) :: byte) 7"
      by (simp add: bit_simps word_bits)
    moreover have "(ucast (take_bit 7 (ucast ((v AND 127) OR 128) :: byte)) :: 'a word) =
        ucast (take_bit 7 v)"
      by (rule bit_word_eqI) (auto simp: bit_simps word_bits)
    ultimately show ?thesis
      using True s
      by (simp add: EncodeVarint64.simps [of v] or.assoc push_ucast_take_drop)
  next
    case False
    then have "v < 128" by simp
    with s len False show ?thesis
      by (simp add: EncodeVarint64.simps [of v] varint_last_byte bit_simps del: not_le)
  qed
qed


lemma unat_ucast_u32_u64 [simp]: "unat (ucast (v :: u32) :: u64) = unat v"
proof -
  have "unat v < 2 ^ 32" using unsigned_less [of v] by simp
  then show ?thesis by (simp add: unsigned_ucast_eq take_bit_nat_eq_self)
qed

lemma drop_bit_ucast_u32: "drop_bit k (ucast (v :: u32) :: u64) = ucast (drop_bit k v)"
  by (rule bit_word_eqI) (auto simp: bit_simps dest: bit_imp_le_length)

lemma varint_more_iff:
  "(128 \<le> (ucast (drop_bit k v) :: u64)) = (2 ^ (k + 7) \<le> unat (v :: u32))"
  by (simp add: word_le_nat_alt unat_drop_bit_word power_add)
    (simp add: less_eq_div_iff_mult_less_eq mult.commute)

lemma varint_byte_u32:
  "ucast ((ucast (w :: u32) :: u64) AND 127 OR 128) = (ucast (w OR 128) :: byte)"
  by (rule bit_word_eqI) (auto simp: bit_simps word_bits)

lemma varint_end_byte_u32: "ucast (ucast (w :: u32) :: u64) = (ucast w :: byte)"
  by (rule bit_word_eqI) (auto simp: bit_simps)

text \<open>The unrolled 32-bit encoder writes the same bytes as the 64-bit loop.\<close>

lemma EncodeVarint64_ucast_step:
  "EncodeVarint64 (ucast (drop_bit k v)) =
     (if 2 ^ (k + 7) \<le> unat (v :: u32)
      then ucast (drop_bit k v OR 128) # EncodeVarint64 (ucast (drop_bit (k + 7) v))
      else [ucast (drop_bit k v)])"
  by (subst EncodeVarint64.simps)
    (simp add: varint_more_iff varint_byte_u32 varint_end_byte_u32 drop_bit_ucast_u32 add.commute)

lemma EncodeVarint32_eq_EncodeVarint64: "EncodeVarint32 v = EncodeVarint64 (ucast v)"
proof -
  have v: "unat v < 2 ^ 35" using unat_bound [of v] by simp
  then show ?thesis
    using EncodeVarint64_ucast_step [of 0 v]
    by (simp add: EncodeVarint32_def EncodeVarint64_ucast_step word_less_nat_alt not_less)
qed

lemma GetVarint64_EncodeVarint64: "GetVarint64 (EncodeVarint64 v @ rest) = Some (v, rest)"
proof -
  have "unat v < 2 ^ (LENGTH(64) - 0)" using unat_bound [of v] by simp
  moreover have "k \<le> 63" if "7 dvd k" "k < LENGTH(64)" for k using that by simp
  ultimately show ?thesis
    using varint_loop_EncodeVarint64 [where 'a = 64, of 63 0 v 0 rest]
    by (simp add: GetVarint64_def GetVarint64Ptr_def GetVarint64PtrLoop_eq)
qed

lemma GetVarint32PtrFallback_EncodeVarint32:
  "GetVarint32PtrFallback (EncodeVarint32 v @ rest) = Some (v, rest)"
proof -
  have "k \<le> 28" if "7 dvd k" "k < LENGTH(32)" for k
  proof -
    from that(1) obtain j where "k = 7 * j" ..
    with that(2) show ?thesis by simp
  qed
  moreover have "ucast (ucast v :: u64) = v" by (rule bit_word_eqI) (auto simp: bit_simps)
  ultimately show ?thesis
    using varint_loop_EncodeVarint64 [where 'a = 32, of 28 0 "ucast v" 0 rest] unat_bound [of v]
    by (simp add: GetVarint32PtrFallback_def GetVarint32PtrFallbackLoop_eq
        EncodeVarint32_eq_EncodeVarint64)
qed

text \<open>The one-byte fast path of the 32-bit reader agrees with the loop.\<close>

lemma GetVarint32Ptr_eq_Fallback: "GetVarint32Ptr p = GetVarint32PtrFallback p"
  by (auto simp: GetVarint32Ptr_def GetVarint32PtrFallback_def Let_def split: list.splits)

lemma GetVarint32_EncodeVarint32: "GetVarint32 (EncodeVarint32 v @ rest) = Some (v, rest)"
  by (simp add: GetVarint32_def GetVarint32Ptr_eq_Fallback GetVarint32PtrFallback_EncodeVarint32)

lemma length_EncodeVarint64: "length (EncodeVarint64 v) = VarintLength v"
proof (induction v rule: EncodeVarint64.induct)
  case (1 v)
  then show ?case
    by (simp add: EncodeVarint64.simps [of v] VarintLength.simps [of v])
qed

lemma VarintLength_bound: "unat v < 2 ^ (7 * Suc n) \<Longrightarrow> VarintLength v \<le> Suc n"
proof (induction n arbitrary: v)
  case 0
  then show ?case by (simp add: VarintLength.simps [of v] word_le_nat_alt)
next
  case (Suc n)
  have "unat (drop_bit 7 v) < 2 ^ (7 * Suc n)"
    using Suc.prems by (simp only: unat_drop_bit_word) (simp add: less_mult_imp_div_less power_add)
  then have "VarintLength (drop_bit 7 v) \<le> Suc n" by (rule Suc.IH)
  then show ?case by (simp add: VarintLength.simps [of v])
qed

lemma VarintLength_pos [simp]: "1 \<le> VarintLength v"
  by (simp add: VarintLength.simps [of v])

text \<open>A successful read consumes a non-empty prefix of at most \<open>m div 7 + 1\<close> bytes.\<close>

lemma varint_loop_consumes:
  "varint_loop m s r p = Some (v, q) \<Longrightarrow>
   \<exists>c. p = c @ q \<and> c \<noteq> [] \<and> s + 7 * length c \<le> m + 7"
proof (induction p arbitrary: s r)
  case Nil
  then show ?case by simp
next
  case (Cons b p)
  show ?case
  proof (cases "bit b 7")
    case True
    with Cons.prems have "s \<le> m"
      and "varint_loop m (s + 7) (r OR push_bit s (ucast (take_bit 7 b))) p = Some (v, q)"
      by (auto split: if_splits)
    with Cons.IH obtain c where "p = c @ q" "c \<noteq> []" "s + 7 + 7 * length c \<le> m + 7" by blast
    then show ?thesis by (intro exI [of _ "b # c"]) simp
  next
    case False
    with Cons.prems show ?thesis
      by (intro exI [of _ "[b]"]) (auto split: if_splits)
  qed
qed

section \<open>The encodings as codecs\<close>

interpretation fixed32: prefix_codec "EncodeFixed32 le"
  "\<lambda>bs. map_option (\<lambda>v. (v, drop 4 bs)) (DecodeFixed32 le' bs)"
  by unfold_locales simp

interpretation fixed64: prefix_codec "EncodeFixed64 le"
  "\<lambda>bs. map_option (\<lambda>v. (v, drop 8 bs)) (DecodeFixed64 le' bs)"
  by unfold_locales simp

interpretation varint32: prefix_codec EncodeVarint32 GetVarint32
  by unfold_locales (rule GetVarint32_EncodeVarint32)

interpretation varint64: prefix_codec EncodeVarint64 GetVarint64
  by unfold_locales (rule GetVarint64_EncodeVarint64)

section \<open>Properties\<close>

text \<open>C3: every unsigned 32-bit and 64-bit value is read back unchanged from its varint, with
  exactly the bytes behind it left over, and the unrolled 32-bit encoder appends the same bytes
  as the 64-bit loop applied to the widened value.\<close>

theorem varint_roundtrip:
  "GetVarint32 (PutVarint32 [] v @ rest) = Some (v, rest) \<and>
   GetVarint64 (PutVarint64 [] w @ rest) = Some (w, rest) \<and>
   PutVarint32 dst v = PutVarint64 dst (ucast v)"
  using GetVarint32_EncodeVarint32 [of v rest]
  by (simp add: PutVarint32_def PutVarint64_def GetVarint64_EncodeVarint64
      EncodeVarint32_eq_EncodeVarint64)

text \<open>C5: the encoders never write past the stack buffers of 5 and 10 bytes that
  \<^verbatim>\<open>PutVarint32\<close> and \<^verbatim>\<open>PutVarint64\<close> give them, and \<^verbatim>\<open>VarintLength\<close> is the exact number of
  bytes written.\<close>

theorem varint_buffer_bounds:
  "length (EncodeVarint32 v) \<le> 5 \<and> length (EncodeVarint64 w) \<le> 10 \<and>
   length (EncodeVarint64 w) = VarintLength w \<and>
   length (EncodeVarint32 v) = VarintLength (ucast v)"
proof -
  have "VarintLength w \<le> 10" using VarintLength_bound [of w 9] unat_bound [of w] by simp
  moreover have "VarintLength (ucast v) \<le> 5"
    using VarintLength_bound [of "ucast v" 4] unat_bound [of v] by simp
  ultimately show ?thesis
    by (simp add: EncodeVarint32_eq_EncodeVarint64 length_EncodeVarint64)
qed

text \<open>C4: a varint reader that succeeds consumed a non-empty prefix of its input, of at most
  5 bytes for a 32-bit and 10 bytes for a 64-bit value: readers make progress and stay inside
  the input whatever the bytes are.\<close>

theorem varint_reader_progress:
  "(GetVarint32 p = Some (v, q) \<longrightarrow> (\<exists>c. p = c @ q \<and> 1 \<le> length c \<and> length c \<le> 5)) \<and>
   (GetVarint64 p = Some (w, q) \<longrightarrow> (\<exists>c. p = c @ q \<and> 1 \<le> length c \<and> length c \<le> 10))"
proof -
  have "\<exists>c. p = c @ q \<and> 1 \<le> length c \<and> length c \<le> 5" if "GetVarint32 p = Some (v, q)"
    using that varint_loop_consumes [of 28 0 "0 :: u32" p v q]
    by (auto simp: GetVarint32_def GetVarint32Ptr_eq_Fallback GetVarint32PtrFallback_def
        GetVarint32PtrFallbackLoop_eq Suc_le_eq split: option.splits)
  moreover have "\<exists>c. p = c @ q \<and> 1 \<le> length c \<and> length c \<le> 10" if "GetVarint64 p = Some (w, q)"
    using that varint_loop_consumes [of 63 0 "0 :: u64" p w q]
    by (auto simp: GetVarint64_def GetVarint64Ptr_def GetVarint64PtrLoop_eq Suc_le_eq
        split: option.splits)
  ultimately show ?thesis by blast
qed

theorem varint_reader_progress_witness:
  "GetVarint32 [172, 2, 7] = Some (300, [7]) \<and> GetVarint64 [172, 2, 7] = Some (300, [7]) \<and>
   (\<exists>c. [172, 2, 7 :: byte] = c @ [7] \<and> 1 \<le> length c \<and> length c \<le> 5)"
proof -
  have "GetVarint32 [172, 2, 7] = Some (300, [7])" and "GetVarint64 [172, 2, 7] = Some (300, [7])"
    by code_simp+
  then show ?thesis using varint_reader_progress [of "[172, 2, 7]" 300 "[7]" 300] by blast
qed

text \<open>C6: the fixed-width encodings do not depend on the byte order of the host: whatever the
  order on the machine that wrote and on the one that reads, the bytes are the same and the
  value comes back.\<close>

theorem fixed_width_endian_neutral:
  "EncodeFixed16 le u = EncodeFixed16 le' u \<and> DecodeFixed16 le (EncodeFixed16 le' u @ rest) = Some u \<and>
   EncodeFixed32 le v = EncodeFixed32 le' v \<and> DecodeFixed32 le (EncodeFixed32 le' v @ rest) = Some v \<and>
   EncodeFixed64 le w = EncodeFixed64 le' w \<and> DecodeFixed64 le (EncodeFixed64 le' w @ rest) = Some w"
  by (simp add: EncodeFixed16_bytes [of le] EncodeFixed16_bytes [of le']
      EncodeFixed32_bytes [of le] EncodeFixed32_bytes [of le'] EncodeFixed64_bytes [of le]
      EncodeFixed64_bytes [of le'] DecodeFixed16_le_value DecodeFixed32_le_value
      DecodeFixed64_le_value le_value_bytes)

end
