(* ===== verification/Crc32c.thy ===== *)
theory Crc32c
  imports Crc32cTables
begin

unbundle bit_operations_syntax

text \<open>
  The checksum of \<^verbatim>\<open>core/lib/hash/crc32c.cc\<close>, \<^verbatim>\<open>crc32c.h\<close> and \<^verbatim>\<open>crc32c_accelerate.cc\<close>: the
  portable routine that consumes four bytes per step, the SSE4.2 routine, masking, and the
  proof that both compute the bit-by-bit remainder.
\<close>

section \<open>The portable routine\<close>

definition LE_LOAD32 :: "bytes \<Rightarrow> u32 option" where
  "LE_LOAD32 p = DecodeFixed32 kLittleEndian p"

definition STEP1 :: "u32 \<Rightarrow> byte \<Rightarrow> u32" where
  "STEP1 l b = (let c = (l AND 255) XOR ucast b in table0 ! unat c XOR drop_bit 8 l)"

definition STEP4 :: "u32 \<Rightarrow> bytes \<Rightarrow> u32" where
  "STEP4 l p =
     (case LE_LOAD32 p of
        Some w \<Rightarrow>
          (let c = l XOR w in
           table3 ! unat (c AND 255) XOR table2 ! unat (drop_bit 8 c AND 255) XOR
           table1 ! unat (drop_bit 16 c AND 255) XOR table0 ! unat (drop_bit 24 c))
      | None \<Rightarrow> l)"

text \<open>
  The four loops of \<^verbatim>\<open>Extend\<close>, each with the checksum state and the bytes from \<^verbatim>\<open>p\<close> to \<^verbatim>\<open>e\<close>:
  \<open>n\<close> single bytes up to the aligned address \<^verbatim>\<open>x\<close>, sixteen bytes at a time, four bytes at a
  time, and the last bytes.
\<close>

fun Extend_align :: "nat \<Rightarrow> u32 \<Rightarrow> bytes \<Rightarrow> u32 \<times> bytes" where
  "Extend_align (Suc n) l (b # p) = Extend_align n (STEP1 l b) p"
| "Extend_align _ l p = (l, p)"

function Extend_by16 :: "u32 \<Rightarrow> bytes \<Rightarrow> u32 \<times> bytes" where
  "Extend_by16 l p =
     (if 16 \<le> length p
      then Extend_by16
             (STEP4 (STEP4 (STEP4 (STEP4 l p) (drop 4 p)) (drop 8 p)) (drop 12 p)) (drop 16 p)
      else (l, p))"
  by pat_completeness auto
termination
  by (relation "measure (\<lambda>(l, p). length p)") auto

function Extend_by4 :: "u32 \<Rightarrow> bytes \<Rightarrow> u32 \<times> bytes" where
  "Extend_by4 l p = (if 4 \<le> length p then Extend_by4 (STEP4 l p) (drop 4 p) else (l, p))"
  by pat_completeness auto
termination
  by (relation "measure (\<lambda>(l, p). length p)") auto

declare Extend_by16.simps [simp del] Extend_by4.simps [simp del]

fun Extend_by1 :: "u32 \<Rightarrow> bytes \<Rightarrow> u32" where
  "Extend_by1 l [] = l"
| "Extend_by1 l (b # p) = Extend_by1 (STEP1 l b) p"

text \<open>
  \<open>pval\<close> is the address of \<^verbatim>\<open>buf\<close>, which decides how many bytes come before the first
  aligned one.
\<close>

definition Extend_portable :: "nat \<Rightarrow> u32 \<Rightarrow> bytes \<Rightarrow> u32" where
  "Extend_portable pval crc buf =
     (let l0 = crc XOR 0xffffffff;
          x = (pval + 3) div 4 * 4;
          (l1, p1) = (if x \<le> pval + length buf then Extend_align (x - pval) l0 buf else (l0, buf));
          (l2, p2) = Extend_by16 l1 p1;
          (l3, p3) = Extend_by4 l2 p2
      in Extend_by1 l3 p3 XOR 0xffffffff)"

section \<open>The accelerated routine\<close>

text \<open>
  The instructions \<^verbatim>\<open>_mm_crc32_u8\<close> and \<^verbatim>\<open>_mm_crc32_u64\<close> are arguments: they are the
  processor's, not the library's.
\<close>

fun Accelerated_bytes :: "(u32 \<Rightarrow> byte \<Rightarrow> u32) \<Rightarrow> nat \<Rightarrow> u32 \<Rightarrow> bytes \<Rightarrow> u32 \<times> bytes" where
  "Accelerated_bytes mm8 (Suc n) l (b # p) = Accelerated_bytes mm8 n (mm8 l b) p"
| "Accelerated_bytes mm8 _ l p = (l, p)"

function Accelerated_by16 :: "(u64 \<Rightarrow> u64 \<Rightarrow> u64) \<Rightarrow> u64 \<Rightarrow> bytes \<Rightarrow> u64 \<times> bytes" where
  "Accelerated_by16 mm64 l64 p =
     (if 16 \<le> length p
      then Accelerated_by16 mm64
             (mm64 (mm64 l64 (le_value (take 8 p))) (le_value (take 8 (drop 8 p)))) (drop 16 p)
      else (l64, p))"
  by pat_completeness auto
termination
  by (relation "measure (\<lambda>(m, l, p). length p)") auto

declare Accelerated_by16.simps [simp del]

definition AcceleratedExtend ::
  "(u32 \<Rightarrow> byte \<Rightarrow> u32) \<Rightarrow> (u64 \<Rightarrow> u64 \<Rightarrow> u64) \<Rightarrow> nat \<Rightarrow> u32 \<Rightarrow> bytes \<Rightarrow> u32" where
  "AcceleratedExtend mm8 mm64 pval crc buf =
     (let l = crc XOR 0xffffffff;
          x = (pval + 7) div 8 * 8;
          (l1, p1) = (if x \<le> pval + length buf then Accelerated_bytes mm8 (x - pval) l buf
                      else (l, buf));
          (l64, p2) = Accelerated_by16 mm64 (ucast l1) p1;
          (l3, p3) = Accelerated_bytes mm8 (length p2) (ucast l64) p2
      in l3 XOR 0xffffffff)"

section \<open>Masking\<close>

definition kMaskDelta :: u32 where
  "kMaskDelta = 0xa282ead8"

definition Mask :: "u32 \<Rightarrow> u32" where
  "Mask crc = (drop_bit 15 crc OR push_bit 17 crc) + kMaskDelta"

definition Unmask :: "u32 \<Rightarrow> u32" where
  "Unmask masked_crc =
     (let rot = masked_crc - kMaskDelta in drop_bit 17 rot OR push_bit 15 rot)"

text \<open>
  The library's entry points. \<^verbatim>\<open>Extend\<close> dispatches to the accelerated routine when the
  processor has it; \<open>accel\<close> is \<^verbatim>\<open>can_accelerate\<close> with the two instructions.
\<close>

definition Extend ::
  "((u32 \<Rightarrow> byte \<Rightarrow> u32) \<times> (u64 \<Rightarrow> u64 \<Rightarrow> u64)) option \<Rightarrow> nat \<Rightarrow> u32 \<Rightarrow> bytes \<Rightarrow> u32" where
  "Extend accel pval crc buf =
     (case accel of
        Some (mm8, mm64) \<Rightarrow> AcceleratedExtend mm8 mm64 pval crc buf
      | None \<Rightarrow> Extend_portable pval crc buf)"

definition Value ::
  "((u32 \<Rightarrow> byte \<Rightarrow> u32) \<times> (u64 \<Rightarrow> u64 \<Rightarrow> u64)) option \<Rightarrow> nat \<Rightarrow> bytes \<Rightarrow> u32" where
  "Value accel pval data = Extend accel pval 0 data"

section \<open>The remainder, byte by byte\<close>

definition crc_byte :: "u32 \<Rightarrow> byte \<Rightarrow> u32" where
  "crc_byte l b = crc_bits8 (l XOR ucast b)"

definition crc_extend :: "u32 \<Rightarrow> bytes \<Rightarrow> u32" where
  "crc_extend crc buf = foldl crc_byte (crc XOR 0xffffffff) buf XOR 0xffffffff"

lemma crc_bit_even: "\<not> bit l 0 \<Longrightarrow> crc_bit l = drop_bit 1 l"
  by (simp add: crc_bit_def)

lemma crc_bits8_high:
  assumes "take_bit 8 l = 0"
  shows "crc_bits8 l = drop_bit 8 l"
proof -
  have "\<not> bit l n" if "n < 8" for n
    using assms that by (metis bit_take_bit_iff bit_0_eq bot_apply bot_bool_def)
  then show ?thesis
    by (simp add: crc_bits8_def crc_bit_even bit_drop_bit_eq) (simp add: eval_nat_numeral)
qed

lemma split_low_byte: "(c :: u32) = take_bit 8 c XOR push_bit 8 (drop_bit 8 c)"
proof (rule bit_word_eqI)
  fix n assume "n < LENGTH(32)"
  then show "bit c n = bit (take_bit 8 c XOR push_bit 8 (drop_bit 8 c)) n"
    by (cases "n < 8") (auto simp: bit_simps)
qed

lemma take_drop_byte: "take_bit 24 (drop_bit 8 (c :: u32)) = drop_bit 8 c"
proof (rule take_bit_word_self)
  show "unat (drop_bit 8 c) < 2 ^ 24"
    using unat_bound [of c] by (simp only: unat_drop_bit_word) (simp add: less_mult_imp_div_less)
qed

lemma crc_bits8_push: "crc_bits8 (push_bit 8 w) = take_bit 24 w"
  by (subst crc_bits8_high) (auto intro!: bit_word_eqI simp: bit_simps dest: bit_imp_le_length)

lemma crc_bits8_step: "crc_bits8 c = crc_bits8 (take_bit 8 c) XOR drop_bit 8 c"
  by (subst split_low_byte) (simp only: crc_bits8_xor crc_bits8_push take_drop_byte)

lemma unat_take_byte: "unat (take_bit 8 (c :: u32)) < 256"
  using take_bit_nat_less_exp [of 8 "unat c"] by (simp only: unsigned_take_bit_eq) simp

lemma table0_byte: "table0 ! unat (take_bit 8 c) = crc_bits8 (take_bit 8 c)"
  by (simp add: table0_nth unat_take_byte)

lemma STEP1_eq: "STEP1 l b = crc_byte l b"
proof -
  let ?c = "l XOR ucast b"
  have "(l AND 255) XOR ucast b = take_bit 8 ?c"
    by (rule bit_word_eqI) (auto simp: bit_simps word_bits dest: bit_imp_le_length)
  moreover have "drop_bit 8 l = drop_bit 8 ?c"
    by (rule bit_word_eqI) (auto simp: bit_simps dest: bit_imp_le_length)
  ultimately show ?thesis
    by (simp only: STEP1_def crc_byte_def table0_byte crc_bits8_step [of ?c] Let_def)
qed


text \<open>Four bytes at once: the remainder of the four bytes is that of their word.\<close>

abbreviation crc_bits32 :: "u32 \<Rightarrow> u32" where
  "crc_bits32 c \<equiv> crc_bits8 (crc_bits8 (crc_bits8 (crc_bits8 c)))"

lemma crc_bits32_split:
  "crc_bits32 c =
     crc_bits32 (take_bit 8 c) XOR
     crc_bits8 (crc_bits8 (crc_bits8 (take_bit 8 (drop_bit 8 c)))) XOR
     crc_bits8 (crc_bits8 (take_bit 8 (drop_bit 16 c))) XOR crc_bits8 (drop_bit 24 c)"
proof -
  have "crc_bits8 (drop_bit 8 c) = crc_bits8 (take_bit 8 (drop_bit 8 c)) XOR drop_bit 16 c"
    and "crc_bits8 (drop_bit 16 c) = crc_bits8 (take_bit 8 (drop_bit 16 c)) XOR drop_bit 24 c"
    using crc_bits8_step [of "drop_bit 8 c"] crc_bits8_step [of "drop_bit 16 c"] by simp_all
  then show ?thesis
    by (simp only: crc_bits8_step [of c] crc_bits8_xor xor.assoc)
qed

lemma table_bytes:
  "table1 ! unat (take_bit 8 c) = crc_bits8 (crc_bits8 (take_bit 8 c))"
  "table2 ! unat (take_bit 8 c) = crc_bits8 (crc_bits8 (crc_bits8 (take_bit 8 c)))"
  "table3 ! unat (take_bit 8 c) = crc_bits32 (take_bit 8 c)"
  by (simp_all add: table1_nth table2_nth table3_nth unat_take_byte)

lemma and_255_take_bit: "(c :: u32) AND 255 = take_bit 8 c"
  by (rule bit_word_eqI) (auto simp: bit_simps word_bits)

lemma top_byte: "drop_bit 24 (c :: u32) = take_bit 8 (drop_bit 24 c)"
proof (rule take_bit_word_self [symmetric])
  show "unat (drop_bit 24 c) < 2 ^ 8"
    using unat_bound [of c] by (simp only: unat_drop_bit_word) (simp add: less_mult_imp_div_less)
qed

lemma table0_top: "table0 ! unat (drop_bit 24 c) = crc_bits8 (drop_bit 24 c)"
  by (metis table0_byte top_byte)

lemma STEP4_word:
  assumes "LE_LOAD32 p = Some w"
  shows "STEP4 l p = crc_bits32 (l XOR w)"
proof -
  let ?c = "l XOR w"
  have "STEP4 l p = table3 ! unat (take_bit 8 ?c) XOR table2 ! unat (take_bit 8 (drop_bit 8 ?c)) XOR
      table1 ! unat (take_bit 8 (drop_bit 16 ?c)) XOR table0 ! unat (take_bit 8 (drop_bit 24 ?c))"
    using assms by (simp only: STEP4_def option.case Let_def and_255_take_bit top_byte [symmetric])
  also have "\<dots> = crc_bits32 ?c"
    by (simp only: table_bytes table0_byte crc_bits32_split [of ?c] table0_top top_byte [symmetric])
  finally show ?thesis .
qed

lemma crc_byte_word:
  "crc_bits8 (l XOR (ucast b XOR push_bit 8 w)) = crc_byte l b XOR take_bit 24 w"
  by (simp only: crc_byte_def crc_bits8_xor crc_bits8_push xor.assoc)

lemma le_value_Cons_xor:
  "(le_value (b # bs) :: u32) = ucast b XOR push_bit 8 (le_value bs)"
  by (rule bit_word_eqI) (auto simp: bit_simps dest: bit_imp_le_length)

lemma take_bit_le_value:
  "length bs \<le> k \<Longrightarrow> take_bit (8 * k) (le_value bs :: 'a::len word) = le_value bs"
proof (rule bit_word_eqI)
  fix n assume "length bs \<le> k" "n < LENGTH('a)"
  moreover have "n < 8 * k" if "n div 8 < length bs"
    using that \<open>length bs \<le> k\<close> by linarith
  ultimately show "bit (take_bit (8 * k) (le_value bs :: 'a word)) n = bit (le_value bs :: 'a word) n"
    by (auto simp: bit_simps bit_le_value)
qed

lemma foldl_crc_byte_word:
  "length bs \<le> 4 \<Longrightarrow> foldl crc_byte l bs = (crc_bits8 ^^ length bs) (l XOR le_value bs)"
proof (induction bs arbitrary: l)
  case Nil
  then show ?case by simp
next
  case (Cons b bs)
  have "take_bit 24 (le_value bs :: u32) = le_value bs"
    using Cons.prems take_bit_le_value [of bs 3] by simp
  then have "crc_bits8 (l XOR le_value (b # bs)) = crc_byte l b XOR le_value bs"
    by (simp only: le_value_Cons_xor crc_byte_word)
  with Cons show ?case by (simp add: funpow_swap1 del: le_value.simps)
qed

lemma STEP4_bytes:
  assumes "4 \<le> length p"
  shows "STEP4 l p = foldl crc_byte l (take 4 p)"
proof -
  have "LE_LOAD32 p = Some (le_value (take 4 p))"
    using assms by (simp add: LE_LOAD32_def DecodeFixed32_le_value)
  then have "STEP4 l p = crc_bits32 (l XOR le_value (take 4 p))" by (rule STEP4_word)
  also have "\<dots> = foldl crc_byte l (take 4 p)"
    using assms by (simp add: foldl_crc_byte_word eval_nat_numeral)
  finally show ?thesis .
qed

lemma ucast_32_64 [simp]: "(ucast (ucast (x :: u32) :: u64) :: u32) = x"
  by (rule bit_word_eqI) (simp add: bit_simps)

lemma xor_cancel [simp]:
  "(a XOR c = b XOR c) = (a = (b :: 'a::len word))"
  "(c XOR a = c XOR b) = (a = (b :: 'a::len word))"
  by (metis xor.assoc xor_self_eq xor.right_neutral, metis xor.assoc xor_self_eq xor.left_neutral)

lemma foldl_take_drop: "foldl f (foldl f l (take n p)) (drop n p) = foldl f l p"
  by (metis append_take_drop_id foldl_append)

lemma Extend_align_eq:
  "n \<le> length p \<Longrightarrow> Extend_align n l p = (foldl crc_byte l (take n p), drop n p)"
  by (induction n l p rule: Extend_align.induct) (simp_all add: STEP1_eq)

lemma foldl_take_add:
  "foldl f (foldl f l (take m p)) (take n (drop m p)) = foldl f l (take (m + n) p)"
  by (simp add: take_add)

lemma Extend_by16_foldl:
  "Extend_by16 l p = (l', p') \<Longrightarrow> foldl crc_byte l' p' = foldl crc_byte l p"
proof (induction l p rule: Extend_by16.induct)
  case (1 l p)
  show ?case
  proof (cases "16 \<le> length p")
    case True
    let ?l4 = "STEP4 (STEP4 (STEP4 (STEP4 l p) (drop 4 p)) (drop 8 p)) (drop 12 p)"
    have "?l4 = foldl crc_byte l (take 16 p)"
      using True foldl_take_add [of crc_byte l 4 p 4] foldl_take_add [of crc_byte l 8 p 4]
        foldl_take_add [of crc_byte l 12 p 4]
      by (simp add: STEP4_bytes)
    with 1 True show ?thesis
      by (simp add: Extend_by16.simps [of l p] foldl_take_drop)
  next
    case False
    with 1 show ?thesis by (simp add: Extend_by16.simps [of l p])
  qed
qed

lemma Extend_by4_foldl:
  "Extend_by4 l p = (l', p') \<Longrightarrow> foldl crc_byte l' p' = foldl crc_byte l p"
proof (induction l p rule: Extend_by4.induct)
  case (1 l p)
  then show ?case
    by (cases "4 \<le> length p")
      (simp_all add: Extend_by4.simps [of l p] STEP4_bytes foldl_take_drop)
qed

lemma Extend_by1_foldl: "Extend_by1 l p = foldl crc_byte l p"
  by (induction l p rule: Extend_by1.induct) (simp_all add: STEP1_eq)

lemma Extend_align_foldl:
  assumes "x \<le> pval + length buf" "Extend_align (x - pval) l buf = (l', p')"
  shows "foldl crc_byte l' p' = foldl crc_byte l buf"
  using assms Extend_align_eq [of "x - pval" buf l] by (auto simp: foldl_take_drop)

lemma Extend_portable_foldl: "Extend_portable pval crc buf = crc_extend crc buf"
  unfolding Extend_portable_def crc_extend_def Let_def
  by (auto simp: Extend_by1_foldl split: prod.split if_splits
      dest!: Extend_by4_foldl Extend_by16_foldl Extend_align_foldl)

section \<open>The accelerated routine computes the same\<close>

text \<open>
  What the two instructions are documented to compute: one byte, and eight bytes of a
  little-endian word, accumulated into the reflected remainder modulo the Castagnoli
  polynomial. The accumulator of the 64-bit form is the low half of its operand, and the high
  half of its result is zero.
\<close>

definition crc32_u64 :: "u64 \<Rightarrow> u64 \<Rightarrow> u64" where
  "crc32_u64 l v = ucast (foldl crc_byte (ucast l) (object_bytes True 8 v))"

lemma object_bytes_le_value:
  "length bs = 8 \<Longrightarrow> object_bytes True 8 (le_value bs :: u64) = bs"
  by (simp add: object_bytes_def bytes_le_value)

locale sse42_crc32 =
  fixes mm8 :: "u32 \<Rightarrow> byte \<Rightarrow> u32" and mm64 :: "u64 \<Rightarrow> u64 \<Rightarrow> u64"
  assumes mm8_byte: "mm8 l b = crc_byte l b"
    and mm64_word: "mm64 l64 v = crc32_u64 l64 v"
begin

lemma Accelerated_bytes_foldl:
  "n \<le> length p \<Longrightarrow> Accelerated_bytes mm8 n l p = (foldl crc_byte l (take n p), drop n p)"
  by (induction n arbitrary: l p) (auto simp: mm8_byte Suc_le_length_iff)

lemma mm64_foldl:
  "length bs = 8 \<Longrightarrow> mm64 l64 (le_value bs) = ucast (foldl crc_byte (ucast l64) bs)"
  by (simp add: mm64_word crc32_u64_def object_bytes_le_value)

lemma Accelerated_by16_foldl:
  "Accelerated_by16 mm64 l64 p = (l', p') \<Longrightarrow>
     foldl crc_byte (ucast l') p' = foldl crc_byte (ucast l64) p"
proof (induction "length p" arbitrary: l64 p rule: less_induct)
  case less
  show ?case
  proof (cases "16 \<le> length p")
    case True
    let ?m = "mm64 (mm64 l64 (le_value (take 8 p))) (le_value (take 8 (drop 8 p)))"
    have "(ucast ?m :: u32) = foldl crc_byte (ucast l64) (take 16 p)"
      using True foldl_take_add [of crc_byte "ucast l64" 8 p 8] by (simp add: mm64_foldl)
    moreover have "Accelerated_by16 mm64 ?m (drop 16 p) = (l', p')"
      using less.prems True by (simp add: Accelerated_by16.simps [of mm64 l64 p])
    ultimately show ?thesis
      using less.hyps [of "drop 16 p" ?m] True by (simp add: foldl_take_drop)
  next
    case False
    with less.prems show ?thesis by (simp add: Accelerated_by16.simps [of mm64 l64 p])
  qed
qed

lemma AcceleratedExtend_foldl: "AcceleratedExtend mm8 mm64 pval crc buf = crc_extend crc buf"
proof -
  let ?x = "(pval + 7) div 8 * 8" and ?l = "crc XOR 0xffffffff"
  obtain l1 p1 where a: "(if ?x \<le> pval + length buf then Accelerated_bytes mm8 (?x - pval) ?l buf
      else (?l, buf)) = (l1, p1)" by fastforce
  obtain l2 p2 where b: "Accelerated_by16 mm64 (ucast l1) p1 = (l2, p2)" by fastforce
  have "foldl crc_byte l1 p1 = foldl crc_byte ?l buf"
    using a by (auto simp: Accelerated_bytes_foldl foldl_take_drop split: if_splits)
  moreover have "foldl crc_byte (ucast l2) p2 = foldl crc_byte l1 p1"
    using Accelerated_by16_foldl [OF b] by simp
  ultimately show ?thesis
    unfolding AcceleratedExtend_def crc_extend_def Let_def a b
    by (simp add: Accelerated_bytes_foldl b)
qed

end

interpretation sse42: sse42_crc32 crc_byte crc32_u64
  by unfold_locales simp_all

section \<open>Masking and error detection\<close>

lemma rotate_bits:
  "k < 32 \<Longrightarrow> drop_bit (32 - k) (drop_bit k c OR push_bit (32 - k) c) OR
     push_bit k (drop_bit k c OR push_bit (32 - k) c) = (c::u32)"
proof (rule bit_word_eqI)
  fix n assume "k < 32" "n < LENGTH(32)"
  then show "bit (drop_bit (32 - k) (drop_bit k c OR push_bit (32 - k) c) OR
     push_bit k (drop_bit k c OR push_bit (32 - k) c)) n = bit c n"
    by (cases "n < k") (auto simp: bit_simps dest: bit_imp_le_length)
qed

lemma Unmask_Mask: "Unmask (Mask c) = c"
  using rotate_bits [of 15 c] by (simp add: Mask_def Unmask_def Let_def)

lemma Mask_Unmask: "Mask (Unmask c) = c"
  using rotate_bits [of 17 "c - kMaskDelta"] by (simp add: Mask_def Unmask_def Let_def)

lemma crc_bit_inj: "crc_bit l = crc_bit l' \<longleftrightarrow> l = l'"
proof
  assume eq: "crc_bit l = crc_bit l'"
  have top: "bit (crc_bit k) 31 = bit k 0" for k
    by (auto simp: crc_bit_def bit_simps dest: bit_imp_le_length)
  then have b0: "bit l 0 = bit l' 0" using eq by metis
  with eq have "drop_bit 1 l = drop_bit 1 l'"
    by (auto simp: crc_bit_def split: if_splits) 
  then have "bit l (Suc n) = bit l' (Suc n)" for n
    by (metis bit_drop_bit_eq comp_apply plus_1_eq_Suc)
  with b0 show "l = l'"
    by (metis bit_word_eqI not0_implies_Suc)
qed simp

lemma crc_bits8_inj: "crc_bits8 l = crc_bits8 l' \<longleftrightarrow> l = l'"
  by (simp add: crc_bits8_def crc_bit_inj)

lemma crc_bits8_pow_inj: "(crc_bits8 ^^ n) l = (crc_bits8 ^^ n) l' \<longleftrightarrow> l = l'"
  by (induction n) (simp_all add: crc_bits8_inj)

lemma crc_extend_inj_state: "foldl crc_byte l s = foldl crc_byte l' s \<longleftrightarrow> l = l'"
  by (induction s arbitrary: l l') (simp_all add: crc_byte_def crc_bits8_inj)

lemma le_value_inj:
  assumes "length x = length y" "8 * length x \<le> LENGTH('a)" "(le_value x :: 'a::len word) = le_value y"
  shows "x = y"
proof (rule nth_equalityI)
  fix i assume i: "i < length x"
  have "bit (x ! i) n = bit (y ! i) n" if "n < 8" for n
  proof -
    have "8 * i + n < LENGTH('a)" using i that assms(2) by linarith
    then show ?thesis
      using assms(1) i that arg_cong [OF assms(3), of "\<lambda>w. bit w (8 * i + n)"]
      by (simp add: bit_le_value)
  qed
  then show "x ! i = y ! i" by (intro bit_word_eqI) simp
qed (fact assms(1))

lemma crc_burst:
  assumes "length x = length y" "length x \<le> 4"
  shows "crc_extend crc (p @ x @ s) = crc_extend crc (p @ y @ s) \<longleftrightarrow> x = y"
proof
  assume "crc_extend crc (p @ x @ s) = crc_extend crc (p @ y @ s)"
  then have "(le_value x :: u32) = le_value y"
    using assms
    by (simp add: crc_extend_def crc_extend_inj_state foldl_crc_byte_word crc_bits8_pow_inj)
  with assms show "x = y" by (intro le_value_inj [where 'a=32]) simp_all
qed simp

lemma crc_extend_append: "crc_extend crc (a @ b) = crc_extend (crc_extend crc a) b"
  by (simp add: crc_extend_def xor.assoc)

lemma Extend_None: "Extend None pval crc buf = crc_extend crc buf"
  by (simp add: Extend_def Extend_portable_foldl)

section \<open>Properties\<close>

text \<open>C1: the checksum does not depend on where the buffer lies in memory nor on the processor:
  with instructions that accumulate one byte, and eight bytes of a little-endian word, the
  SSE4.2 routine gives the value of the table-driven routine, and both give the bit-by-bit
  remainder.\<close>

theorem Extend_accelerated_eq_portable:
  assumes "\<And>l b. mm8 l b = crc_byte l b" and "\<And>l v. mm64 l v = crc32_u64 l v"
  shows "Extend (Some (mm8, mm64)) pval crc buf = Extend None pval' crc buf \<and>
         Extend None pval' crc buf = crc_extend crc buf"
proof -
  from assms have "sse42_crc32 mm8 mm64" by (rule sse42_crc32.intro)
  then have "AcceleratedExtend mm8 mm64 pval crc buf = crc_extend crc buf"
    by (rule sse42_crc32.AcceleratedExtend_foldl)
  then show ?thesis by (simp add: Extend_def Extend_portable_foldl)
qed

theorem Extend_accelerated_eq_portable_witness:
  "Extend (Some (crc_byte, crc32_u64)) 5 0 [49, 50, 51, 52, 53, 54, 55, 56, 57] = 0xe3069283"
proof -
  have "crc_extend 0 [49, 50, 51, 52, 53, 54, 55, 56, 57] = 0xe3069283" by code_simp
  then show ?thesis
    using Extend_accelerated_eq_portable [of crc_byte crc32_u64 5 0 "[49, 50, 51, 52, 53, 54, 55, 56, 57]" 0]
    by simp
qed

text \<open>C7: the checksum of a concatenation is computed piecewise, as the readers and writers
  that extend a running checksum rely on.\<close>

theorem Extend_append:
  "Extend None pval crc (a @ b) = Extend None pval'' (Extend None pval' crc a) b \<and>
   Value None pval (a @ b) = Extend None pval'' (Value None pval' a) b"
  by (simp add: Value_def Extend_None crc_extend_append)

text \<open>C2: error detection. Replacing up to four consecutive bytes anywhere in a buffer by other
  bytes always changes the checksum, masked or not.\<close>

theorem Value_detects_burst:
  assumes "length x = length y" and "length x \<le> 4" and "x \<noteq> y"
  shows "Value None pval (p @ x @ s) \<noteq> Value None pval' (p @ y @ s) \<and>
    Mask (Value None pval (p @ x @ s)) \<noteq> Mask (Value None pval' (p @ y @ s))"
proof -
  have "Value None pval (p @ x @ s) \<noteq> Value None pval' (p @ y @ s)"
    using assms by (simp add: Value_def Extend_None crc_burst)
  then show ?thesis by (metis Unmask_Mask)
qed

theorem Value_detects_burst_witness:
  "Value None 0 ([7] @ [1, 2] @ [9]) \<noteq> Value None 0 ([7] @ [2, 1] @ [9])"
  using Value_detects_burst [of "[1, 2]" "[2, 1]" 0 "[7]" "[9]" 0] by simp

text \<open>C8: masking a checksum for storage is a bijection with \<^verbatim>\<open>Unmask\<close> as its inverse.\<close>

theorem Mask_Unmask_inverse: "Unmask (Mask c) = c \<and> Mask (Unmask c) = c"
  by (simp add: Unmask_Mask Mask_Unmask)

end
