(* ===== verification/InputStream.thy ===== *)
theory InputStream
  imports Prelude
begin

text \<open>
  The byte stream over a file, \<^verbatim>\<open>core/lib/io/random_inputstream.cc\<close>. The virtual interface
  \<^verbatim>\<open>InputStreamInterface\<close> is a record of operations, and what its comments promise is the
  locale \<open>input_stream\<close>, which this class and the buffered stream interpret.
\<close>

section \<open>Statuses, files and the stream interface\<close>

type_synonym status = "tf_error option"

abbreviation OK :: status where
  "OK \<equiv> None"

fun IsOutOfRange :: "status \<Rightarrow> bool" where
  "IsOutOfRange (Some (OutOfRange m)) = True"
| "IsOutOfRange s = False"

text \<open>
  A file is its contents; \<^verbatim>\<open>Read\<close> stores the bytes there are and reports \<^verbatim>\<open>OUT_OF_RANGE\<close> when
  they are fewer than requested.
\<close>

definition RandomAccessFile_Read :: "bytes \<Rightarrow> int \<Rightarrow> int \<Rightarrow> status \<times> bytes" where
  "RandomAccessFile_Read file offset n =
     (let data = take (nat n) (drop (nat offset) file)
      in (if length data = nat n then OK
          else Some (OutOfRange ''Read less bytes than requested''), data))"

text \<open>The virtual functions; the second argument of a read is the string it overwrites.\<close>

record 's InputStreamInterface =
  op_ReadNBytes :: "int \<Rightarrow> bytes \<Rightarrow> 's \<Rightarrow> status \<times> bytes \<times> 's"
  op_SkipNBytes :: "int \<Rightarrow> 's \<Rightarrow> status \<times> 's"
  op_Tell :: "'s \<Rightarrow> int"
  op_Reset :: "'s \<Rightarrow> status \<times> 's"

section \<open>RandomAccessInputStream\<close>

record RandomAccessInputStream =
  ras_file :: bytes
  ras_pos :: int

definition RandomAccess_ReadNBytes ::
  "int \<Rightarrow> bytes \<Rightarrow> RandomAccessInputStream \<Rightarrow> status \<times> bytes \<times> RandomAccessInputStream" where
  "RandomAccess_ReadNBytes bytes_to_read result st =
     (if bytes_to_read < 0
      then (Some (InvalidArgument ''Cannot read negative number of bytes''), result, st)
      else
        (let (s, data) = RandomAccessFile_Read (ras_file st) (ras_pos st) bytes_to_read
         in (s, data,
             if s = OK \<or> IsOutOfRange s then st\<lparr>ras_pos := ras_pos st + int (length data)\<rparr>
             else st)))"

definition kMaxSkipSize :: int where
  "kMaxSkipSize = 8 * 1024 * 1024"

function RandomAccess_SkipLoop ::
  "int \<Rightarrow> RandomAccessInputStream \<Rightarrow> status \<times> RandomAccessInputStream" where
  "RandomAccess_SkipLoop bytes_to_skip st =
     (if 0 < bytes_to_skip then
        (let bytes_to_read = min kMaxSkipSize bytes_to_skip;
             (s, data) = RandomAccessFile_Read (ras_file st) (ras_pos st) bytes_to_read
         in if s = OK \<or> IsOutOfRange s then
              (let st' = st\<lparr>ras_pos := ras_pos st + int (length data)\<rparr>
               in if length data < nat bytes_to_read
                  then (Some (OutOfRange ''reached end of file''), st')
                  else RandomAccess_SkipLoop (bytes_to_skip - bytes_to_read) st')
            else (s, st))
      else (OK, st))"
  by pat_completeness auto
termination
  by (relation "measure (\<lambda>(n, st). nat n)") (auto simp: kMaxSkipSize_def)

declare RandomAccess_SkipLoop.simps [simp del]

text \<open>
  Positions are integers. In the source they are \<^verbatim>\<open>int64\<close>, and \<open>pos + bytes_to_skip - 1\<close> overflows
  when a client skips by almost \<open>2 ^ 63\<close>, which the model does not show.
\<close>

definition RandomAccess_SkipNBytes ::
  "int \<Rightarrow> RandomAccessInputStream \<Rightarrow> status \<times> RandomAccessInputStream" where
  "RandomAccess_SkipNBytes bytes_to_skip st =
     (if bytes_to_skip < 0
      then (Some (InvalidArgument ''Can't skip a negative number of bytes''), st)
      else
        (let (s, data) = RandomAccessFile_Read (ras_file st) (ras_pos st + bytes_to_skip - 1) 1
         in if 0 < bytes_to_skip \<and> (s = OK \<or> IsOutOfRange s) \<and> length data = 1
            then (OK, st\<lparr>ras_pos := ras_pos st + bytes_to_skip\<rparr>)
            else RandomAccess_SkipLoop bytes_to_skip st))"

definition RandomAccess_Tell :: "RandomAccessInputStream \<Rightarrow> int" where
  "RandomAccess_Tell st = ras_pos st"

definition RandomAccess_Seek ::
  "int \<Rightarrow> RandomAccessInputStream \<Rightarrow> status \<times> RandomAccessInputStream" where
  "RandomAccess_Seek position st = (OK, st\<lparr>ras_pos := position\<rparr>)"

definition RandomAccess_Reset ::
  "RandomAccessInputStream \<Rightarrow> status \<times> RandomAccessInputStream" where
  "RandomAccess_Reset st = RandomAccess_Seek 0 st"

definition random_access_ops :: "RandomAccessInputStream InputStreamInterface" where
  "random_access_ops =
     \<lparr>op_ReadNBytes = RandomAccess_ReadNBytes, op_SkipNBytes = RandomAccess_SkipNBytes,
      op_Tell = RandomAccess_Tell, op_Reset = RandomAccess_Reset\<rparr>"

section \<open>The contract of a stream\<close>

text \<open>
  What a client observes of a sequence of calls: the status code without its message, the
  string the reads overwrite, and the position after the call.
\<close>

datatype stream_call = ReadCall int | SkipCall int | TellCall | ResetCall

fun error_code :: "status \<Rightarrow> status" where
  "error_code (Some (DataLoss m)) = Some (DataLoss [])"
| "error_code (Some (OutOfRange m)) = Some (OutOfRange [])"
| "error_code (Some (InvalidArgument m)) = Some (InvalidArgument [])"
| "error_code (Some (FailedPrecondition m)) = Some (FailedPrecondition [])"
| "error_code (Some (IOError m)) = Some (IOError [])"
| "error_code s = s"

fun stream_step :: "'s InputStreamInterface \<Rightarrow> stream_call \<Rightarrow> bytes \<Rightarrow> 's \<Rightarrow> status \<times> bytes \<times> 's" where
  "stream_step ops (ReadCall n) r s = op_ReadNBytes ops n r s"
| "stream_step ops (SkipCall n) r s = (let (st, s') = op_SkipNBytes ops n s in (st, r, s'))"
| "stream_step ops TellCall r s = (OK, r, s)"
| "stream_step ops ResetCall r s = (let (st, s') = op_Reset ops s in (st, r, s'))"

fun stream_run ::
  "'s InputStreamInterface \<Rightarrow> stream_call list \<Rightarrow> bytes \<Rightarrow> 's \<Rightarrow> (status \<times> bytes \<times> int) list" where
  "stream_run ops [] r s = []"
| "stream_run ops (c # cs) r s =
     (let (st, r', s') = stream_step ops c r s
      in (error_code st, r', op_Tell ops s') # stream_run ops cs r' s')"

text \<open>The specification: a position in the contents.\<close>

fun spec_step :: "bytes \<Rightarrow> stream_call \<Rightarrow> bytes \<Rightarrow> nat \<Rightarrow> status \<times> bytes \<times> nat" where
  "spec_step contents (ReadCall n) r p =
     (if n < 0 then (Some (InvalidArgument []), r, p)
      else (let data = take (nat n) (drop p contents)
            in (if length data = nat n then OK else Some (OutOfRange []), data, p + length data)))"
| "spec_step contents (SkipCall n) r p =
     (if n < 0 then (Some (InvalidArgument []), r, p)
      else if p + nat n \<le> length contents then (OK, r, p + nat n)
      else (Some (OutOfRange []), r, length contents))"
| "spec_step contents TellCall r p = (OK, r, p)"
| "spec_step contents ResetCall r p = (OK, r, 0)"

fun spec_run :: "bytes \<Rightarrow> stream_call list \<Rightarrow> bytes \<Rightarrow> nat \<Rightarrow> (status \<times> bytes \<times> int) list" where
  "spec_run contents [] r p = []"
| "spec_run contents (c # cs) r p =
     (let (st, r', p') = spec_step contents c r p
      in (st, r', int p') # spec_run contents cs r' p')"

lemma error_code_OutOfRange [simp]: "IsOutOfRange s \<Longrightarrow> error_code s = Some (OutOfRange [])"
  by (cases s rule: IsOutOfRange.cases) auto

text \<open>
  \<open>contents\<close> is what the stream delivers from its beginning, \<open>at s\<close> the number of bytes
  delivered or skipped so far, \<open>inv\<close> the states the operations keep.
\<close>

locale input_stream =
  fixes ops :: "'s InputStreamInterface" and contents :: bytes
    and inv :: "'s \<Rightarrow> bool" and at :: "'s \<Rightarrow> nat"
  assumes at_le: "inv s \<Longrightarrow> at s \<le> length contents"
    and Tell_at: "inv s \<Longrightarrow> op_Tell ops s = int (at s)"
    and Reset_at: "inv s \<Longrightarrow> op_Reset ops s = (st, s') \<Longrightarrow> st = OK \<and> inv s' \<and> at s' = 0"
    and Read_neg: "inv s \<Longrightarrow> n < 0 \<Longrightarrow>
      \<exists>m. op_ReadNBytes ops n r s = (Some (InvalidArgument m), r, s)"
    and Read_at: "inv s \<Longrightarrow> 0 \<le> n \<Longrightarrow> op_ReadNBytes ops n r s = (st, data, s') \<Longrightarrow>
      data = take (nat n) (drop (at s) contents) \<and> inv s' \<and> at s' = at s + length data \<and>
      (if length data = nat n then st = OK else IsOutOfRange st)"
    and Skip_neg: "inv s \<Longrightarrow> n < 0 \<Longrightarrow> \<exists>m. op_SkipNBytes ops n s = (Some (InvalidArgument m), s)"
    and Skip_at: "inv s \<Longrightarrow> 0 \<le> n \<Longrightarrow> op_SkipNBytes ops n s = (st, s') \<Longrightarrow>
      inv s' \<and> at s' = min (at s + nat n) (length contents) \<and>
      (if at s + nat n \<le> length contents then st = OK else IsOutOfRange st)"
begin

lemma Read_enough:
  assumes "inv s" "at s + n \<le> length contents"
  obtains s' where "op_ReadNBytes ops (int n) r s = (OK, take n (drop (at s) contents), s')"
    "inv s'" "at s' = at s + n"
proof -
  obtain st data s' where r: "op_ReadNBytes ops (int n) r s = (st, data, s')"
    by (metis prod_cases3)
  from Read_at [OF assms(1) _ r] assms(2) show ?thesis by (intro that [of s']) (auto simp: r)
qed

lemma Read_short:
  assumes "inv s" "length contents < at s + n"
  obtains st s' where "op_ReadNBytes ops (int n) r s = (st, drop (at s) contents, s')"
    "IsOutOfRange st" "inv s'" "at s' = length contents"
proof -
  obtain st data s' where r: "op_ReadNBytes ops (int n) r s = (st, data, s')"
    by (metis prod_cases3)
  from Read_at [OF assms(1) _ r] assms at_le [OF assms(1)] show ?thesis
    by (intro that [of st s']) (auto simp: r split: if_splits)
qed

lemma stream_step_spec:
  assumes "inv s" "stream_step ops c r s = (st, r', s')"
  shows "inv s' \<and> spec_step contents c r (at s) = (error_code st, r', at s')"
proof (cases c)
  case (ReadCall n)
  with assms show ?thesis
    using Read_neg [OF assms(1), of n r] Read_at [OF assms(1), of n r st r' s']
    by (cases "n < 0") (auto simp: Let_def split: if_splits)
next
  case (SkipCall n)
  with assms show ?thesis
    using Skip_neg [OF assms(1), of n] Skip_at [OF assms(1), of n st s']
    by (cases "n < 0") (auto split: prod.splits if_splits)
next
  case TellCall
  with assms show ?thesis by simp
next
  case ResetCall
  with assms show ?thesis using Reset_at [OF assms(1)] by (auto split: prod.splits)
qed

lemma stream_run_spec: "inv s \<Longrightarrow> stream_run ops cs r s = spec_run contents cs r (at s)"
proof (induction cs arbitrary: r s)
  case Nil
  then show ?case by simp
next
  case (Cons c cs)
  obtain st r' s' where st: "stream_step ops c r s = (st, r', s')" by (metis prod_cases3)
  from stream_step_spec [OF Cons.prems st] Cons.IH [of s' r'] show ?case
    by (simp add: st Tell_at)
qed

end

section \<open>RandomAccessInputStream keeps the contract\<close>

definition ras_inv :: "bytes \<Rightarrow> RandomAccessInputStream \<Rightarrow> bool" where
  "ras_inv contents st \<longleftrightarrow>
     ras_file st = contents \<and> 0 \<le> ras_pos st \<and> ras_pos st \<le> int (length contents)"

definition ras_at :: "RandomAccessInputStream \<Rightarrow> nat" where
  "ras_at st = nat (ras_pos st)"

lemma RandomAccess_SkipLoop_spec:
  "ras_inv contents st \<Longrightarrow> RandomAccess_SkipLoop n st = (s, st') \<Longrightarrow> 0 \<le> n \<Longrightarrow>
   ras_inv contents st' \<and> ras_at st' = min (ras_at st + nat n) (length contents) \<and>
   (if ras_at st + nat n \<le> length contents then s = OK else IsOutOfRange s)"
proof (induction n st arbitrary: s st' rule: RandomAccess_SkipLoop.induct)
  case (1 n st)
  let ?m = "min kMaxSkipSize n"
  let ?data = "take (nat ?m) (drop (ras_at st) contents)"
  let ?st1 = "st\<lparr>ras_pos := ras_pos st + int (length ?data)\<rparr>"
  show ?case
  proof (cases "0 < n")
    case False
    with 1 show ?thesis
      by (auto simp: RandomAccess_SkipLoop.simps [of n st] ras_inv_def ras_at_def)
  next
    case True
    then have m: "0 < ?m" "?m \<le> n" by (auto simp: kMaxSkipSize_def)
    have inv1: "ras_inv contents ?st1" and at1: "ras_at ?st1 = ras_at st + length ?data"
      using "1.prems"(1) by (auto simp: ras_inv_def ras_at_def nat_add_distrib)
    obtain s0 where r: "RandomAccessFile_Read (ras_file st) (ras_pos st) ?m = (s0, ?data)"
      and ok: "s0 = OK \<or> IsOutOfRange s0"
      using "1.prems"(1) by (simp add: RandomAccessFile_Read_def ras_inv_def ras_at_def Let_def)
    have step: "RandomAccess_SkipLoop n st =
        (if length ?data < nat ?m then (Some (OutOfRange ''reached end of file''), ?st1)
         else RandomAccess_SkipLoop (n - ?m) ?st1)"
      by (subst RandomAccess_SkipLoop.simps) (simp only: True r Let_def split if_True ok)
    show ?thesis
    proof (cases "length ?data < nat ?m")
      case short: True
      then have d: "length ?data = length contents - ras_at st" by auto
      have "ras_at st \<le> length contents" using "1.prems"(1) by (auto simp: ras_inv_def ras_at_def)
      with short m d at1 have "length contents < ras_at st + nat n" "ras_at ?st1 = length contents"
        by linarith+
      moreover have "s = Some (OutOfRange ''reached end of file'')" "st' = ?st1"
        using "1.prems"(2) short by (simp_all only: step if_True prod.inject)
      ultimately show ?thesis using inv1 by simp
    next
      case False
      then have d: "length ?data = nat ?m" by (simp add: not_less)
      then have "RandomAccess_SkipLoop (n - ?m) ?st1 = (s, st')"
        using "1.prems"(2) by (simp only: step less_irrefl if_False)
      moreover have "0 \<le> n - ?m" using m by linarith
      ultimately have IH: "ras_inv contents st' \<and>
          ras_at st' = min (ras_at ?st1 + nat (n - ?m)) (length contents) \<and>
          (if ras_at ?st1 + nat (n - ?m) \<le> length contents then s = OK else IsOutOfRange s)"
        using "1.IH" [OF True refl r [symmetric] refl ok refl False inv1] by blast
      have "ras_at ?st1 + nat (n - ?m) = ras_at st + nat n" using at1 d m by linarith
      then show ?thesis using IH by metis
    qed
  qed
qed

lemma RandomAccess_SkipNBytes_spec:
  assumes inv: "ras_inv contents st" and "0 \<le> n" and skip: "RandomAccess_SkipNBytes n st = (s, st')"
  shows "ras_inv contents st' \<and> ras_at st' = min (ras_at st + nat n) (length contents) \<and>
   (if ras_at st + nat n \<le> length contents then s = OK else IsOutOfRange s)"
proof -
  let ?probe = "0 < n \<and> ras_at st + nat n \<le> length contents"
  have "length (take 1 (drop (nat (ras_pos st + n - 1)) contents)) = 1 \<longleftrightarrow> ?probe" if "0 < n"
    using inv that by (auto simp: ras_inv_def ras_at_def)
  then have "RandomAccess_SkipNBytes n st =
      (if ?probe then (OK, st\<lparr>ras_pos := ras_pos st + n\<rparr>) else RandomAccess_SkipLoop n st)"
    using inv \<open>0 \<le> n\<close>
    by (cases "0 < n") (auto simp: RandomAccess_SkipNBytes_def RandomAccessFile_Read_def ras_inv_def Let_def)
  with inv skip RandomAccess_SkipLoop_spec [of contents st n s st'] \<open>0 \<le> n\<close> show ?thesis
    by (auto simp: ras_inv_def ras_at_def split: if_splits)
qed

interpretation random_access: input_stream random_access_ops contents "ras_inv contents" ras_at
  for contents
proof unfold_locales
  fix s n st s'
  show "ras_inv contents s \<Longrightarrow> 0 \<le> n \<Longrightarrow> op_SkipNBytes random_access_ops n s = (st, s') \<Longrightarrow>
      ras_inv contents s' \<and> ras_at s' = min (ras_at s + nat n) (length contents) \<and>
      (if ras_at s + nat n \<le> length contents then st = OK else IsOutOfRange st)"
    by (rule RandomAccess_SkipNBytes_spec) (simp_all add: random_access_ops_def)
qed (auto simp: random_access_ops_def ras_inv_def ras_at_def RandomAccess_Tell_def
    RandomAccess_Reset_def RandomAccess_Seek_def RandomAccess_ReadNBytes_def
    RandomAccessFile_Read_def RandomAccess_SkipNBytes_def Let_def split: if_splits)

end
