(* ===== verification/BufferedInputStream.thy ===== *)
theory BufferedInputStream
  imports InputStream
begin

text \<open>
  The buffer of \<^verbatim>\<open>core/lib/io/buffered_inputstream.cc\<close> on top of any stream. It keeps the
  contract \<open>input_stream\<close> of the stream below it, and its line readers and \<^verbatim>\<open>ReadAll\<close> end and
  deliver the lines and bytes of the contents.
\<close>

section \<open>BufferedInputStream\<close>

record 's BufferedInputStream =
  bis_input_stream :: 's
  bis_size :: nat
  bis_buf :: bytes
  bis_pos :: nat
  bis_limit :: nat
  bis_file_status :: status

definition BufferedInputStream_new :: "'s \<Rightarrow> nat \<Rightarrow> 's BufferedInputStream" where
  "BufferedInputStream_new stream buffer_bytes =
     \<lparr>bis_input_stream = stream, bis_size = buffer_bytes, bis_buf = [], bis_pos = 0,
      bis_limit = 0, bis_file_status = OK\<rparr>"

definition Buffered_FillBuffer ::
  "'s InputStreamInterface \<Rightarrow> 's BufferedInputStream \<Rightarrow> status \<times> 's BufferedInputStream" where
  "Buffered_FillBuffer ops b =
     (if bis_file_status b \<noteq> OK
      then (bis_file_status b, b\<lparr>bis_pos := 0, bis_limit := 0\<rparr>)
      else
        (let (s, buf, u) = op_ReadNBytes ops (int (bis_size b)) (bis_buf b) (bis_input_stream b);
             b' = b\<lparr>bis_input_stream := u, bis_buf := buf, bis_pos := 0, bis_limit := length buf\<rparr>
         in (s, if s \<noteq> OK then b'\<lparr>bis_file_status := s\<rparr> else b')))"

text \<open>
  The copying loop of \<^verbatim>\<open>ReadNBytes\<close>. Every round but the last copies a byte, so the bytes
  requested and one more are rounds enough; \<open>CheckFailed\<close> marks running out of them.
\<close>

fun Buffered_ReadLoop ::
  "'s InputStreamInterface \<Rightarrow> nat \<Rightarrow> nat \<Rightarrow> status \<Rightarrow> bytes \<Rightarrow> 's BufferedInputStream \<Rightarrow>
   status \<times> bytes \<times> 's BufferedInputStream" where
  "Buffered_ReadLoop ops 0 n s result b = (Some CheckFailed, result, b)"
| "Buffered_ReadLoop ops (Suc rounds) n s result b =
     (if length result < n then
        (let (s', b') = (if bis_pos b = bis_limit b then Buffered_FillBuffer ops b else (s, b))
         in if bis_pos b = bis_limit b \<and> bis_limit b' = 0
            then (s', result, b'\<lparr>bis_file_status := s'\<rparr>)
            else
              (let bytes_to_copy = min (bis_limit b' - bis_pos b') (n - length result)
               in Buffered_ReadLoop ops rounds n s'
                    (result @ take bytes_to_copy (drop (bis_pos b') (bis_buf b')))
                    (b'\<lparr>bis_pos := bis_pos b' + bytes_to_copy\<rparr>)))
      else (s, result, b))"

definition Buffered_ReadNBytes ::
  "'s InputStreamInterface \<Rightarrow> int \<Rightarrow> bytes \<Rightarrow> 's BufferedInputStream \<Rightarrow>
   status \<times> bytes \<times> 's BufferedInputStream" where
  "Buffered_ReadNBytes ops bytes_to_read result b =
     (if bytes_to_read < 0
      then (Some (InvalidArgument ''Can't read a negative number of bytes''), result, b)
      else if bis_pos b = bis_limit b \<and> bis_file_status b \<noteq> OK \<and> 0 < bytes_to_read
      then (bis_file_status b, [], b)
      else
        (let (s, result', b') =
               Buffered_ReadLoop ops (Suc (nat bytes_to_read)) (nat bytes_to_read) OK [] b
         in (if IsOutOfRange s \<and> length result' = nat bytes_to_read then OK else s, result', b')))"

definition Buffered_SkipNBytes ::
  "'s InputStreamInterface \<Rightarrow> int \<Rightarrow> 's BufferedInputStream \<Rightarrow> status \<times> 's BufferedInputStream" where
  "Buffered_SkipNBytes ops bytes_to_skip b =
     (if bytes_to_skip < 0 then (Some (InvalidArgument ''Can only skip forward''), b)
      else if int (bis_pos b) + bytes_to_skip < int (bis_limit b)
      then (OK, b\<lparr>bis_pos := bis_pos b + nat bytes_to_skip\<rparr>)
      else
        (let (s, u) = op_SkipNBytes ops (bytes_to_skip - (int (bis_limit b) - int (bis_pos b)))
                        (bis_input_stream b);
             b' = b\<lparr>bis_input_stream := u, bis_pos := 0, bis_limit := 0\<rparr>
         in (s, if IsOutOfRange s then b'\<lparr>bis_file_status := s\<rparr> else b')))"

definition Buffered_Tell :: "'s InputStreamInterface \<Rightarrow> 's BufferedInputStream \<Rightarrow> int" where
  "Buffered_Tell ops b =
     op_Tell ops (bis_input_stream b) - (int (bis_limit b) - int (bis_pos b))"

definition Buffered_Reset ::
  "'s InputStreamInterface \<Rightarrow> 's BufferedInputStream \<Rightarrow> status \<times> 's BufferedInputStream" where
  "Buffered_Reset ops b =
     (let (s, u) = op_Reset ops (bis_input_stream b)
      in if s \<noteq> OK then (s, b\<lparr>bis_input_stream := u\<rparr>)
         else (OK, b\<lparr>bis_input_stream := u, bis_pos := 0, bis_limit := 0, bis_file_status := OK\<rparr>))"

definition Buffered_Seek ::
  "'s InputStreamInterface \<Rightarrow> int \<Rightarrow> 's BufferedInputStream \<Rightarrow> status \<times> 's BufferedInputStream" where
  "Buffered_Seek ops position b =
     (if position < 0 then (Some (InvalidArgument ''Seeking to a negative position''), b)
      else if position < op_Tell ops (bis_input_stream b) - int (bis_limit b) then
        (let (s, b') = Buffered_Reset ops b
         in if s \<noteq> OK then (s, b') else Buffered_SkipNBytes ops position b')
      else if position < Buffered_Tell ops b
      then (OK, b\<lparr>bis_pos := nat (int (bis_pos b) - (Buffered_Tell ops b - position))\<rparr>)
      else Buffered_SkipNBytes ops (position - Buffered_Tell ops b) b)"

definition buffered_ops ::
  "'s InputStreamInterface \<Rightarrow> 's BufferedInputStream InputStreamInterface" where
  "buffered_ops ops =
     \<lparr>op_ReadNBytes = Buffered_ReadNBytes ops, op_SkipNBytes = Buffered_SkipNBytes ops,
      op_Tell = Buffered_Tell ops, op_Reset = Buffered_Reset ops\<rparr>"

text \<open>
  The loops of the line readers and of \<^verbatim>\<open>ReadAll\<close> end only when the stream does; not ending
  is the value \<open>None\<close>.
\<close>

definition buf_slice :: "'s BufferedInputStream \<Rightarrow> nat \<Rightarrow> bytes" where
  "buf_slice b start_pos = take (bis_pos b - start_pos) (drop start_pos (bis_buf b))"

partial_function (option) Buffered_ReadLineLoop ::
  "'s InputStreamInterface \<Rightarrow> bool \<Rightarrow> nat \<Rightarrow> bytes \<Rightarrow> 's BufferedInputStream \<Rightarrow>
   (status \<times> bool \<times> bytes \<times> 's BufferedInputStream) option" where
  "Buffered_ReadLineLoop ops include_eol start_pos result b =
     (let full = (bis_pos b = bis_limit b);
          (s, b1) = (if full then Buffered_FillBuffer ops b else (OK, b));
          result1 = (if full then result @ buf_slice b start_pos else result);
          start1 = (if full then bis_pos b1 else start_pos)
      in if full \<and> bis_limit b1 = 0 then Some (s, False, result1, b1)
         else
           (let c = bis_buf b1 ! bis_pos b1;
                b2 = b1\<lparr>bis_pos := bis_pos b1 + 1\<rparr>
            in if c = 10
               then Some (OK, True,
                      result1 @ buf_slice b1 start1 @ (if include_eol then [c] else []), b2)
               else if c = 13
               then Buffered_ReadLineLoop ops include_eol (bis_pos b1 + 1)
                      (result1 @ buf_slice b1 start1) b2
               else Buffered_ReadLineLoop ops include_eol start1 result1 b2))"

definition Buffered_ReadLineHelper ::
  "'s InputStreamInterface \<Rightarrow> bool \<Rightarrow> 's BufferedInputStream \<Rightarrow>
   (status \<times> bytes \<times> 's BufferedInputStream) option" where
  "Buffered_ReadLineHelper ops include_eol b =
     (case Buffered_ReadLineLoop ops include_eol (bis_pos b) [] b of
        None \<Rightarrow> None
      | Some (s, found, result, b') \<Rightarrow>
          if found then Some (OK, result, b')
          else if IsOutOfRange s \<and> result \<noteq> [] then Some (OK, result, b')
          else Some (s, result, b'))"

definition Buffered_ReadLine ::
  "'s InputStreamInterface \<Rightarrow> 's BufferedInputStream \<Rightarrow>
   (status \<times> bytes \<times> 's BufferedInputStream) option" where
  "Buffered_ReadLine ops b = Buffered_ReadLineHelper ops False b"

definition Buffered_ReadLineAsString ::
  "'s InputStreamInterface \<Rightarrow> 's BufferedInputStream \<Rightarrow> (bytes \<times> 's BufferedInputStream) option" where
  "Buffered_ReadLineAsString ops b =
     map_option (\<lambda>(s, result, b'). (result, b')) (Buffered_ReadLineHelper ops True b)"

partial_function (option) Buffered_SkipLineLoop ::
  "'s InputStreamInterface \<Rightarrow> bool \<Rightarrow> 's BufferedInputStream \<Rightarrow>
   (status \<times> 's BufferedInputStream) option" where
  "Buffered_SkipLineLoop ops skipped b =
     (let full = (bis_pos b = bis_limit b);
          (s, b1) = (if full then Buffered_FillBuffer ops b else (OK, b))
      in if full \<and> bis_limit b1 = 0
         then Some (if IsOutOfRange s \<and> skipped then OK else s, b1)
         else
           (let c = bis_buf b1 ! bis_pos b1;
                b2 = b1\<lparr>bis_pos := bis_pos b1 + 1\<rparr>
            in if c = 10 then Some (OK, b2) else Buffered_SkipLineLoop ops True b2))"

definition Buffered_SkipLine ::
  "'s InputStreamInterface \<Rightarrow> 's BufferedInputStream \<Rightarrow> (status \<times> 's BufferedInputStream) option" where
  "Buffered_SkipLine ops b = Buffered_SkipLineLoop ops False b"

partial_function (option) Buffered_ReadAllLoop ::
  "'s InputStreamInterface \<Rightarrow> bytes \<Rightarrow> 's BufferedInputStream \<Rightarrow>
   (status \<times> bytes \<times> 's BufferedInputStream) option" where
  "Buffered_ReadAllLoop ops result b =
     (let (s, b1) = Buffered_FillBuffer ops b
      in if bis_limit b1 = 0 then Some (s, result, b1)
         else
           (let result1 = result @ bis_buf b1;
                b2 = b1\<lparr>bis_pos := bis_limit b1\<rparr>
            in if s = OK then Buffered_ReadAllLoop ops result1 b2 else Some (s, result1, b2)))"

definition Buffered_ReadAll ::
  "'s InputStreamInterface \<Rightarrow> 's BufferedInputStream \<Rightarrow>
   (status \<times> bytes \<times> 's BufferedInputStream) option" where
  "Buffered_ReadAll ops b =
     (case Buffered_ReadAllLoop ops [] b of
        None \<Rightarrow> None
      | Some (s, result, b') \<Rightarrow>
          if IsOutOfRange s then Some (OK, result, b'\<lparr>bis_file_status := s\<rparr>)
          else Some (s, result, b'))"

declare Buffered_ReadLineLoop.simps [code] Buffered_SkipLineLoop.simps [code]
  Buffered_ReadAllLoop.simps [code]

section \<open>BufferedInputStream keeps the contract of the stream below it\<close>

locale buffered_stream = under: input_stream ops contents inv at
  for ops :: "'s InputStreamInterface" and contents inv at
begin

text \<open>
  The first \<open>limit\<close> bytes of the buffer are the last ones the stream below delivered, and a
  remembered status is the end of the file.
\<close>

definition binv :: "'s BufferedInputStream \<Rightarrow> bool" where
  "binv b \<longleftrightarrow> inv (bis_input_stream b) \<and> 0 < bis_size b \<and> bis_pos b \<le> bis_limit b \<and>
     bis_limit b \<le> length (bis_buf b) \<and> bis_limit b \<le> at (bis_input_stream b) \<and>
     take (bis_limit b) (bis_buf b) =
       take (bis_limit b) (drop (at (bis_input_stream b) - bis_limit b) contents) \<and>
     (bis_file_status b = OK \<or>
      IsOutOfRange (bis_file_status b) \<and> at (bis_input_stream b) = length contents)"

definition bat :: "'s BufferedInputStream \<Rightarrow> nat" where
  "bat b = at (bis_input_stream b) - (bis_limit b - bis_pos b)"

lemma bat_le: "binv b \<Longrightarrow> bat b \<le> length contents"
  using under.at_le [of "bis_input_stream b"] by (auto simp: binv_def bat_def)

lemma binv_move:
  "binv b \<Longrightarrow> p \<le> bis_limit b \<Longrightarrow>
   binv (b\<lparr>bis_pos := p\<rparr>) \<and> bat (b\<lparr>bis_pos := p\<rparr>) = bat b + p - bis_pos b"
  by (auto simp: binv_def bat_def)

lemma buffer_slice:
  assumes "binv b" "k \<le> bis_limit b - bis_pos b"
  shows "take k (drop (bis_pos b) (bis_buf b)) = take k (drop (bat b) contents)"
proof -
  have "drop (bis_pos b) (take (bis_limit b) (bis_buf b)) =
      drop (bis_pos b) (take (bis_limit b) (drop (at (bis_input_stream b) - bis_limit b) contents))"
    using assms(1) by (simp add: binv_def)
  then have "take k (take (bis_limit b - bis_pos b) (drop (bis_pos b) (bis_buf b))) =
      take k (take (bis_limit b - bis_pos b) (drop (bat b) contents))"
    using assms(1) by (simp add: drop_take binv_def bat_def algebra_simps)
  with assms(2) show ?thesis by (simp add: min_absorb1)
qed

lemma buffer_head:
  assumes "binv b" "bis_pos b < bis_limit b"
  shows "drop (bat b) contents = (bis_buf b ! bis_pos b) # drop (Suc (bat b)) contents"
proof -
  have "bis_pos b < length (bis_buf b)" "bat b < length contents"
    using assms under.at_le [of "bis_input_stream b"] by (auto simp: binv_def bat_def)
  moreover from this have "bis_buf b ! bis_pos b = contents ! bat b"
    using buffer_slice [OF assms(1), of 1] assms(2) by (simp add: take_Suc_conv_app_nth hd_drop_conv_nth take_Suc)
  ultimately show ?thesis by (simp add: Cons_nth_drop_Suc)
qed

lemma Fill_spec:
  assumes b: "binv b" and full: "bis_pos b = bis_limit b" and fill: "Buffered_FillBuffer ops b = (s, b')"
  shows "binv b' \<and> bat b' = bat b \<and> bis_pos b' = 0 \<and> (bis_limit b' = 0 \<longleftrightarrow> bat b = length contents) \<and>
     (s = OK \<or> IsOutOfRange s \<and> at (bis_input_stream b') = length contents) \<and>
     (bis_limit b' = 0 \<longrightarrow> IsOutOfRange s) \<and> bis_size b' = bis_size b"
proof (cases "bis_file_status b = OK")
  case False
  with b full fill show ?thesis
    by (auto simp: Buffered_FillBuffer_def binv_def bat_def)
next
  case True
  obtain s1 buf u where r: "op_ReadNBytes ops (int (bis_size b)) (bis_buf b) (bis_input_stream b) = (s1, buf, u)"
    by (metis prod_cases3)
  from b have i: "inv (bis_input_stream b)" by (simp add: binv_def)
  have "buf = take (bis_size b) (drop (at (bis_input_stream b)) contents)" "inv u"
    "at u = at (bis_input_stream b) + length buf"
    "if length buf = bis_size b then s1 = OK else IsOutOfRange s1"
    using under.Read_at [OF i _ r] by simp_all
  with True b full fill under.at_le [OF i] show ?thesis
    by (auto simp: Buffered_FillBuffer_def r binv_def bat_def Let_def split: if_splits)
qed

lemma ReadLoop_spec:
  assumes "binv b" "s = OK \<or> IsOutOfRange s" "n < rounds + length result" "length result \<le> n"
    "Buffered_ReadLoop ops rounds n s result b = (s', result', b')"
  shows "result' = result @ take (n - length result) (drop (bat b) contents) \<and> binv b' \<and>
    bat b' = bat b + (length result' - length result) \<and> (s' = OK \<or> IsOutOfRange s') \<and>
    (length result' < n \<longrightarrow> IsOutOfRange s')"
  using assms
proof (induction rounds arbitrary: s result b)
  case 0
  then show ?case by simp
next
  case (Suc rounds)
  show ?case
  proof (cases "length result < n")
    case False
    with Suc.prems show ?thesis by simp
  next
    case more: True
    obtain s1 b1 where f: "(if bis_pos b = bis_limit b then Buffered_FillBuffer ops b else (s, b)) = (s1, b1)"
      by fastforce
    have b1: "binv b1" "bat b1 = bat b" "s1 = OK \<or> IsOutOfRange s1"
      and eof: "bis_pos b = bis_limit b \<and> bis_limit b1 = 0 \<Longrightarrow> bat b = length contents \<and> IsOutOfRange s1"
      and avail: "\<not> (bis_pos b = bis_limit b \<and> bis_limit b1 = 0) \<Longrightarrow> bis_pos b1 < bis_limit b1"
      using f Suc.prems(1,2) Fill_spec [OF Suc.prems(1)] by (auto simp: binv_def split: if_splits)
    show ?thesis
    proof (cases "bis_pos b = bis_limit b \<and> bis_limit b1 = 0")
      case True
      with eof have "bat b = length contents" "IsOutOfRange s1" by auto
      moreover from this b1 have "at (bis_input_stream b1) = length contents"
        using under.at_le [of "bis_input_stream b1"] by (auto simp: binv_def bat_def)
      moreover have "s' = s1" "result' = result" "b' = b1\<lparr>bis_file_status := s1\<rparr>"
        using Suc.prems(5) more f True by (auto split: prod.splits if_splits)
      ultimately show ?thesis using b1 by (simp add: binv_def bat_def)
    next
      case False
      define k where "k = min (bis_limit b1 - bis_pos b1) (n - length result)"
      define chunk where "chunk = take k (drop (bis_pos b1) (bis_buf b1))"
      define b2 where "b2 = b1\<lparr>bis_pos := bis_pos b1 + k\<rparr>"
      have k: "1 \<le> k" "k \<le> n - length result" "k \<le> bis_limit b1 - bis_pos b1"
        using avail [OF False] more by (auto simp: k_def)
      have chunk: "chunk = take k (drop (bat b) contents)"
        using buffer_slice [OF b1(1) k(3)] by (simp add: b1(2) chunk_def)
      have "bis_limit b1 \<le> length (bis_buf b1)" using b1 by (simp add: binv_def)
      then have len: "length chunk = k" using k(3) by (simp add: chunk_def)
      have "bis_pos b1 + k \<le> bis_limit b1" using k by linarith
      then have b2: "binv b2" "bat b2 = bat b + k"
        using binv_move [OF b1(1)] b1(2) by (auto simp: b2_def)
      have run: "Buffered_ReadLoop ops rounds n s1 (result @ chunk) b2 = (s', result', b')"
        using Suc.prems(5) more False f
        by (simp only: Buffered_ReadLoop.simps if_True if_False Let_def split k_def chunk_def b2_def)
      have "n < rounds + length (result @ chunk)" "length (result @ chunk) \<le> n"
        using Suc.prems(3,4) k len by auto
      note IH = Suc.IH [OF b2(1) b1(3) this run]
      have "take k (drop (bat b) contents) @ take (n - length result - k) (drop (bat b + k) contents) =
          take (n - length result) (drop (bat b) contents)"
        using k(2) by (metis add.commute drop_drop le_add_diff_inverse take_add)
      with IH have "result' = result @ take (n - length result) (drop (bat b) contents)"
        by (simp add: b2(2) len flip: chunk)
      moreover have "bat b' = bat b + (length result' - length result)"
        using IH len by (auto simp: b2(2))
      ultimately show ?thesis using IH by blast
    qed
  qed
qed

lemma ReadNBytes_spec:
  assumes b: "binv b" and n: "0 \<le> n" and read: "Buffered_ReadNBytes ops n r b = (st, data, b')"
  shows "data = take (nat n) (drop (bat b) contents) \<and> binv b' \<and> bat b' = bat b + length data \<and>
    (if length data = nat n then st = OK else IsOutOfRange st)"
proof (cases "bis_pos b = bis_limit b \<and> bis_file_status b \<noteq> OK \<and> 0 < n")
  case True
  with b have "bat b = length contents" "IsOutOfRange (bis_file_status b)"
    by (auto simp: binv_def bat_def)
  with True read b n show ?thesis by (auto simp: Buffered_ReadNBytes_def)
next
  case False
  obtain s result b1 where loop: "Buffered_ReadLoop ops (Suc (nat n)) (nat n) OK [] b = (s, result, b1)"
    by (metis prod_cases3)
  have "result = take (nat n) (drop (bat b) contents)" "binv b1" "bat b1 = bat b + length result"
    "s = OK \<or> IsOutOfRange s" "length result < nat n \<longrightarrow> IsOutOfRange s"
    using ReadLoop_spec [OF b _ _ _ loop] by simp_all
  moreover have "length result \<le> nat n" using calculation(1) by simp
  moreover have "st = (if IsOutOfRange s \<and> length result = nat n then OK else s)"
    "data = result" "b' = b1"
    using read n False loop by (auto simp: Buffered_ReadNBytes_def split: if_splits)
  ultimately show ?thesis by (auto simp: le_less)
qed

lemma SkipNBytes_spec:
  assumes b: "binv b" and n: "0 \<le> n" and skip: "Buffered_SkipNBytes ops n b = (st, b')"
  shows "binv b' \<and> bat b' = min (bat b + nat n) (length contents) \<and>
    (if bat b + nat n \<le> length contents then st = OK else IsOutOfRange st)"
proof (cases "int (bis_pos b) + n < int (bis_limit b)")
  case True
  with n skip have "st = OK" "b' = b\<lparr>bis_pos := bis_pos b + nat n\<rparr>"
    by (auto simp: Buffered_SkipNBytes_def)
  moreover have "bis_pos b + nat n \<le> bis_limit b" using True n by linarith
  ultimately show ?thesis
    using binv_move [OF b, of "bis_pos b + nat n"] bat_le by fastforce
next
  case False
  let ?m = "n - (int (bis_limit b) - int (bis_pos b))"
  obtain u where sk: "op_SkipNBytes ops ?m (bis_input_stream b) = (st, u)"
    and b': "b' = (let b1 = b\<lparr>bis_input_stream := u, bis_pos := 0, bis_limit := 0\<rparr>
                   in if IsOutOfRange st then b1\<lparr>bis_file_status := st\<rparr> else b1)"
    using skip n False by (auto simp: Buffered_SkipNBytes_def Let_def split: prod.splits)
  have i: "inv (bis_input_stream b)" and "0 \<le> ?m" using b n False by (auto simp: binv_def)
  note under.Skip_at [OF this sk]
  moreover have "at (bis_input_stream b) + nat ?m = bat b + nat n"
    using b n False by (auto simp: binv_def bat_def nat_diff_distrib)
  ultimately have "inv u" and at: "at u = min (bat b + nat n) (length contents)"
    "if bat b + nat n \<le> length contents then st = OK else IsOutOfRange st"
    by simp_all
  moreover have "at u = length contents" if "at (bis_input_stream b) = length contents"
    using that \<open>at (bis_input_stream b) + nat ?m = bat b + nat n\<close> at by simp
  ultimately have "binv b'"
    using b by (cases "IsOutOfRange st") (auto simp: b' binv_def Let_def split: if_splits)
  moreover have "bat b' = at u" by (simp add: b' bat_def Let_def)
  ultimately show ?thesis using at by simp
qed

lemma Reset_spec:
  assumes "binv b" "Buffered_Reset ops b = (st, b')"
  shows "st = OK \<and> binv b' \<and> bat b' = 0"
proof -
  obtain s u where r: "op_Reset ops (bis_input_stream b) = (s, u)" by fastforce
  with assms under.Reset_at [of "bis_input_stream b" s u] show ?thesis
    by (auto simp: Buffered_Reset_def binv_def bat_def split: if_splits)
qed

lemma Tell_spec: "binv b \<Longrightarrow> Buffered_Tell ops b = int (bat b)"
  by (auto simp: Buffered_Tell_def binv_def bat_def under.Tell_at)

lemma Seek_spec:
  assumes b: "binv b" and "0 \<le> position" and seek: "Buffered_Seek ops position b = (st, b')"
  shows "binv b' \<and> bat b' = min (nat position) (length contents) \<and>
    (if nat position \<le> length contents then st = OK else IsOutOfRange st)"
proof -
  have t: "op_Tell ops (bis_input_stream b) = int (at (bis_input_stream b))"
    using b by (simp add: binv_def under.Tell_at)
  consider (before) "position < int (at (bis_input_stream b)) - int (bis_limit b)"
    | (inside) "\<not> position < int (at (bis_input_stream b)) - int (bis_limit b)" "position < int (bat b)"
    | (after) "\<not> position < int (at (bis_input_stream b)) - int (bis_limit b)" "int (bat b) \<le> position"
    by linarith
  then show ?thesis
  proof cases
    case before
    obtain b1 where r: "Buffered_Reset ops b = (OK, b1)" "binv b1" "bat b1 = 0"
      using Reset_spec [OF b] by (metis surj_pair)
    with before seek \<open>0 \<le> position\<close> have "Buffered_SkipNBytes ops position b1 = (st, b')"
      by (simp add: Buffered_Seek_def t)
    from SkipNBytes_spec [OF r(2) \<open>0 \<le> position\<close> this] r(3) show ?thesis by simp
  next
    case inside
    let ?p = "nat (int (bis_pos b) - (int (bat b) - position))"
    have "?p \<le> bis_limit b" "bat b + ?p - bis_pos b = nat position"
      using inside b by (auto simp: binv_def bat_def)
    moreover have "st = OK" "b' = b\<lparr>bis_pos := ?p\<rparr>"
      using seek inside \<open>0 \<le> position\<close> by (simp_all add: Buffered_Seek_def t Tell_spec [OF b])
    moreover have "nat position \<le> length contents" using inside bat_le [OF b] by linarith
    ultimately show ?thesis using binv_move [OF b, of ?p] by simp
  next
    case after
    then have "Buffered_SkipNBytes ops (position - int (bat b)) b = (st, b')"
      using seek \<open>0 \<le> position\<close> by (simp add: Buffered_Seek_def t Tell_spec [OF b])
    from SkipNBytes_spec [OF b _ this] after show ?thesis by (simp add: nat_diff_distrib)
  qed
qed

end

text \<open>
  The line at a position ends before the first newline; carriage returns are dropped from it.
\<close>

definition line_at :: "bytes \<Rightarrow> bytes" where
  "line_at rest = takeWhile (\<lambda>c. c \<noteq> 10) rest"

definition line_result :: "bool \<Rightarrow> bytes \<Rightarrow> bytes" where
  "line_result eol rest =
     filter (\<lambda>c. c \<noteq> 13) (line_at rest) @ (if eol \<and> 10 \<in> set rest then [10] else [])"

definition line_end :: "bytes \<Rightarrow> nat" where
  "line_end rest = length (line_at rest) + (if 10 \<in> set rest then 1 else 0)"

context buffered_stream
begin

lemma buf_slice_Suc:
  assumes "binv b" "bis_pos b < bis_limit b" "start \<le> bis_pos b"
  shows "buf_slice (b\<lparr>bis_pos := bis_pos b + 1\<rparr>) start = buf_slice b start @ [bis_buf b ! bis_pos b]"
proof -
  have "bis_pos b < length (bis_buf b)" using assms by (simp add: binv_def)
  with assms(3) show ?thesis
    by (simp add: buf_slice_def Suc_diff_le take_Suc_conv_app_nth)
qed

lemma ReadLineLoop_spec:
  assumes "binv b" "start \<le> bis_pos b"
  shows "\<exists>s b'. Buffered_ReadLineLoop ops eol start result b =
      Some (s, 10 \<in> set (drop (bat b) contents),
            result @ buf_slice b start @ filter (\<lambda>c. c \<noteq> 13) (line_at (drop (bat b) contents)) @
              (if eol \<and> 10 \<in> set (drop (bat b) contents) then [10] else []), b') \<and>
      binv b' \<and> (10 \<notin> set (drop (bat b) contents) \<longrightarrow> IsOutOfRange s) \<and>
      bat b' = bat b + length (line_at (drop (bat b) contents)) +
        (if 10 \<in> set (drop (bat b) contents) then 1 else 0)"
  using assms
proof (induction "length contents - bat b" arbitrary: b start result rule: less_induct)
  case less
  let ?full = "bis_pos b = bis_limit b"
  obtain s b1 where f: "(if ?full then Buffered_FillBuffer ops b else (OK, b)) = (s, b1)" by fastforce
  define start1 where "start1 = (if ?full then bis_pos b1 else start)"
  define result1 where "result1 = (if ?full then result @ buf_slice b start else result)"
  have b1: "binv b1" "bat b1 = bat b"
    and eof: "?full \<and> bis_limit b1 = 0 \<Longrightarrow> bat b = length contents \<and> IsOutOfRange s"
    and avail: "\<not> (?full \<and> bis_limit b1 = 0) \<Longrightarrow> bis_pos b1 < bis_limit b1"
    using f less.prems(1) Fill_spec [OF less.prems(1)] by (auto simp: binv_def split: if_splits)
  have start1: "start1 \<le> bis_pos b1" "result1 @ buf_slice b1 start1 = result @ buf_slice b start"
    using f less.prems(2) by (auto simp: start1_def result1_def buf_slice_def split: if_splits)
  have unfold: "Buffered_ReadLineLoop ops eol start result b =
      (if ?full \<and> bis_limit b1 = 0 then Some (s, False, result1, b1)
       else (let c = bis_buf b1 ! bis_pos b1; b2 = b1\<lparr>bis_pos := bis_pos b1 + 1\<rparr>
             in if c = 10 then Some (OK, True, result1 @ buf_slice b1 start1 @ (if eol then [c] else []), b2)
                else if c = 13 then Buffered_ReadLineLoop ops eol (bis_pos b1 + 1) (result1 @ buf_slice b1 start1) b2
                else Buffered_ReadLineLoop ops eol start1 result1 b2))"
    by (subst Buffered_ReadLineLoop.simps) (simp only: f Let_def split start1_def result1_def)
  show ?case
  proof (cases "?full \<and> bis_limit b1 = 0")
    case True
    with eof b1 unfold show ?thesis by (simp add: line_at_def result1_def)
  next
    case False
    note unfold = unfold [unfolded if_not_P [OF False]]
    define b2 where "b2 = b1\<lparr>bis_pos := bis_pos b1 + 1\<rparr>"
    let ?c = "bis_buf b1 ! bis_pos b1"
    have hd: "drop (bat b) contents = ?c # drop (Suc (bat b)) contents"
      using buffer_head [OF b1(1) avail [OF False]] b1(2) by simp
    have b2: "binv b2" "bat b2 = Suc (bat b)"
      using binv_move [OF b1(1), of "bis_pos b1 + 1"] avail [OF False] b1(2) by (auto simp: b2_def)
    have dec: "length contents - bat b2 < length contents - bat b"
      using hd b2(2) by (metis diff_less_mono2 drop_eq_Nil lessI list.discI not_le)
    have sl: "buf_slice b2 start1 = buf_slice b1 start1 @ [?c]" "buf_slice b2 (bis_pos b1 + 1) = []"
      using buf_slice_Suc [OF b1(1) avail [OF False] start1(1)] by (simp_all add: buf_slice_def b2_def)
    have pre: "start1 \<le> bis_pos b2" "bis_pos b1 + 1 \<le> bis_pos b2" using start1(1) by (simp_all add: b2_def)
    note IH = less.hyps [OF dec b2(1) pre(1), of result1]
      less.hyps [OF dec b2(1) pre(2), of "result1 @ buf_slice b1 start1"]
    consider (nl) "?c = 10" | (cr) "?c = 13" | (other) "?c \<noteq> 10" "?c \<noteq> 13" by blast
    then show ?thesis
    proof cases
      case nl
      with b2 start1(2) show ?thesis
        by (simp add: unfold hd line_at_def Let_def b2_def flip: append_assoc)
    next
      case cr
      then have "Buffered_ReadLineLoop ops eol start result b =
          Buffered_ReadLineLoop ops eol (bis_pos b1 + 1) (result1 @ buf_slice b1 start1) b2"
        by (simp add: unfold Let_def b2_def)
      with IH(2) cr show ?thesis
        by (simp add: hd line_at_def sl(2) [simplified] b2(2) start1(2) flip: append_assoc)
    next
      case other
      then have "Buffered_ReadLineLoop ops eol start result b =
          Buffered_ReadLineLoop ops eol start1 result1 b2"
        by (simp add: unfold Let_def b2_def)
      moreover have "result1 @ buf_slice b2 start1 = result @ buf_slice b start @ [?c]"
        by (simp add: sl(1) start1(2) flip: append_assoc)
      ultimately show ?thesis
        using IH(1) other by (simp add: hd line_at_def b2(2) flip: append_assoc) auto
    qed
  qed
qed

lemma ReadLineHelper_spec:
  assumes "binv b" and "drop (bat b) contents = rest"
  shows "\<exists>st b'. Buffered_ReadLineHelper ops eol b = Some (st, line_result eol rest, b') \<and>
    binv b' \<and> bat b' = bat b + line_end rest \<and>
    (if 10 \<in> set rest \<or> line_result eol rest \<noteq> [] then st = OK else IsOutOfRange st)"
proof -
  have empty: "buf_slice b (bis_pos b) = []" by (simp add: buf_slice_def)
  from ReadLineLoop_spec [OF assms(1), of "bis_pos b" eol "[]"] show ?thesis
    by (cases "line_result eol rest = []")
      (auto simp: Buffered_ReadLineHelper_def empty assms(2) line_end_def simp flip: line_result_def)
qed

lemma SkipLineLoop_spec:
  assumes "binv b"
  shows "\<exists>st b'. Buffered_SkipLineLoop ops skipped b = Some (st, b') \<and> binv b' \<and>
      bat b' = bat b + line_end (drop (bat b) contents) \<and>
      (if skipped \<or> drop (bat b) contents \<noteq> [] then st = OK else IsOutOfRange st)"
  using assms
proof (induction "length contents - bat b" arbitrary: b skipped rule: less_induct)
  case less
  let ?full = "bis_pos b = bis_limit b"
  obtain s b1 where f: "(if ?full then Buffered_FillBuffer ops b else (OK, b)) = (s, b1)" by fastforce
  have b1: "binv b1" "bat b1 = bat b"
    and eof: "?full \<and> bis_limit b1 = 0 \<Longrightarrow> bat b = length contents \<and> IsOutOfRange s"
    and avail: "\<not> (?full \<and> bis_limit b1 = 0) \<Longrightarrow> bis_pos b1 < bis_limit b1"
    using f less.prems(1) Fill_spec [OF less.prems(1)] by (auto simp: binv_def split: if_splits)
  have unfold: "Buffered_SkipLineLoop ops skipped b =
      (if ?full \<and> bis_limit b1 = 0 then Some (if IsOutOfRange s \<and> skipped then OK else s, b1)
       else (let c = bis_buf b1 ! bis_pos b1; b2 = b1\<lparr>bis_pos := bis_pos b1 + 1\<rparr>
             in if c = 10 then Some (OK, b2) else Buffered_SkipLineLoop ops True b2))"
    by (subst Buffered_SkipLineLoop.simps) (simp only: f Let_def split)
  show ?case
  proof (cases "?full \<and> bis_limit b1 = 0")
    case True
    with eof b1 unfold show ?thesis by (simp add: line_at_def line_end_def)
  next
    case False
    note unfold = unfold [unfolded if_not_P [OF False]]
    let ?b2 = "b1\<lparr>bis_pos := bis_pos b1 + 1\<rparr>"
    have hd: "drop (bat b) contents = (bis_buf b1 ! bis_pos b1) # drop (Suc (bat b)) contents"
      using buffer_head [OF b1(1) avail [OF False]] b1(2) by simp
    have b2: "binv ?b2" "bat ?b2 = Suc (bat b)"
      using binv_move [OF b1(1), of "bis_pos b1 + 1"] avail [OF False] b1(2) by auto
    have dec: "length contents - bat ?b2 < length contents - bat b"
      using hd b2(2) by (metis diff_less_mono2 drop_eq_Nil lessI list.discI not_le)
    from less.hyps [OF dec b2(1), of True] show ?thesis
      using b2 by (auto simp: unfold hd line_at_def line_end_def Let_def)
  qed
qed

lemma ReadAllLoop_spec:
  assumes "binv b" "bis_pos b = bis_limit b"
  shows "\<exists>st b'. Buffered_ReadAllLoop ops result b =
      Some (st, result @ drop (at (bis_input_stream b)) contents, b') \<and>
      IsOutOfRange st \<and> binv b' \<and> bat b' = length contents"
  using assms
proof (induction "length contents - at (bis_input_stream b)" arbitrary: b result rule: less_induct)
  case less
  obtain s b1 where f: "Buffered_FillBuffer ops b = (s, b1)" by fastforce
  have bat: "bat b = at (bis_input_stream b)" using less.prems(2) by (simp add: bat_def)
  note F = Fill_spec [OF less.prems f]
  have unfold: "Buffered_ReadAllLoop ops result b =
      (if bis_limit b1 = 0 then Some (s, result, b1)
       else (let result1 = result @ bis_buf b1; b2 = b1\<lparr>bis_pos := bis_limit b1\<rparr>
            in if s = OK then Buffered_ReadAllLoop ops result1 b2 else Some (s, result1, b2)))"
    by (subst Buffered_ReadAllLoop.simps) (simp only: f Let_def split)
  show ?case
  proof (cases "bis_limit b1 = 0")
    case True
    with F bat unfold show ?thesis by simp
  next
    case False
    let ?b2 = "b1\<lparr>bis_pos := bis_limit b1\<rparr>"
    have whole: "bis_limit b1 = length (bis_buf b1)"
      using f False by (auto simp: Buffered_FillBuffer_def Let_def split: if_splits prod.splits)
    have at1: "at (bis_input_stream b1) = bat b + bis_limit b1" and b1: "binv b1" "bis_pos b1 = 0"
      using F by (auto simp: binv_def bat_def)
    have slice: "bis_buf b1 = take (bis_limit b1) (drop (bat b) contents)"
      using buffer_slice [OF b1(1), of "bis_limit b1"] F by (simp add: whole)
    have b2: "binv ?b2" "bat ?b2 = bat b + bis_limit b1"
      using binv_move [OF b1(1), of "bis_limit b1"] F by simp_all
    have all: "bis_buf b1 @ drop (at (bis_input_stream b1)) contents = drop (bat b) contents"
      using append_take_drop_id [of "bis_limit b1" "drop (bat b) contents"]
      by (simp add: at1 add.commute flip: slice)
    show ?thesis
    proof (cases "s = OK")
      case True
      have "length contents - at (bis_input_stream ?b2) < length contents - at (bis_input_stream b)"
        using at1 bat False under.at_le [of "bis_input_stream b1"] b1 by (simp add: binv_def)
      from less.hyps [OF this b2(1), of "result @ bis_buf b1"] show ?thesis
        using False True all bat by (simp add: unfold Let_def)
    next
      case err: False
      with F have "IsOutOfRange s" "at (bis_input_stream b1) = length contents" by auto
      with err False all bat b2 at1 show ?thesis by (auto simp: unfold Let_def)
    qed
  qed
qed

lemma ReadAll_spec:
  assumes "binv b"
  shows "\<exists>b'. Buffered_ReadAll ops b = Some (OK, drop (at (bis_input_stream b)) contents, b') \<and>
      binv b' \<and> bat b' = length contents"
proof -
  let ?b = "b\<lparr>bis_pos := bis_limit b\<rparr>"
  have "Buffered_FillBuffer ops b = Buffered_FillBuffer ops ?b"
    by (simp add: Buffered_FillBuffer_def Let_def)
  then have "Buffered_ReadAllLoop ops [] b = Buffered_ReadAllLoop ops [] ?b"
    by (subst (1 2) Buffered_ReadAllLoop.simps) simp
  moreover have "binv ?b" using binv_move [OF assms, of "bis_limit b"] by simp
  moreover obtain st b' where "Buffered_ReadAllLoop ops [] ?b =
      Some (st, drop (at (bis_input_stream b)) contents, b')" "IsOutOfRange st" "binv b'"
      "bat b' = length contents"
    using ReadAllLoop_spec [OF \<open>binv ?b\<close>, of "[]"] by auto
  moreover from this(3,4) have "at (bis_input_stream b') = length contents"
    using under.at_le [of "bis_input_stream b'"] by (auto simp: binv_def bat_def)
  ultimately show ?thesis by (simp add: Buffered_ReadAll_def binv_def bat_def)
qed

end

sublocale buffered_stream \<subseteq> buf: input_stream "buffered_ops ops" contents binv bat
proof unfold_locales
  fix s n r st data s'
  show "binv s \<Longrightarrow> bat s \<le> length contents" by (rule bat_le)
  show "binv s \<Longrightarrow> op_Tell (buffered_ops ops) s = int (bat s)"
    by (simp add: buffered_ops_def Tell_spec)
  show "binv s \<Longrightarrow> op_Reset (buffered_ops ops) s = (st, s') \<Longrightarrow> st = OK \<and> binv s' \<and> bat s' = 0"
    by (rule Reset_spec) (simp_all add: buffered_ops_def)
  show "binv s \<Longrightarrow> 0 \<le> n \<Longrightarrow> op_ReadNBytes (buffered_ops ops) n r s = (st, data, s') \<Longrightarrow>
      data = take (nat n) (drop (bat s) contents) \<and> binv s' \<and> bat s' = bat s + length data \<and>
      (if length data = nat n then st = OK else IsOutOfRange st)"
    by (rule ReadNBytes_spec) (simp_all add: buffered_ops_def)
  show "binv s \<Longrightarrow> 0 \<le> n \<Longrightarrow> op_SkipNBytes (buffered_ops ops) n s = (st, s') \<Longrightarrow>
      binv s' \<and> bat s' = min (bat s + nat n) (length contents) \<and>
      (if bat s + nat n \<le> length contents then st = OK else IsOutOfRange st)"
    by (rule SkipNBytes_spec) (simp_all add: buffered_ops_def)
qed (simp_all add: buffered_ops_def Buffered_ReadNBytes_def Buffered_SkipNBytes_def)

section \<open>Sequences of calls on a buffered stream\<close>

text \<open>
  All public operations but \<^verbatim>\<open>ReadAll\<close> in any order, and what a client observes of them: the
  status code, the string that the reads overwrite, and the position after the call.
  \<^verbatim>\<open>ReadLineAsString\<close> ignores the status. The loops return \<open>None\<close> if they do not end.
\<close>

datatype buffered_call =
    StreamCall stream_call
  | SeekCall int
  | ReadLineCall
  | ReadLineAsStringCall
  | SkipLineCall

fun buffered_step ::
  "'s InputStreamInterface \<Rightarrow> buffered_call \<Rightarrow> bytes \<Rightarrow> 's BufferedInputStream \<Rightarrow>
   (status \<times> bytes \<times> 's BufferedInputStream) option" where
  "buffered_step ops (StreamCall c) r b = Some (stream_step (buffered_ops ops) c r b)"
| "buffered_step ops (SeekCall n) r b = (let (s, b') = Buffered_Seek ops n b in Some (s, r, b'))"
| "buffered_step ops ReadLineCall r b = Buffered_ReadLine ops b"
| "buffered_step ops ReadLineAsStringCall r b =
     map_option (\<lambda>(result, b'). (OK, result, b')) (Buffered_ReadLineAsString ops b)"
| "buffered_step ops SkipLineCall r b = map_option (\<lambda>(s, b'). (s, r, b')) (Buffered_SkipLine ops b)"

fun buffered_run ::
  "'s InputStreamInterface \<Rightarrow> buffered_call list \<Rightarrow> bytes \<Rightarrow> 's BufferedInputStream \<Rightarrow>
   (status \<times> bytes \<times> int) list option" where
  "buffered_run ops [] r b = Some []"
| "buffered_run ops (c # cs) r b =
     (case buffered_step ops c r b of
        None \<Rightarrow> None
      | Some (st, r', b') \<Rightarrow>
          map_option (\<lambda>rest. (error_code st, r', Buffered_Tell ops b') # rest)
            (buffered_run ops cs r' b'))"

text \<open>
  The specification is a position in the contents. The line at a position ends before the first
  newline; carriage returns are dropped from it.
\<close>

fun buffered_spec_step :: "bytes \<Rightarrow> buffered_call \<Rightarrow> bytes \<Rightarrow> nat \<Rightarrow> status \<times> bytes \<times> nat" where
  "buffered_spec_step contents (StreamCall c) r p = spec_step contents c r p"
| "buffered_spec_step contents (SeekCall n) r p =
     (if n < 0 then (Some (InvalidArgument []), r, p)
      else if nat n \<le> length contents then (OK, r, nat n)
      else (Some (OutOfRange []), r, length contents))"
| "buffered_spec_step contents ReadLineCall r p =
     (let rest = drop p contents; line = line_result False rest
      in (if 10 \<in> set rest \<or> line \<noteq> [] then OK else Some (OutOfRange []), line, p + line_end rest))"
| "buffered_spec_step contents ReadLineAsStringCall r p =
     (let rest = drop p contents in (OK, line_result True rest, p + line_end rest))"
| "buffered_spec_step contents SkipLineCall r p =
     (let rest = drop p contents
      in (if rest \<noteq> [] then OK else Some (OutOfRange []), r, p + line_end rest))"

fun buffered_spec_run ::
  "bytes \<Rightarrow> buffered_call list \<Rightarrow> bytes \<Rightarrow> nat \<Rightarrow> (status \<times> bytes \<times> int) list" where
  "buffered_spec_run contents [] r p = []"
| "buffered_spec_run contents (c # cs) r p =
     (let (st, r', p') = buffered_spec_step contents c r p
      in (st, r', int p') # buffered_spec_run contents cs r' p')"

context buffered_stream
begin

lemma buffered_step_spec:
  assumes b: "binv b"
  shows "\<exists>st r' b'. buffered_step ops c r b = Some (st, r', b') \<and> binv b' \<and>
    buffered_spec_step contents c r (bat b) = (error_code st, r', bat b')"
proof (cases c)
  case (StreamCall c')
  obtain st r' b' where "stream_step (buffered_ops ops) c' r b = (st, r', b')" by (metis prod_cases3)
  then show ?thesis using StreamCall buf.stream_step_spec [OF b] by simp
next
  case (SeekCall n)
  obtain st b' where s: "Buffered_Seek ops n b = (st, b')" by fastforce
  show ?thesis
  proof (cases "n < 0")
    case True
    then show ?thesis using SeekCall b by (simp add: Buffered_Seek_def)
  next
    case False
    then show ?thesis using SeekCall s Seek_spec [OF b _ s] by auto
  qed
next
  case ReadLineCall
  then show ?thesis using ReadLineHelper_spec [OF b refl, of False]
    by (auto simp: Buffered_ReadLine_def Let_def split: if_splits)
next
  case ReadLineAsStringCall
  then show ?thesis using ReadLineHelper_spec [OF b refl, of True]
    by (auto simp: Buffered_ReadLineAsString_def Let_def)
next
  case SkipLineCall
  then show ?thesis using SkipLineLoop_spec [OF b, of False]
    by (auto simp: Buffered_SkipLine_def Let_def split: if_splits)
qed

lemma buffered_run_spec: "binv b \<Longrightarrow> buffered_run ops cs r b = Some (buffered_spec_run contents cs r (bat b))"
proof (induction cs arbitrary: r b)
  case (Cons c cs)
  obtain st r' b' where "buffered_step ops c r b = Some (st, r', b')" "binv b'"
      "buffered_spec_step contents c r (bat b) = (error_code st, r', bat b')"
    using buffered_step_spec [OF Cons.prems] by blast
  then show ?case using Cons.IH [of b' r'] by (simp add: Tell_spec)
qed simp

end

interpretation buffered_file: buffered_stream random_access_ops contents "ras_inv contents" ras_at
  for contents ..

abbreviation file_binv :: "bytes \<Rightarrow> RandomAccessInputStream BufferedInputStream \<Rightarrow> bool" where
  "file_binv contents \<equiv> buffered_stream.binv contents (ras_inv contents) ras_at"

abbreviation file_bat :: "RandomAccessInputStream BufferedInputStream \<Rightarrow> nat" where
  "file_bat \<equiv> buffered_stream.bat ras_at"

lemma buffered_file_new:
  "0 < buffer_size \<Longrightarrow>
   file_binv contents (BufferedInputStream_new \<lparr>ras_file = contents, ras_pos = 0\<rparr> buffer_size) \<and>
   file_bat (BufferedInputStream_new \<lparr>ras_file = contents, ras_pos = 0\<rparr> buffer_size) = 0"
  by (simp add: buffered_file.binv_def buffered_file.bat_def BufferedInputStream_new_def
      ras_inv_def ras_at_def)

text \<open>
  \<^verbatim>\<open>ReadAll\<close> refills the buffer without delivering what is left in it: after a read of one byte
  from a file of six through a buffer of four, it returns the last two.
\<close>

lemma ReadAll_drops_buffered_bytes:
  "map_option (\<lambda>(st, result, b). (st, result)) (Buffered_ReadAll random_access_ops
     (snd (snd (Buffered_ReadNBytes random_access_ops 1 []
       (BufferedInputStream_new \<lparr>ras_file = [1, 2, 3, 4, 5, 6], ras_pos = 0\<rparr> 4))))) =
   Some (OK, [5, 6])"
  by code_simp

section \<open>Properties\<close>

text \<open>C14: buffering is transparent. Whatever reads, skips, position queries and resets a client
  makes on a buffered stream over a file, with a buffer of any non-zero size, it sees the status
  codes, bytes and positions of a cursor that starts at the beginning of the contents, and so
  does a client of the unbuffered stream.\<close>

theorem buffering_transparent:
  assumes "0 < buffer_size"
  shows "stream_run (buffered_ops random_access_ops) calls r
      (BufferedInputStream_new \<lparr>ras_file = contents, ras_pos = 0\<rparr> buffer_size) =
      spec_run contents calls r 0 \<and>
    stream_run random_access_ops calls r \<lparr>ras_file = contents, ras_pos = 0\<rparr> =
      spec_run contents calls r 0"
  using buffered_file_new [OF assms, of contents]
    buffered_file.buf.stream_run_spec [of contents _ calls r]
    random_access.stream_run_spec [of contents "\<lparr>ras_file = contents, ras_pos = 0\<rparr>" calls r]
  by (simp add: ras_inv_def ras_at_def)

theorem buffering_transparent_witness:
  "stream_run (buffered_ops random_access_ops)
      [ReadCall 2, SkipCall 1, ReadCall 9, TellCall, ResetCall, ReadCall 1] []
      (BufferedInputStream_new \<lparr>ras_file = [1, 2, 3, 4, 5], ras_pos = 0\<rparr> 2) =
    [(OK, [1, 2], 2), (OK, [1, 2], 3), (Some (OutOfRange []), [4, 5], 5), (OK, [4, 5], 5),
     (OK, [4, 5], 0), (OK, [1], 1)]"
proof -
  have "spec_run [1, 2, 3, 4, 5]
      [ReadCall 2, SkipCall 1, ReadCall 9, TellCall, ResetCall, ReadCall 1] [] 0 =
    [(OK, [1, 2], 2), (OK, [1, 2], 3), (Some (OutOfRange []), [4, 5], 5), (OK, [4, 5], 5),
     (OK, [4, 5], 0), (OK, [1], 1)]"
    by code_simp
  then show ?thesis
    using buffering_transparent [of 2
        "[ReadCall 2, SkipCall 1, ReadCall 9, TellCall, ResetCall, ReadCall 1]" "[]" "[1, 2, 3, 4, 5]"]
    by (simp only: zero_less_numeral simp_thms)
qed



end
