(* ===== verification/RecordIO.thy ===== *)
theory RecordIO
  imports Crc32c BufferedInputStream
begin

unbundle bit_operations_syntax

text \<open>
  TFRecord files: \<^verbatim>\<open>core/lib/io/record_writer.cc\<close> over a writable file and
  \<^verbatim>\<open>core/lib/io/record_reader.cc\<close> over any input stream. A record is its length, the masked
  checksum of the length, the data and the masked checksum of the data.

  Checksums are those of the table-driven routine at address 0; by the equivalence of the
  checksum routines neither the address nor the processor matters.
\<close>

section \<open>Writable files\<close>

record 'f WritableFile =
  op_Append :: "bytes \<Rightarrow> 'f \<Rightarrow> status \<times> 'f"
  op_Flush :: "'f \<Rightarrow> status \<times> 'f"
  op_Close :: "'f \<Rightarrow> status \<times> 'f"

text \<open>
  A file of the POSIX file system: what has been written, how much \<^verbatim>\<open>fwrite\<close> will still accept
  before it returns a short count, whether the file is open, and whether \<^verbatim>\<open>fflush\<close> and \<^verbatim>\<open>fclose\<close>
  will succeed. The bytes that \<^verbatim>\<open>fwrite\<close> accepted count as written, in the buffer of the standard
  library or on the disk; a short count stands for every way a write can be cut off.
\<close>

record PosixWritableFile =
  pwf_data :: bytes
  pwf_room :: nat
  pwf_open :: bool
  pwf_fflush_ok :: bool
  pwf_fclose_ok :: bool

definition Posix_Append :: "bytes \<Rightarrow> PosixWritableFile \<Rightarrow> status \<times> PosixWritableFile" where
  "Posix_Append data f =
     (if \<not> pwf_open f then (Some MemFault, f)
      else
        (let r = min (length data) (pwf_room f);
             f' = f\<lparr>pwf_data := pwf_data f @ take r data, pwf_room := pwf_room f - r\<rparr>
         in if r \<noteq> length data then (Some (IOError ''fwrite''), f') else (OK, f')))"

definition Posix_Flush :: "PosixWritableFile \<Rightarrow> status \<times> PosixWritableFile" where
  "Posix_Flush f = (if pwf_fflush_ok f then OK else Some (IOError ''fflush''), f)"

definition Posix_Close :: "PosixWritableFile \<Rightarrow> status \<times> PosixWritableFile" where
  "Posix_Close f =
     (if \<not> pwf_open f then (Some (IOError ''EBADF''), f)
      else (if pwf_fclose_ok f then OK else Some (IOError ''fclose''), f\<lparr>pwf_open := False\<rparr>))"

definition posix_ops :: "PosixWritableFile WritableFile" where
  "posix_ops = \<lparr>op_Append = Posix_Append, op_Flush = Posix_Flush, op_Close = Posix_Close\<rparr>"

section \<open>RecordWriter\<close>

datatype CompressionType = NONE | ZLIB_COMPRESSION | SNAPPY_COMPRESSION

definition IsZlibCompressed :: "CompressionType \<Rightarrow> bool" where
  "IsZlibCompressed t \<longleftrightarrow> t = ZLIB_COMPRESSION"

definition IsSnappyCompressed :: "CompressionType \<Rightarrow> bool" where
  "IsSnappyCompressed t \<longleftrightarrow> t = SNAPPY_COMPRESSION"

record 'f RecordWriter =
  rw_dest :: "'f option"
  rw_compression_type :: CompressionType

definition kHeaderSize :: u64 where
  "kHeaderSize = 8 + 4"

definition kFooterSize :: u64 where
  "kFooterSize = 4"

definition MaskedCrc :: "bytes \<Rightarrow> u32" where
  "MaskedCrc data = Mask (Value None 0 data)"

definition PopulateHeader :: "u64 \<Rightarrow> bytes" where
  "PopulateHeader n =
     (let len = EncodeFixed64 kLittleEndian n
      in len @ EncodeFixed32 kLittleEndian (MaskedCrc len))"

definition PopulateFooter :: "bytes \<Rightarrow> bytes" where
  "PopulateFooter data = EncodeFixed32 kLittleEndian (MaskedCrc data)"

definition WriteRecord ::
  "'f WritableFile \<Rightarrow> bytes \<Rightarrow> 'f RecordWriter \<Rightarrow> status \<times> 'f RecordWriter" where
  "WriteRecord ops data w =
     (case rw_dest w of
        None \<Rightarrow> (Some (FailedPrecondition ''Writer not initialized or previously closed''), w)
      | Some f \<Rightarrow>
          (let header = PopulateHeader (of_nat (length data));
               footer = PopulateFooter data;
               (s1, f1) = op_Append ops header f
           in if s1 \<noteq> OK then (s1, w\<lparr>rw_dest := Some f1\<rparr>)
              else
                (let (s2, f2) = op_Append ops data f1
                 in if s2 \<noteq> OK then (s2, w\<lparr>rw_dest := Some f2\<rparr>)
                    else
                      (let (s3, f3) = op_Append ops footer f2
                       in (s3, w\<lparr>rw_dest := Some f3\<rparr>)))))"

definition RecordWriter_Close :: "'f WritableFile \<Rightarrow> 'f RecordWriter \<Rightarrow> status \<times> 'f RecordWriter" where
  "RecordWriter_Close ops w =
     (case rw_dest w of
        None \<Rightarrow> (OK, w)
      | Some f \<Rightarrow>
          if IsZlibCompressed (rw_compression_type w) \<or> IsSnappyCompressed (rw_compression_type w)
          then (let (s, f') = op_Close ops f in (s, w\<lparr>rw_dest := None\<rparr>))
          else (OK, w))"

definition RecordWriter_Flush :: "'f WritableFile \<Rightarrow> 'f RecordWriter \<Rightarrow> status \<times> 'f RecordWriter" where
  "RecordWriter_Flush ops w =
     (case rw_dest w of
        None \<Rightarrow> (Some (FailedPrecondition ''Writer not initialized or previously closed''), w)
      | Some f \<Rightarrow> (let (s, f') = op_Flush ops f in (s, w\<lparr>rw_dest := Some f'\<rparr>)))"

section \<open>RecordReader\<close>

record Stats =
  stats_file_size :: int
  stats_data_size :: int
  stats_entries :: int

record 's RecordReader =
  rr_input_stream :: 's
  rr_last_read_failed :: bool
  rr_cached_metadata :: "Stats option"

definition RecordReader_new :: "'s \<Rightarrow> 's RecordReader" where
  "RecordReader_new s =
     \<lparr>rr_input_stream = s, rr_last_read_failed = False, rr_cached_metadata = None\<rparr>"

definition SIZE_MAX :: u64 where
  "SIZE_MAX = - 1"

text \<open>
  \<^verbatim>\<open>size_t\<close> values become \<^verbatim>\<open>int64\<close> arguments of the stream by reading them as signed. A
  checksum read past the end of the buffer would be a memory fault.
\<close>

definition ReadChecksummed ::
  "'s InputStreamInterface \<Rightarrow> u64 \<Rightarrow> bytes \<Rightarrow> 's \<Rightarrow> status \<times> bytes \<times> 's" where
  "ReadChecksummed ops n result st =
     (if n \<ge> SIZE_MAX - 4 then (Some (DataLoss ''record size too large''), result, st)
      else
        (let expected = n + 4;
             (s, result', st') = op_ReadNBytes ops (sint expected) result st
         in if s \<noteq> OK then (s, result', st')
            else if of_nat (length result') \<noteq> expected then
              (if result' = [] then (Some (OutOfRange ''eof''), result', st')
               else (Some (DataLoss ''truncated record at ''), result', st'))
            else
              (case DecodeFixed32 kLittleEndian (drop (unat n) result') of
                 None \<Rightarrow> (Some MemFault, result', st')
               | Some masked_crc \<Rightarrow>
                   if Unmask masked_crc \<noteq> Value None 0 (take (unat n) result')
                   then (Some (DataLoss ''corrupted record at ''), result', st')
                   else (OK, take (unat n) result', st'))))"

definition PositionInputStream ::
  "'s InputStreamInterface \<Rightarrow> u64 \<Rightarrow> 's RecordReader \<Rightarrow> status \<times> 's RecordReader" where
  "PositionInputStream ops offset rr =
     (let curr_pos = op_Tell ops (rr_input_stream rr);
          desired_pos = sint offset
      in if curr_pos > desired_pos \<or> curr_pos < 0 \<or>
            (curr_pos = desired_pos \<and> rr_last_read_failed rr)
         then
           (let rr1 = rr\<lparr>rr_last_read_failed := False\<rparr>;
                (s, st) = op_Reset ops (rr_input_stream rr1);
                rr2 = rr1\<lparr>rr_input_stream := st\<rparr>
            in if s \<noteq> OK then (s, rr2)
               else (let (s', st') = op_SkipNBytes ops desired_pos st
                     in (s', rr2\<lparr>rr_input_stream := st'\<rparr>)))
         else if curr_pos < desired_pos then
           (let (s, st) = op_SkipNBytes ops (desired_pos - curr_pos) (rr_input_stream rr)
            in (s, rr\<lparr>rr_input_stream := st\<rparr>))
         else (OK, rr))"

definition ReadRecord ::
  "'s InputStreamInterface \<Rightarrow> u64 \<Rightarrow> bytes \<Rightarrow> 's RecordReader \<Rightarrow>
   status \<times> u64 \<times> bytes \<times> 's RecordReader" where
  "ReadRecord ops offset record rr =
     (let (s0, rr0) = PositionInputStream ops offset rr
      in if s0 \<noteq> OK then (s0, offset, record, rr0)
         else
           (let (s1, record1, st1) = ReadChecksummed ops 8 record (rr_input_stream rr0);
                rr1 = rr0\<lparr>rr_input_stream := st1\<rparr>
            in if s1 \<noteq> OK then (s1, offset, record1, rr1\<lparr>rr_last_read_failed := True\<rparr>)
               else
                 (case DecodeFixed64 kLittleEndian record1 of
                    None \<Rightarrow> (Some MemFault, offset, record1, rr1)
                  | Some len \<Rightarrow>
                      (let (s2, record2, st2) = ReadChecksummed ops len record1 st1;
                           rr2 = rr1\<lparr>rr_input_stream := st2\<rparr>
                       in if s2 \<noteq> OK then
                            (if IsOutOfRange s2 then Some (DataLoss ''truncated record at '') else s2,
                             offset, record2, rr2\<lparr>rr_last_read_failed := True\<rparr>)
                          else (OK, offset + (kHeaderSize + len + kFooterSize), record2, rr2)))))"

fun SkipRecordsLoop ::
  "'s InputStreamInterface \<Rightarrow> nat \<Rightarrow> u64 \<Rightarrow> int \<Rightarrow> bytes \<Rightarrow> 's RecordReader \<Rightarrow>
   status \<times> u64 \<times> int \<times> 's RecordReader" where
  "SkipRecordsLoop ops 0 offset num_skipped record rr = (OK, offset, num_skipped, rr)"
| "SkipRecordsLoop ops (Suc n) offset num_skipped record rr =
     (let (s1, record1, st1) = ReadChecksummed ops 8 record (rr_input_stream rr);
          rr1 = rr\<lparr>rr_input_stream := st1\<rparr>
      in if s1 \<noteq> OK then (s1, offset, num_skipped, rr1\<lparr>rr_last_read_failed := True\<rparr>)
         else
           (case DecodeFixed64 kLittleEndian record1 of
              None \<Rightarrow> (Some MemFault, offset, num_skipped, rr1)
            | Some len \<Rightarrow>
                (let (s2, st2) = op_SkipNBytes ops (sint (len + kFooterSize)) st1;
                     rr2 = rr1\<lparr>rr_input_stream := st2\<rparr>
                 in if s2 \<noteq> OK then
                      (if IsOutOfRange s2 then Some (DataLoss ''truncated record at '') else s2,
                       offset, num_skipped, rr2\<lparr>rr_last_read_failed := True\<rparr>)
                    else SkipRecordsLoop ops n (offset + (kHeaderSize + len + kFooterSize))
                           (num_skipped + 1) record1 rr2)))"

text \<open>\<^verbatim>\<open>*num_skipped\<close> is written only once the stream has been positioned.\<close>

definition SkipRecords ::
  "'s InputStreamInterface \<Rightarrow> u64 \<Rightarrow> int \<Rightarrow> int \<Rightarrow> 's RecordReader \<Rightarrow>
   status \<times> u64 \<times> int \<times> 's RecordReader" where
  "SkipRecords ops offset num_to_skip num_skipped rr =
     (let (s0, rr0) = PositionInputStream ops offset rr
      in if s0 \<noteq> OK then (s0, offset, num_skipped, rr0)
         else SkipRecordsLoop ops (nat num_to_skip) offset 0 [] rr0)"

text \<open>
  The scan of \<^verbatim>\<open>GetMetadata\<close> runs until the stream ends, with the 64-bit counters of the
  source; not ending is \<open>None\<close>.
\<close>

partial_function (option) GetMetadataLoop ::
  "'s InputStreamInterface \<Rightarrow> u64 \<Rightarrow> u64 \<Rightarrow> bytes \<Rightarrow> 's \<Rightarrow> (status \<times> u64 \<times> u64 \<times> 's) option" where
  "GetMetadataLoop ops data_size entries record st =
     (let (s1, record1, st1) = ReadChecksummed ops 8 record st
      in if s1 \<noteq> OK then
           Some (if IsOutOfRange s1 then OK else s1, data_size, entries, st1)
         else
           (case DecodeFixed64 kLittleEndian record1 of
              None \<Rightarrow> Some (Some MemFault, data_size, entries, st1)
            | Some len \<Rightarrow>
                (let (s2, st2) = op_SkipNBytes ops (sint (len + kFooterSize)) st1
                 in if s2 \<noteq> OK then Some (s2, data_size, entries, st2)
                    else GetMetadataLoop ops (data_size + len) (entries + 1) record1 st2)))"

declare GetMetadataLoop.simps [code]

definition GetMetadata ::
  "'s InputStreamInterface \<Rightarrow> bool \<Rightarrow> 's RecordReader \<Rightarrow>
   (status \<times> Stats option \<times> 's RecordReader) option" where
  "GetMetadata ops md_is_null rr =
     (if md_is_null
      then Some (Some (InvalidArgument ''Metadata object call to GetMetadata() was null''), None, rr)
      else case rr_cached_metadata rr of
        Some md \<Rightarrow> Some (OK, Some md, rr)
      | None \<Rightarrow>
          (let (s, st) = op_Reset ops (rr_input_stream rr);
               rr1 = rr\<lparr>rr_input_stream := st\<rparr>
           in if s \<noteq> OK then Some (s, None, rr1)
              else
                (case GetMetadataLoop ops 0 0 [] st of
                   None \<Rightarrow> None
                 | Some (s', data_size, entries, st') \<Rightarrow>
                     (let rr2 = rr1\<lparr>rr_input_stream := st'\<rparr>
                      in if s' \<noteq> OK then Some (s', None, rr2)
                         else
                           (let md = \<lparr>stats_file_size =
                                        sint (data_size + (kHeaderSize + kFooterSize) * entries),
                                      stats_data_size = sint data_size,
                                      stats_entries = sint entries\<rparr>
                            in Some (OK, Some md, rr2\<lparr>rr_cached_metadata := Some md\<rparr>))))))"

section \<open>SequentialRecordReader\<close>

record 's SequentialRecordReader =
  srr_underlying :: "'s RecordReader"
  srr_offset :: u64

definition SequentialRecordReader_new :: "'s \<Rightarrow> 's SequentialRecordReader" where
  "SequentialRecordReader_new s = \<lparr>srr_underlying = RecordReader_new s, srr_offset = 0\<rparr>"

definition Sequential_ReadRecord ::
  "'s InputStreamInterface \<Rightarrow> bytes \<Rightarrow> 's SequentialRecordReader \<Rightarrow>
   status \<times> bytes \<times> 's SequentialRecordReader" where
  "Sequential_ReadRecord ops record sr =
     (let (s, offset, record', rr) = ReadRecord ops (srr_offset sr) record (srr_underlying sr)
      in (s, record', sr\<lparr>srr_underlying := rr, srr_offset := offset\<rparr>))"

definition Sequential_SkipRecords ::
  "'s InputStreamInterface \<Rightarrow> int \<Rightarrow> int \<Rightarrow> 's SequentialRecordReader \<Rightarrow>
   status \<times> int \<times> 's SequentialRecordReader" where
  "Sequential_SkipRecords ops num_to_skip num_skipped sr =
     (let (s, offset, num_skipped', rr) =
            SkipRecords ops (srr_offset sr) num_to_skip num_skipped (srr_underlying sr)
      in (s, num_skipped', sr\<lparr>srr_underlying := rr, srr_offset := offset\<rparr>))"

definition TellOffset :: "'s SequentialRecordReader \<Rightarrow> u64" where
  "TellOffset sr = srr_offset sr"

definition SeekOffset :: "u64 \<Rightarrow> 's SequentialRecordReader \<Rightarrow> status \<times> 's SequentialRecordReader" where
  "SeekOffset offset sr =
     (if offset < srr_offset sr then (Some (InvalidArgument ''Trying to seek offset: ''), sr)
      else (OK, sr\<lparr>srr_offset := offset\<rparr>))"

section \<open>What a reader should find at an offset\<close>

definition record_bytes :: "bytes \<Rightarrow> bytes" where
  "record_bytes d = PopulateHeader (of_nat (length d)) @ d @ PopulateFooter d"

definition stored_crc :: "bytes \<Rightarrow> nat \<Rightarrow> nat \<Rightarrow> bool" where
  "stored_crc contents p n \<longleftrightarrow>
     Unmask (le_value (take 4 (drop (p + n) contents))) = Value None 0 (take n (drop p contents))"

definition record_length :: "bytes \<Rightarrow> nat \<Rightarrow> u64" where
  "record_length contents p = le_value (take 8 (drop p contents))"

text \<open>The outcome of a read as a function of the contents and the offset alone.\<close>

definition read_spec :: "bytes \<Rightarrow> u64 \<Rightarrow> bytes result" where
  "read_spec contents offset =
     (let p = unat offset; n = unat (record_length contents p) in
      if 2 ^ 63 \<le> p then Inl (InvalidArgument [])
      else if length contents < p + 12 then Inl (OutOfRange [])
      else if \<not> stored_crc contents p 8 then Inl (DataLoss [])
      else if 2 ^ 64 - 5 \<le> n then Inl (DataLoss [])
      else if 2 ^ 63 \<le> n + 4 then Inl (InvalidArgument [])
      else if length contents < p + 16 + n then Inl (DataLoss [])
      else if \<not> stored_crc contents (p + 12) n then Inl (DataLoss [])
      else Inr (take n (drop (p + 12) contents)))"

lemma sint_u64: "sint (w :: u64) = (if unat w < 2 ^ 63 then int (unat w) else int (unat w) - 2 ^ 64)"
proof -
  have u: "uint w < 2 ^ 64" "0 \<le> uint w" using unsigned_less [of w, where 'a=int] by simp_all
  have "uint w div 2 ^ 63 = 1" if "2 ^ 63 \<le> uint w"
    using u that by (intro int_div_pos_eq [of _ _ _ "uint w - 2 ^ 63"]) simp_all
  moreover have "uint w div 2 ^ 63 = 0" if "uint w < 2 ^ 63"
    using u that by simp
  ultimately have b: "bit (uint w) 63 \<longleftrightarrow> 2 ^ 63 \<le> uint w"
    unfolding bit_iff_odd by (cases "uint w < 2 ^ 63") simp_all
  have "int (unat w) = uint w" by simp
  moreover have "unat w < 2 ^ 63 \<longleftrightarrow> uint w < 2 ^ 63"
    unfolding calculation [symmetric] of_nat_less_iff [symmetric, where 'a=int] by simp
  moreover have "sint w = uint w - 2 ^ 64 * of_bool (bit (uint w) 63)"
    using u by (simp add: sint_uint signed_take_bit_eq_take_bit_minus take_bit_int_eq_self)
  ultimately show ?thesis using b by (cases "uint w < 2 ^ 63") simp_all
qed

lemma sint_small: "unat (w :: u64) < 2 ^ 63 \<Longrightarrow> sint w = int (unat w)"
  by (simp add: sint_u64)

lemma sint_neg: "2 ^ 63 \<le> unat (w :: u64) \<Longrightarrow> sint w < 0"
  using unsigned_less [of w, where 'a=int] by (simp add: sint_u64)

lemma error_code_Some [dest]: "error_code s = Some e \<Longrightarrow> s \<noteq> None"
  by (cases s) auto

lemma IsOutOfRange_error [dest]: "IsOutOfRange s \<Longrightarrow> s \<noteq> None"
  by (cases s) auto

lemma unat_add_4: "unat n < 2 ^ 64 - 4 \<Longrightarrow> unat (n + 4 :: u64) = unat n + 4"
  by (subst unat_word_ariths) simp

lemma SIZE_MAX_minus_4: "SIZE_MAX - 4 \<le> n \<longleftrightarrow> 2 ^ 64 - 5 \<le> unat n"
  by (simp add: SIZE_MAX_def word_le_nat_alt)

context input_stream
begin

lemma ReadChecksummed_spec:
  assumes i: "inv s" and small: "length contents < 2 ^ 63"
    and run: "ReadChecksummed ops n r s = (st, data, s')"
  shows "inv s' \<and>
    (if 2 ^ 64 - 5 \<le> unat n then error_code st = Some (DataLoss [])
     else if 2 ^ 63 \<le> unat n + 4 then error_code st = Some (InvalidArgument [])
     else if length contents < at s + unat n + 4 then IsOutOfRange st
     else at s' = at s + unat n + 4 \<and>
       (if stored_crc contents (at s) (unat n) then st = OK \<and> data = take (unat n) (drop (at s) contents)
        else error_code st = Some (DataLoss [])))"
proof (cases "2 ^ 64 - 5 \<le> unat n")
  case True
  with run i show ?thesis by (auto simp: ReadChecksummed_def SIZE_MAX_minus_4)
next
  case False
  then have n4: "unat (n + 4) = unat n + 4" by (simp add: unat_add_4)
  obtain s1 r1 st1 where rd: "op_ReadNBytes ops (sint (n + 4)) r s = (s1, r1, st1)"
    by (metis prod_cases3)
  show ?thesis
  proof (cases "2 ^ 63 \<le> unat n + 4")
    case True
    then have "sint (n + 4) < 0" by (intro sint_neg) (simp only: n4)
    with Read_neg [OF i this, of r] rd run False True i show ?thesis
      by (auto simp: ReadChecksummed_def SIZE_MAX_minus_4)
  next
    case fits: False
    then have sn: "sint (n + 4) = int (unat n + 4)" by (subst sint_small) (simp_all only: n4 not_le)
    show ?thesis
    proof (cases "length contents < at s + unat n + 4")
      case True
      obtain st2 s2 where "op_ReadNBytes ops (sint (n + 4)) r s = (st2, drop (at s) contents, s2)"
        "IsOutOfRange st2" "inv s2"
        using Read_short [OF i, of "unat n + 4" r] True unfolding sn by (metis add.assoc)
      moreover from this have "ReadChecksummed ops n r s = (st2, drop (at s) contents, s2)"
        using False by (auto simp: ReadChecksummed_def SIZE_MAX_minus_4)
      ultimately show ?thesis using run False fits True by simp
    next
      case enough: False
      then obtain s2 where rd: "op_ReadNBytes ops (sint (n + 4)) r s =
          (OK, take (unat n + 4) (drop (at s) contents), s2)" and s2: "inv s2" "at s2 = at s + (unat n + 4)"
        using Read_enough [OF i, of "unat n + 4" r] unfolding sn
        by (metis add.assoc not_less)
      let ?r = "take (unat n + 4) (drop (at s) contents)"
      have len: "length ?r = unat n + 4" using enough by simp
      then have cnt: "of_nat (length ?r) = n + 4" by (simp add: word_unat_eq_iff n4)
      have "DecodeFixed32 kLittleEndian (drop (unat n) ?r) = Some (le_value (take 4 (drop (unat n) ?r)))"
        by (rule DecodeFixed32_le_value) (use len in \<open>simp only: length_drop\<close>)
      moreover have "take 4 (drop (unat n) ?r) = take 4 (drop (at s + unat n) contents)"
        "take (unat n) ?r = take (unat n) (drop (at s) contents)"
        by (simp_all add: drop_take add.commute)
      ultimately have "ReadChecksummed ops n r s =
          (if stored_crc contents (at s) (unat n) then (OK, take (unat n) (drop (at s) contents), s2)
           else (Some (DataLoss ''corrupted record at ''), ?r, s2))"
        using False by (simp only: ReadChecksummed_def SIZE_MAX_minus_4 if_False Let_def rd split cnt
            option.case stored_crc_def simp_thms) simp
      with run s2 False fits enough show ?thesis by (auto split: if_splits)
    qed
  qed
qed

lemma PositionInputStream_spec:
  assumes i: "inv (rr_input_stream rr)" and small: "length contents < 2 ^ 63"
    and run: "PositionInputStream ops offset rr = (st, rr')"
  shows "inv (rr_input_stream rr') \<and> rr_cached_metadata rr' = rr_cached_metadata rr \<and>
    (if 2 ^ 63 \<le> unat offset then error_code st = Some (InvalidArgument [])
     else if unat offset \<le> length contents then st = OK \<and> at (rr_input_stream rr') = unat offset
     else IsOutOfRange st)"
proof -
  let ?s = "rr_input_stream rr"
  define p where "p = unat offset"
  define d where "d = sint offset"
  obtain s1 where reset: "op_Reset ops ?s = (OK, s1)" "inv s1" "at s1 = 0"
    using Reset_at [OF i] by (metis surj_pair)
  have tell: "op_Tell ops ?s = int (at ?s)" "at ?s \<le> length contents"
    using i by (simp_all add: Tell_at at_le)
  consider (neg) "2 ^ 63 \<le> p" "d < 0"
    | (rewind) "p < 2 ^ 63" "d = int p" "p < at ?s \<or> p = at ?s \<and> rr_last_read_failed rr"
    | (here) "p < 2 ^ 63" "d = int p" "p = at ?s" "\<not> rr_last_read_failed rr"
    | (ahead) "p < 2 ^ 63" "d = int p" "at ?s < p"
    unfolding p_def d_def
    using sint_neg [of offset] sint_small [of offset] by (meson linorder_less_linear not_le)
  then have "inv (rr_input_stream rr') \<and> rr_cached_metadata rr' = rr_cached_metadata rr \<and>
    (if 2 ^ 63 \<le> p then error_code st = Some (InvalidArgument [])
     else if p \<le> length contents then st = OK \<and> at (rr_input_stream rr') = p
     else IsOutOfRange st)"
  proof cases
    case neg
    with Skip_neg [OF reset(2), of d] run show ?thesis
      by (auto simp: PositionInputStream_def tell reset Let_def simp flip: d_def)
  next
    case rewind
    obtain st2 s2 where sk: "op_SkipNBytes ops d s1 = (st2, s2)" by fastforce
    have "st = st2 \<and> rr' = rr\<lparr>rr_last_read_failed := False, rr_input_stream := s2\<rparr>"
      using rewind run sk by (auto simp: PositionInputStream_def tell reset Let_def simp flip: d_def)
    with Skip_at [OF reset(2) _ sk] reset(3) rewind show ?thesis by simp
  next
    case here
    with run i tell(2) show ?thesis by (auto simp: PositionInputStream_def tell(1) simp flip: d_def)
  next
    case ahead
    obtain st2 s2 where sk: "op_SkipNBytes ops (d - int (at ?s)) ?s = (st2, s2)" by fastforce
    have "st = st2 \<and> rr' = rr\<lparr>rr_input_stream := s2\<rparr>"
      using ahead run sk by (auto simp: PositionInputStream_def tell simp flip: d_def)
    with Skip_at [OF i _ sk] ahead show ?thesis by (simp add: nat_diff_distrib)
  qed
  then show ?thesis unfolding p_def .
qed

lemma header_length:
  assumes "p + 12 \<le> length contents"
  shows "DecodeFixed64 kLittleEndian (take 8 (drop p contents)) = Some (record_length contents p)"
  using assms DecodeFixed64_le_value [of "take 8 (drop p contents)"]
  by (simp add: record_length_def)

lemma ReadRecord_spec:
  assumes i: "inv (rr_input_stream rr)" and small: "length contents < 2 ^ 63"
    and run: "ReadRecord ops offset record rr = (st, offset', record', rr')"
  shows "inv (rr_input_stream rr') \<and> rr_cached_metadata rr' = rr_cached_metadata rr \<and>
    (case read_spec contents offset of
       Inl e \<Rightarrow> error_code st = Some e \<and> offset' = offset
     | Inr d \<Rightarrow> st = OK \<and> record' = d \<and> offset' = offset + (16 + of_nat (length d)))"
proof -
  let ?p = "unat offset" and ?len = "record_length contents (unat offset)"
  obtain s0 rr0 where pos: "PositionInputStream ops offset rr = (s0, rr0)" by fastforce
  note P = PositionInputStream_spec [OF i small pos]
  obtain s1 r1 st1 where h: "ReadChecksummed ops 8 record (rr_input_stream rr0) = (s1, r1, st1)"
    by (metis prod_cases3)
  obtain s2 r2 st2 where d: "ReadChecksummed ops ?len r1 st1 = (s2, r2, st2)" by (metis prod_cases3)
  show ?thesis
  proof (cases "2 ^ 63 \<le> ?p \<or> length contents < ?p")
    case True
    with P have "s0 \<noteq> OK" by (metis error_code_Some IsOutOfRange_error not_le)
    then have "st = s0" "offset' = offset" "rr' = rr0"
      using run by (simp_all add: ReadRecord_def pos)
    moreover have "\<exists>e. read_spec contents offset = Inl e \<and> error_code s0 = Some e"
      using True P by (cases "2 ^ 63 \<le> ?p") (simp_all add: read_spec_def)
    ultimately show ?thesis using P by auto
  next
    case False
    with P have s0: "s0 = OK" "at (rr_input_stream rr0) = ?p" "inv (rr_input_stream rr0)" by auto
    note H = ReadChecksummed_spec [OF s0(3) small h]
    show ?thesis
    proof (cases "length contents < ?p + 12 \<or> \<not> stored_crc contents ?p 8")
      case True
      have e: "\<exists>e. read_spec contents offset = Inl e \<and> error_code s1 = Some e"
      proof (cases "length contents < ?p + 12")
        case short: True
        then have "IsOutOfRange s1" using H s0(2) by simp
        with short False show ?thesis by (simp add: read_spec_def)
      next
        case long: False
        then have "error_code s1 = Some (DataLoss [])" using H s0(2) True by simp
        with long True False show ?thesis by (simp add: read_spec_def)
      qed
      then have "s1 \<noteq> OK" by auto
      then have "st = s1" "offset' = offset"
        "rr' = rr0\<lparr>rr_input_stream := st1, rr_last_read_failed := True\<rparr>"
        using run by (simp_all add: ReadRecord_def pos s0(1) h)
      moreover have "inv st1" "rr_cached_metadata rr0 = rr_cached_metadata rr" using P H by blast+
      ultimately show ?thesis using e by auto
    next
      case ok: False
      with H s0 have s1: "s1 = OK" "r1 = take 8 (drop ?p contents)" "at st1 = ?p + 12" "inv st1"
        by (auto split: if_splits)
      have rec: "ReadRecord ops offset record rr =
          (if s2 \<noteq> OK then (if IsOutOfRange s2 then Some (DataLoss ''truncated record at '') else s2,
              offset, r2, rr0\<lparr>rr_input_stream := st2, rr_last_read_failed := True\<rparr>)
           else (OK, offset + (kHeaderSize + ?len + kFooterSize), r2, rr0\<lparr>rr_input_stream := st2\<rparr>))"
        using ok s1 d header_length [of ?p] by (simp add: ReadRecord_def pos s0 h)
      note D = ReadChecksummed_spec [OF s1(4) small d]
      show ?thesis
      proof (cases "s2 = OK")
        case True
        with D s1(3) have "2 ^ 64 - 5 > unat ?len" "2 ^ 63 > unat ?len + 4"
          "?p + 16 + unat ?len \<le> length contents" "stored_crc contents (?p + 12) (unat ?len)"
          "r2 = take (unat ?len) (drop (?p + 12) contents)"
          by (auto split: if_splits)
        moreover from this have "read_spec contents offset = Inr r2"
          using False ok by (simp add: read_spec_def Let_def)
        moreover have "of_nat (length r2) = ?len" using calculation(3,5) by simp
        moreover have "st = OK" "record' = r2" "offset' = offset + (kHeaderSize + ?len + kFooterSize)"
          "rr' = rr0\<lparr>rr_input_stream := st2\<rparr>"
          using run True by (simp_all add: rec)
        moreover have "inv st2" "rr_cached_metadata rr0 = rr_cached_metadata rr" using P D by blast+
        ultimately show ?thesis by (simp add: kHeaderSize_def kFooterSize_def algebra_simps)
      next
        case bad: False
        have out: "st = (if IsOutOfRange s2 then Some (DataLoss ''truncated record at '') else s2)"
          "offset' = offset" "rr' = rr0\<lparr>rr_input_stream := st2, rr_last_read_failed := True\<rparr>"
          using run bad by (simp_all add: rec)
        let ?n = "unat ?len"
        consider (large) "2 ^ 64 - 5 \<le> ?n" "error_code s2 = Some (DataLoss [])"
          | (signed) "?n < 2 ^ 64 - 5" "2 ^ 63 \<le> ?n + 4" "error_code s2 = Some (InvalidArgument [])"
          | (short) "?n < 2 ^ 64 - 5" "?n + 4 < 2 ^ 63" "length contents < ?p + 12 + ?n + 4" "IsOutOfRange s2"
          | (crc) "?n < 2 ^ 64 - 5" "?n + 4 < 2 ^ 63" "?p + 12 + ?n + 4 \<le> length contents"
              "\<not> stored_crc contents (?p + 12) ?n" "error_code s2 = Some (DataLoss [])"
          using D bad s1(3) by (auto simp only: not_le not_less split: if_splits)
        then have "\<exists>e. read_spec contents offset = Inl e \<and> error_code st = Some e"
          using False ok by cases (auto simp: read_spec_def Let_def out(1))
        moreover have "inv st2" "rr_cached_metadata rr0 = rr_cached_metadata rr" using P D by blast+
        ultimately show ?thesis using out by auto
      qed
    qed
  qed
qed

end

end
