(* ===== verification/RecordFile.thy ===== *)
theory RecordFile
  imports RecordIO
begin

text \<open>
  Whole TFRecord files: what a sequence of writes leaves in a file, what a reader finds there,
  and what damage to a file it detects.
\<close>

section \<open>Clients\<close>

text \<open>
  A client that writes records until one fails, with the number of records written, and a client
  that reads records until a read fails, with its status code.
\<close>

fun write_all :: "'f WritableFile \<Rightarrow> bytes list \<Rightarrow> 'f RecordWriter \<Rightarrow> status \<times> nat \<times> 'f RecordWriter" where
  "write_all ops [] w = (OK, 0, w)"
| "write_all ops (d # ds) w =
     (let (s, w1) = WriteRecord ops d w
      in if s \<noteq> OK then (s, 0, w1)
         else (let (s', k, w2) = write_all ops ds w1 in (s', Suc k, w2)))"

fun read_all :: "'s InputStreamInterface \<Rightarrow> nat \<Rightarrow> 's SequentialRecordReader \<Rightarrow> bytes list \<times> status" where
  "read_all ops 0 sr = ([], OK)"
| "read_all ops (Suc k) sr =
     (let (s, d, sr1) = Sequential_ReadRecord ops [] sr
      in if s \<noteq> OK then ([], error_code s)
         else (let (ds, s') = read_all ops k sr1 in (d # ds, s')))"

fun read_all_spec :: "bytes \<Rightarrow> nat \<Rightarrow> u64 \<Rightarrow> bytes list \<times> status" where
  "read_all_spec contents 0 offset = ([], OK)"
| "read_all_spec contents (Suc k) offset =
     (case read_spec contents offset of
        Inl e \<Rightarrow> ([], Some e)
      | Inr d \<Rightarrow> (let (ds, s') = read_all_spec contents k (offset + (16 + of_nat (length d)))
                  in (d # ds, s')))"

section \<open>Records in a byte string\<close>

lemma length_header [simp]: "length (PopulateHeader n) = 12"
  by (simp add: PopulateHeader_def Let_def)

lemma length_footer [simp]: "length (PopulateFooter d) = 4"
  by (simp add: PopulateFooter_def)

lemma length_record_bytes [simp]: "length (record_bytes d) = 16 + length d"
  by (simp add: record_bytes_def)

lemma le_value_EncodeFixed32 [simp]: "le_value (EncodeFixed32 le v) = v"
  by (simp add: EncodeFixed32_bytes le_value_bytes)

lemma le_value_EncodeFixed64 [simp]: "le_value (EncodeFixed64 le v) = v"
  by (simp add: EncodeFixed64_bytes le_value_bytes)

text \<open>A checksum is stored behind \<open>n\<close> bytes exactly when the writer would have put it there.\<close>

lemma stored_crc_iff:
  assumes "p + n + 4 \<le> length contents"
  shows "stored_crc contents p n \<longleftrightarrow>
    take 4 (drop (p + n) contents) = EncodeFixed32 kLittleEndian (MaskedCrc (take n (drop p contents)))"
proof -
  let ?bs = "take 4 (drop (p + n) contents)" and ?v = "Value None 0 (take n (drop p contents))"
  have "length ?bs = 4" using assms by simp
  have "Unmask (le_value ?bs) = ?v \<longleftrightarrow> le_value ?bs = Mask ?v"
    using Unmask_Mask [of ?v] Mask_Unmask [of "le_value ?bs"] by metis
  also have "\<dots> \<longleftrightarrow> ?bs = EncodeFixed32 kLittleEndian (Mask ?v)"
    using EncodeFixed32_le_value [OF \<open>length ?bs = 4\<close>] le_value_EncodeFixed32 by metis
  finally show ?thesis by (simp add: stored_crc_def MaskedCrc_def)
qed

lemma header_at:
  assumes "p + 12 \<le> length contents"
  shows "stored_crc contents p 8 \<longleftrightarrow>
    take 12 (drop p contents) = PopulateHeader (record_length contents p)"
proof -
  have eight: "length (take 8 (drop p contents)) = 8" using assms by simp
  have "take 12 (drop p contents) = take 8 (drop p contents) @ take 4 (drop (p + 8) contents)"
    using take_add [of 8 4 "drop p contents"] by (simp add: add.commute)
  moreover have "EncodeFixed64 kLittleEndian (record_length contents p) = take 8 (drop p contents)"
    unfolding record_length_def by (rule EncodeFixed64_le_value [OF eight])
  ultimately show ?thesis
    using assms by (simp add: stored_crc_iff PopulateHeader_def Let_def)
qed

lemma record_length_header:
  "record_length (pre @ PopulateHeader n @ post) (length pre) = n"
  by (simp add: record_length_def PopulateHeader_def Let_def)

lemma read_spec_record:
  assumes "contents = pre @ record_bytes d @ post" "length contents < 2 ^ 63"
    and "unat offset = length pre"
  shows "read_spec contents offset = Inr d"
proof -
  let ?p = "length pre"
  have split: "contents = pre @ PopulateHeader (of_nat (length d)) @ (d @ PopulateFooter d @ post)"
    by (simp add: assms(1) record_bytes_def)
  have len: "?p + 16 + length d \<le> length contents" by (simp add: assms(1))
  have rl: "record_length contents ?p = of_nat (length d)"
    unfolding split by (rule record_length_header)
  have n: "unat (of_nat (length d) :: u64) = length d"
    using len assms(2) by (intro unat_of_nat_small) simp
  have d: "take (length d) (drop (?p + 12) contents) = d"
    "take 4 (drop (?p + 12 + length d) contents) = PopulateFooter d"
    by (simp_all add: split)
  have "stored_crc contents ?p 8"
    using len by (simp add: header_at rl) (simp add: split)
  moreover have "stored_crc contents (?p + 12) (length d)"
    using len d by (simp add: stored_crc_iff PopulateFooter_def)
  ultimately show ?thesis
    using len assms(2) d by (simp add: read_spec_def assms(3) rl n Let_def)
qed

text \<open>Whatever the bytes of a file are, a read that succeeds found a record as it is written.\<close>

lemma read_spec_sound:
  assumes "read_spec contents offset = Inr d"
  shows "\<exists>pre post. contents = pre @ record_bytes d @ post \<and> length pre = unat offset"
proof -
  define p where "p = unat offset"
  define n where "n = unat (record_length contents p)"
  have h: "p + 12 \<le> length contents" "stored_crc contents p 8"
    and b: "p + 16 + n \<le> length contents" "stored_crc contents (p + 12) n" 
    and d: "d = take n (drop (p + 12) contents)"
    using assms by (auto simp: read_spec_def Let_def p_def n_def split: if_splits)
  have ld: "length d = n" using b(1) by (simp add: d)
  have "take 12 (drop p contents) = PopulateHeader (of_nat (length d))"
    using header_at [OF h(1)] h(2) by (simp add: ld n_def)
  moreover have "take 4 (drop (p + 12 + n) contents) = PopulateFooter d"
    using stored_crc_iff [of "p + 12" n contents] b by (simp add: PopulateFooter_def d)
  moreover have "take (16 + n) (drop p contents) =
      take 12 (drop p contents) @ take n (drop (p + 12) contents) @ take 4 (drop (p + 12 + n) contents)"
    using take_add [of 12 "n + 4" "drop p contents"] take_add [of n 4 "drop (p + 12) contents"]
    by (simp add: add.commute add.left_commute)
  ultimately have "take (16 + n) (drop p contents) = record_bytes d"
    by (simp add: record_bytes_def d)
  then have "contents = take p contents @ record_bytes d @ drop (16 + n) (drop p contents)"
    by (metis append_take_drop_id)
  moreover have "length (take p contents) = p" using h by simp
  ultimately show ?thesis unfolding p_def by blast
qed

lemma offset_step:
  assumes "unat offset = p" "p + 16 + n < 2 ^ 63"
  shows "unat (offset + (16 + of_nat n) :: u64) = p + 16 + n"
proof -
  have "offset + (16 + of_nat n) = of_nat (p + 16 + n)"
    by (simp add: assms(1) [symmetric])
  then show ?thesis using assms(2) by (simp only:) (intro unat_of_nat_small, simp)
qed

text \<open>
  Complete records followed by a proper prefix of one more, which is what an interrupted write
  leaves, are read as the complete records and then an error: the end of the file when the cut
  lies in a header, data loss when it lies behind.
\<close>

lemma read_spec_cut:
  assumes "contents = pre @ take k (record_bytes d)" "k < 16 + length d" "length contents < 2 ^ 63"
    and "length d < 2 ^ 62" "unat offset = length pre"
  shows "read_spec contents offset = Inl (if k < 12 then OutOfRange [] else DataLoss [])"
proof (cases "k < 12")
  case True
  with assms show ?thesis by (simp add: read_spec_def)
next
  case False
  let ?p = "length pre"
  have "take k (record_bytes d) = PopulateHeader (of_nat (length d)) @ take (k - 12) (d @ PopulateFooter d)"
    using False by (simp add: record_bytes_def)
  then have split: "contents = pre @ PopulateHeader (of_nat (length d)) @ take (k - 12) (d @ PopulateFooter d)"
    by (simp add: assms(1))
  have rl: "record_length contents ?p = of_nat (length d)"
    unfolding split by (rule record_length_header)
  have n: "unat (of_nat (length d) :: u64) = length d"
    using assms(4) by (intro unat_of_nat_small) simp
  have "length contents = ?p + k" using assms(1,2) by simp
  moreover from this False have "stored_crc contents ?p 8"
    by (simp add: header_at rl) (simp add: split)
  ultimately show ?thesis
    using assms(2-5) False by (simp add: read_spec_def rl n Let_def)
qed

lemma read_all_spec_records:
  assumes "contents = pre @ concat (map record_bytes ds) @ take k (record_bytes d)"
    "k < 16 + length d" "length d < 2 ^ 62" "length contents < 2 ^ 63" "unat offset = length pre"
  shows "read_all_spec contents (Suc (length ds)) offset =
    (ds, Some (if k < 12 then OutOfRange [] else DataLoss []))"
  using assms
proof (induction ds arbitrary: pre offset)
  case Nil
  then show ?case using read_spec_cut [of contents pre k d offset] by simp
next
  case (Cons d1 ds)
  have "read_spec contents offset = Inr d1"
    by (rule read_spec_record [OF _ Cons.prems(4,5)]) (simp add: Cons.prems(1))
  moreover have "unat (offset + (16 + of_nat (length d1))) = length (pre @ record_bytes d1)"
    using Cons.prems by (subst offset_step) auto
  ultimately show ?case
    using Cons.IH [of "pre @ record_bytes d1" "offset + (16 + of_nat (length d1))"] Cons.prems
    by simp
qed

context input_stream
begin

lemma read_all_eq_spec:
  assumes "inv (rr_input_stream (srr_underlying sr))" "length contents < 2 ^ 63"
  shows "read_all ops k sr = read_all_spec contents k (srr_offset sr)"
  using assms
proof (induction k arbitrary: sr)
  case 0
  then show ?case by simp
next
  case (Suc k)
  obtain st offset d rr where r: "ReadRecord ops (srr_offset sr) [] (srr_underlying sr) = (st, offset, d, rr)"
    by (metis prod_cases4)
  note R = ReadRecord_spec [OF Suc.prems r]
  have s: "Sequential_ReadRecord ops [] sr = (st, d, sr\<lparr>srr_underlying := rr, srr_offset := offset\<rparr>)"
    by (simp add: Sequential_ReadRecord_def r)
  show ?case
  proof (cases "read_spec contents (srr_offset sr)")
    case (Inl e)
    with R s show ?thesis by auto
  next
    case (Inr d')
    with R s Suc.IH [of "sr\<lparr>srr_underlying := rr, srr_offset := offset\<rparr>"] Suc.prems show ?thesis
      by simp
  qed
qed

text \<open>Skipping and the metadata scan on complete records.\<close>

lemma header_read:
  assumes "inv s" "length contents < 2 ^ 63" "contents = pre @ record_bytes d @ post" "at s = length pre"
  obtains rec s1 where "ReadChecksummed ops 8 r s = (OK, rec, s1)" "inv s1" "at s1 = length pre + 12"
    "DecodeFixed64 kLittleEndian rec = Some (of_nat (length d))"
proof -
  obtain st rec s1 where run: "ReadChecksummed ops 8 r s = (st, rec, s1)" by (metis prod_cases3)
  let ?p = "length pre"
  have split: "contents = pre @ PopulateHeader (of_nat (length d)) @ (d @ PopulateFooter d @ post)"
    by (simp add: assms(3) record_bytes_def)
  have rl: "record_length contents ?p = of_nat (length d)"
    unfolding split by (rule record_length_header)
  have len: "?p + 12 \<le> length contents" by (simp add: assms(3))
  then have "stored_crc contents ?p 8" by (simp add: header_at rl) (simp add: split)
  with ReadChecksummed_spec [OF assms(1,2) run] len assms(4)
  have "st = OK" "rec = take 8 (drop ?p contents)" "inv s1" "at s1 = ?p + 12" by auto
  with run len header_length [of ?p] rl that show ?thesis by simp
qed

lemma data_skip:
  assumes "inv s" "length contents < 2 ^ 63" "contents = pre @ record_bytes d @ post" "at s = length pre + 12"
  obtains s1 where "op_SkipNBytes ops (sint (of_nat (length d) + kFooterSize :: u64)) s = (OK, s1)"
    "inv s1" "at s1 = length (pre @ record_bytes d)"
proof -
  have "of_nat (length d) + kFooterSize = (of_nat (length d + 4) :: u64)"
    by (simp add: kFooterSize_def)
  moreover have "unat (of_nat (length d + 4) :: u64) = length d + 4"
    using assms(2,3) by (intro unat_of_nat_small) simp
  moreover have "length d + 4 < 2 ^ 63" using assms(2,3) by simp
  ultimately have n: "sint (of_nat (length d) + kFooterSize :: u64) = int (length d + 4)"
    by (metis sint_small)
  obtain st s1 where "op_SkipNBytes ops (int (length d + 4)) s = (st, s1)" by fastforce
  with Skip_at [OF assms(1) _ this] assms(3,4) that [of s1] show ?thesis by (simp add: n)
qed

lemma SkipRecordsLoop_records:
  assumes "inv (rr_input_stream rr)" "length contents < 2 ^ 63"
    "contents = pre @ concat (map record_bytes ds) @ post" "at (rr_input_stream rr) = length pre"
    "unat offset = length pre"
  shows "\<exists>offset' rr'. SkipRecordsLoop ops (length ds) offset k r rr = (OK, offset', k + int (length ds), rr') \<and>
    inv (rr_input_stream rr') \<and> unat offset' = length pre + length (concat (map record_bytes ds))"
  using assms
proof (induction ds arbitrary: pre offset k r rr)
  case Nil
  then show ?case by simp
next
  case (Cons d ds)
  let ?post = "concat (map record_bytes ds) @ post"
  have c: "contents = pre @ record_bytes d @ ?post" using Cons.prems(3) by simp
  obtain rec s1 where h: "ReadChecksummed ops 8 r (rr_input_stream rr) = (OK, rec, s1)" "inv s1"
    "at s1 = length pre + 12" "DecodeFixed64 kLittleEndian rec = Some (of_nat (length d))"
    using header_read [OF Cons.prems(1,2) c Cons.prems(4)] by blast
  obtain s2 where s: "op_SkipNBytes ops (sint (of_nat (length d) + kFooterSize :: u64)) s1 = (OK, s2)"
    "inv s2" "at s2 = length (pre @ record_bytes d)"
    using data_skip [OF h(2) Cons.prems(2) c h(3)] by blast
  let ?offset = "offset + (kHeaderSize + of_nat (length d) + kFooterSize)"
  have o: "?offset = offset + (16 + of_nat (length d))" by (simp add: kHeaderSize_def kFooterSize_def)
  have "unat ?offset = length (pre @ record_bytes d)"
    unfolding o using Cons.prems(2,3,5) by (subst offset_step) auto
  then show ?case
    using Cons.IH [of "rr\<lparr>rr_input_stream := s2\<rparr>" "pre @ record_bytes d" ?offset "k + 1" rec] Cons.prems(2,3) s h
    by (simp add: algebra_simps)
qed

lemma GetMetadataLoop_records:
  assumes "inv s" "length contents < 2 ^ 63" "contents = pre @ concat (map record_bytes ds)" "at s = length pre"
  shows "\<exists>s'. GetMetadataLoop ops data_size entries r s =
     Some (OK, data_size + of_nat (length (concat ds)), entries + of_nat (length ds), s') \<and> inv s'"
  using assms
proof (induction ds arbitrary: pre data_size entries r s)
  case Nil
  obtain st rec s1 where run: "ReadChecksummed ops 8 r s = (st, rec, s1)" by (metis prod_cases3)
  with ReadChecksummed_spec [OF Nil(1,2) run] Nil(3,4) have "IsOutOfRange st" "inv s1" by simp_all
  moreover from this have "st \<noteq> OK" by auto
  ultimately show ?case by (subst GetMetadataLoop.simps) (simp add: run)
next
  case (Cons d ds)
  let ?post = "concat (map record_bytes ds)"
  have c: "contents = pre @ record_bytes d @ ?post" using Cons.prems(3) by simp
  obtain rec s1 where h: "ReadChecksummed ops 8 r s = (OK, rec, s1)" "inv s1"
    "at s1 = length pre + 12" "DecodeFixed64 kLittleEndian rec = Some (of_nat (length d))"
    using header_read [OF Cons.prems(1,2) c Cons.prems(4)] by blast
  obtain s2 where s: "op_SkipNBytes ops (sint (of_nat (length d) + kFooterSize :: u64)) s1 = (OK, s2)"
    "inv s2" "at s2 = length (pre @ record_bytes d)"
    using data_skip [OF h(2) Cons.prems(2) c h(3)] by blast
  have "GetMetadataLoop ops data_size entries r s =
      GetMetadataLoop ops (data_size + of_nat (length d)) (entries + 1) rec s2"
    by (subst GetMetadataLoop.simps) (simp add: h s)
  then show ?case
    using Cons.IH [of s2 "pre @ record_bytes d" "data_size + of_nat (length d)" "entries + 1" rec]
      Cons.prems(2,3) s by (simp add: algebra_simps)
qed

text \<open>The scan ends on every file: a header is consumed on each round.\<close>

lemma GetMetadataLoop_ends:
  assumes "inv s" "length contents < 2 ^ 63"
  shows "\<exists>st data_size' entries' s'. GetMetadataLoop ops data_size entries r s = Some (st, data_size', entries', s')"
  using assms
proof (induction "length contents - at s" arbitrary: s r data_size entries rule: less_induct)
  case less
  obtain st rec s1 where run: "ReadChecksummed ops 8 r s = (st, rec, s1)" by (metis prod_cases3)
  note R = ReadChecksummed_spec [OF less.prems run]
  show ?case
  proof (cases "st = OK \<and> DecodeFixed64 kLittleEndian rec \<noteq> None")
    case False
    then show ?thesis by (subst GetMetadataLoop.simps) (auto simp: run split: option.splits)
  next
    case True
    then obtain len where len: "DecodeFixed64 kLittleEndian rec = Some len" by auto
    let ?n = "sint (len + kFooterSize)"
    obtain s2 st2 where sk: "op_SkipNBytes ops ?n s1 = (s2, st2)" by fastforce
    have s1: "inv s1" "at s1 = at s + 12" "at s + 12 \<le> length contents"
      using R True by (auto split: if_splits)
    show ?thesis
    proof (cases "s2 = OK")
      case False
      with True len sk show ?thesis by (subst GetMetadataLoop.simps) (auto simp: run)
    next
      case ok: True
      have "0 \<le> ?n" using Skip_neg [OF s1(1), of ?n] sk ok by (metis not_le option.discI prod.inject)
      with Skip_at [OF s1(1) this sk] s1 have "inv st2" "length contents - at st2 < length contents - at s"
        by auto
      from less.hyps [OF this(2,1) less.prems(2)] True len sk ok show ?thesis
        by (subst GetMetadataLoop.simps) (auto simp: run)
    qed
  qed
qed

end

section \<open>Writing\<close>

text \<open>
  What a writer relies on: an append that succeeds adds its data, one that fails adds a proper
  prefix of it.
\<close>

locale writable_file =
  fixes ops :: "'f WritableFile" and contents :: "'f \<Rightarrow> bytes" and finv :: "'f \<Rightarrow> bool"
  assumes Append_ok: "finv f \<Longrightarrow> op_Append ops d f = (OK, f') \<Longrightarrow> finv f' \<and> contents f' = contents f @ d"
    and Append_err: "finv f \<Longrightarrow> op_Append ops d f = (Some e, f') \<Longrightarrow>
      finv f' \<and> (\<exists>r < length d. contents f' = contents f @ take r d)"
begin

lemma WriteRecord_spec:
  assumes "rw_dest w = Some f" "finv f" "WriteRecord ops d w = (st, w')"
  shows "\<exists>f'. rw_dest w' = Some f' \<and> finv f' \<and>
    (if st = OK then contents f' = contents f @ record_bytes d
     else \<exists>r < 16 + length d. contents f' = contents f @ take r (record_bytes d))"
proof -
  let ?h = "PopulateHeader (of_nat (length d))" and ?t = "PopulateFooter d"
  obtain s1 f1 where a1: "op_Append ops ?h f = (s1, f1)" by fastforce
  obtain s2 f2 where a2: "op_Append ops d f1 = (s2, f2)" by fastforce
  obtain s3 f3 where a3: "op_Append ops ?t f2 = (s3, f3)" by fastforce
  have out: "(st, w') = (if s1 \<noteq> OK then (s1, w\<lparr>rw_dest := Some f1\<rparr>)
      else if s2 \<noteq> OK then (s2, w\<lparr>rw_dest := Some f2\<rparr>) else (s3, w\<lparr>rw_dest := Some f3\<rparr>))"
    unfolding assms(3) [symmetric] by (simp add: WriteRecord_def assms(1) a1 a2 a3)
  consider (h) e where "s1 = Some e" | (d) e where "s1 = OK" "s2 = Some e"
    | (t) e where "s1 = OK" "s2 = OK" "s3 = Some e" | (ok) "s1 = OK" "s2 = OK" "s3 = OK"
    by (metis option.exhaust)
  then show ?thesis
  proof cases
    case h
    then obtain r where "finv f1" "r < 12" "contents f1 = contents f @ take r ?h"
      using Append_err [OF assms(2), of ?h e f1] a1 by auto
    with h out show ?thesis by (auto simp: record_bytes_def intro!: exI [of _ r])
  next
    case d
    then obtain r where "finv f2" "r < length d" "contents f2 = contents f @ ?h @ take r d"
      using Append_ok [OF assms(2), of ?h f1] a1 Append_err [of f1 d e f2] a2 by auto
    with d out show ?thesis by (auto simp: record_bytes_def intro!: exI [of _ "12 + r"])
  next
    case t
    then obtain r where "finv f3" "r < 4" "contents f3 = contents f @ ?h @ d @ take r ?t"
      using Append_ok [OF assms(2), of ?h f1] Append_ok [of f1 d f2] a1 a2 Append_err [of f2 ?t e f3] a3
      by auto
    with t out show ?thesis by (auto simp: record_bytes_def intro!: exI [of _ "12 + length d + r"])
  next
    case ok
    then have "finv f3" "contents f3 = contents f @ ?h @ d @ ?t"
      using Append_ok [OF assms(2), of ?h f1] Append_ok [of f1 d f2] a1 a2 Append_ok [of f2 ?t f3] a3
      by auto
    with ok out show ?thesis by (auto simp: record_bytes_def)
  qed
qed

lemma write_all_spec:
  assumes "rw_dest w = Some f" "finv f" "write_all ops ds w = (st, k, w')"
  shows "\<exists>f'. rw_dest w' = Some f' \<and> finv f' \<and>
    (if st = OK then k = length ds \<and> contents f' = contents f @ concat (map record_bytes ds)
     else k < length ds \<and> (\<exists>r < 16 + length (ds ! k). contents f' =
            contents f @ concat (map record_bytes (take k ds)) @ take r (record_bytes (ds ! k))))"
  using assms
proof (induction ds arbitrary: w f st k)
  case Nil
  then show ?case by simp
next
  case (Cons d ds)
  obtain s1 w1 where wr: "WriteRecord ops d w = (s1, w1)" by fastforce
  obtain f1 where f1: "rw_dest w1 = Some f1" "finv f1"
    "if s1 = OK then contents f1 = contents f @ record_bytes d
     else \<exists>r < 16 + length d. contents f1 = contents f @ take r (record_bytes d)"
    using WriteRecord_spec [OF Cons.prems(1,2) wr] by blast
  show ?case
  proof (cases "s1 = OK")
    case False
    with f1 Cons.prems(3) show ?thesis by (auto simp: wr)
  next
    case True
    obtain k' where k': "write_all ops ds w1 = (st, k', w')" "k = Suc k'"
      using Cons.prems(3) True by (auto simp: wr split: prod.splits)
    from Cons.IH [OF f1(1,2) k'(1)] True f1(3) k'(2) show ?thesis by auto
  qed
qed

end

interpretation posix: writable_file posix_ops pwf_data pwf_open
  by unfold_locales
    (auto simp: posix_ops_def Posix_Append_def Let_def min_def not_le split: if_splits)

section \<open>Properties\<close>

abbreviation posix_writer :: "nat \<Rightarrow> bool \<Rightarrow> bool \<Rightarrow> PosixWritableFile RecordWriter" where
  "posix_writer room fflush_ok fclose_ok \<equiv>
     \<lparr>rw_dest = Some \<lparr>pwf_data = [], pwf_room = room, pwf_open = True, pwf_fflush_ok = fflush_ok,
        pwf_fclose_ok = fclose_ok\<rparr>, rw_compression_type = NONE\<rparr>"

abbreviation file_reader :: "bytes \<Rightarrow> RandomAccessInputStream SequentialRecordReader" where
  "file_reader contents \<equiv> SequentialRecordReader_new \<lparr>ras_file = contents, ras_pos = 0\<rparr>"

abbreviation buffered_reader ::
  "nat \<Rightarrow> bytes \<Rightarrow> RandomAccessInputStream BufferedInputStream SequentialRecordReader" where
  "buffered_reader n contents \<equiv>
     SequentialRecordReader_new (BufferedInputStream_new \<lparr>ras_file = contents, ras_pos = 0\<rparr> n)"

lemma read_all_file:
  "length contents < 2 ^ 63 \<Longrightarrow>
   read_all random_access_ops k (file_reader contents) = read_all_spec contents k 0"
  by (subst random_access.read_all_eq_spec [of contents])
    (simp_all add: SequentialRecordReader_new_def RecordReader_new_def ras_inv_def)

lemma read_all_buffered:
  "length contents < 2 ^ 63 \<Longrightarrow> 0 < n \<Longrightarrow>
   read_all (buffered_ops random_access_ops) k (buffered_reader n contents) = read_all_spec contents k 0"
  by (subst buffered_file.buf.read_all_eq_spec [of contents])
    (simp_all add: SequentialRecordReader_new_def RecordReader_new_def buffered_file_new)

lemma length_concat_records:
  "length (concat (map record_bytes ds)) = length (concat ds) + 16 * length ds"
  by (induction ds) simp_all

text \<open>C9: records survive, also when writing is cut short. Whatever room the file has, reading
  back what the writer left, buffered or not, gives exactly the records whose writes succeeded,
  in order, and then an error: the end of the file if all writes succeeded, and the end of the
  file or data loss, never a wrong record, if one was interrupted.\<close>

theorem written_records_are_read_back:
  assumes "write_all posix_ops ds (posix_writer room fflush_ok fclose_ok) = (st, k, w)" and "rw_dest w = Some f"
    and "length (concat ds) + 16 * length ds < 2 ^ 62" and "0 < n"
  shows "\<exists>e. read_all random_access_ops (Suc k) (file_reader (pwf_data f)) = (take k ds, Some e) \<and>
      read_all (buffered_ops random_access_ops) (Suc k) (buffered_reader n (pwf_data f)) =
        (take k ds, Some e) \<and>
      (st = OK \<longrightarrow> k = length ds \<and> e = OutOfRange []) \<and>
      (st \<noteq> OK \<longrightarrow> e = OutOfRange [] \<or> e = DataLoss [])"
proof -
  have bound: "length (concat (map record_bytes ds)) < 2 ^ 62"
    using assms(3) by (simp add: length_concat_records)
  have "\<exists>r d. k \<le> length ds \<and> r < 16 + length d \<and> length d < 2 ^ 62 \<and> length (pwf_data f) < 2 ^ 63 \<and>
      pwf_data f = concat (map record_bytes (take k ds)) @ take r (record_bytes d) \<and>
      (st = OK \<longrightarrow> k = length ds \<and> r = 0)"
  proof (cases "st = OK")
    case True
    with posix.write_all_spec [OF _ _ assms(1)] assms(2) bound
    show ?thesis by (intro exI [of _ 0] exI [of _ "[]"]) auto
  next
    case False
    with posix.write_all_spec [OF _ _ assms(1)] assms(2) obtain r where
      r: "k < length ds" "r < 16 + length (ds ! k)"
        "pwf_data f = concat (map record_bytes (take k ds)) @ take r (record_bytes (ds ! k))"
      by auto
    have "ds = take k ds @ ds ! k # drop (Suc k) ds" using r(1) by (rule id_take_nth_drop)
    then have "length (concat (map record_bytes ds)) = length (concat (map record_bytes (take k ds))) +
        (16 + length (ds ! k)) + length (concat (map record_bytes (drop (Suc k) ds)))"
      by (metis (no_types, lifting) add.assoc concat.simps(2) concat_append length_append
          length_record_bytes list.simps(9) map_append)
    with bound r False show ?thesis by (intro exI [of _ r] exI [of _ "ds ! k"]) auto
  qed
  then obtain r d where rd: "k \<le> length ds" "r < 16 + length d" "length d < 2 ^ 62"
    "length (pwf_data f) < 2 ^ 63" "pwf_data f = concat (map record_bytes (take k ds)) @ take r (record_bytes d)"
    "st = OK \<longrightarrow> k = length ds \<and> r = 0" by blast
  then have "read_all_spec (pwf_data f) (Suc k) 0 =
      (take k ds, Some (if r < 12 then OutOfRange [] else DataLoss []))"
    using read_all_spec_records [of "pwf_data f" "[]" "take k ds" r d 0] by (simp add: min_absorb2)
  then show ?thesis
    using rd(4,6) assms(4) by (auto simp: read_all_file read_all_buffered simp del: read_all.simps read_all_spec.simps)
qed

theorem written_records_are_read_back_witness:
  "\<exists>e. read_all random_access_ops (Suc 1) (file_reader (take 20 (record_bytes [1, 2] @ record_bytes [3]))) =
      ([[1, 2]], Some e)"
proof -
  have w: "write_all posix_ops [[1, 2], [3]] (posix_writer 20 True True) =
      (Some (IOError ''fwrite''), 1,
       \<lparr>rw_dest = Some \<lparr>pwf_data = take 20 (record_bytes [1, 2] @ record_bytes [3]), pwf_room = 0,
          pwf_open = True, pwf_fflush_ok = True, pwf_fclose_ok = True\<rparr>, rw_compression_type = NONE\<rparr>)"
    by code_simp
  show ?thesis
    using written_records_are_read_back [OF w, of "\<lparr>pwf_data = take 20 (record_bytes [1, 2] @ record_bytes [3]),
        pwf_room = 0, pwf_open = True, pwf_fflush_ok = True, pwf_fclose_ok = True\<rparr>" 1]
    by (auto simp del: read_all.simps)
qed

text \<open>C10: a reader never invents a record. If \<^verbatim>\<open>ReadRecord\<close> succeeds at an offset of any file,
  however damaged, then exactly a record with that data, as the writer lays it out, stands at
  that offset, and the new offset is the one behind it; if it fails the offset is kept.\<close>

theorem ReadRecord_sound:
  assumes "ras_inv contents (rr_input_stream rr)" and "length contents < 2 ^ 63"
    and "ReadRecord random_access_ops offset record rr = (st, offset', d, rr')"
  shows "if st = OK
     then \<exists>pre post. contents = pre @ record_bytes d @ post \<and> length pre = unat offset \<and>
            unat offset' = unat offset + length (record_bytes d)
     else offset' = offset \<and> st \<noteq> Some MemFault"
proof -
  note R = random_access.ReadRecord_spec [OF assms]
  show ?thesis
  proof (cases "read_spec contents offset")
    case (Inl e)
    then have "e \<noteq> MemFault" by (auto simp: read_spec_def Let_def split: if_splits)
    with Inl R show ?thesis by auto
  next
    case (Inr d')
    obtain pre post where c: "contents = pre @ record_bytes d' @ post" "length pre = unat offset"
      using read_spec_sound [OF Inr] by blast
    then have "unat (offset + (16 + of_nat (length d'))) = unat offset + 16 + length d'"
      using assms(2) by (intro offset_step) auto
    with c R Inr show ?thesis by auto
  qed
qed

theorem ReadRecord_sound_witness:
  "\<exists>rr'. ReadRecord random_access_ops 0 []
        (RecordReader_new \<lparr>ras_file = record_bytes [7, 8] @ [1], ras_pos = 0\<rparr>) = (OK, 18, [7, 8], rr') \<and>
     (\<exists>pre post. record_bytes [7, 8] @ [1] = pre @ record_bytes [7, 8] @ post \<and> length pre = 0 \<and>
        18 = length (record_bytes [7, 8]))"
proof -
  let ?rr = "RecordReader_new \<lparr>ras_file = record_bytes [7, 8] @ [1], ras_pos = 0\<rparr>"
  have r: "ReadRecord random_access_ops 0 [] ?rr = (OK, 18, [7, 8],
      ?rr\<lparr>rr_input_stream := \<lparr>ras_file = record_bytes [7, 8] @ [1], ras_pos = 18\<rparr>\<rparr>)"
    by code_simp
  have "\<exists>pre post. record_bytes [7, 8] @ [1] = pre @ record_bytes [7, 8] @ post \<and> length pre = 0 \<and>
      18 = length (record_bytes [7, 8])"
    using ReadRecord_sound [OF _ _ r, of "record_bytes [7, 8] @ [1]"]
    by (simp add: RecordReader_new_def ras_inv_def)
  with r show ?thesis by blast
qed

text \<open>
  The four fields of a record, and a burst: up to four consecutive bytes of a field replaced.
\<close>

definition record_fields :: "bytes \<Rightarrow> bytes list" where
  "record_fields d =
     (let len = EncodeFixed64 kLittleEndian (of_nat (length d))
      in [len, EncodeFixed32 kLittleEndian (MaskedCrc len), d, PopulateFooter d])"

definition burst :: "bytes \<Rightarrow> bytes \<Rightarrow> bool" where
  "burst u v \<longleftrightarrow> (\<exists>a x y b. u = a @ x @ b \<and> v = a @ y @ b \<and> length x = length y \<and> length x \<le> 4 \<and> x \<noteq> y)"

lemma burst_length: "burst u v \<Longrightarrow> length v = length u \<and> u \<noteq> v"
  by (auto simp: burst_def)

lemma burst_MaskedCrc: "burst u v \<Longrightarrow> MaskedCrc u \<noteq> MaskedCrc v"
proof -
  assume "burst u v"
  then obtain a x y b where b: "u = a @ x @ b" "v = a @ y @ b" "length x = length y" "length x \<le> 4" "x \<noteq> y"
    by (auto simp: burst_def)
  then have "Value None 0 u \<noteq> Value None 0 v"
    by (simp add: Value_def Extend_None crc_burst)
  then show ?thesis by (metis MaskedCrc_def Unmask_Mask)
qed

lemma EncodeFixed32_eq_iff: "EncodeFixed32 le v = EncodeFixed32 le w \<longleftrightarrow> v = w"
  by (metis le_value_EncodeFixed32)

lemma read_spec_bad_header:
  assumes "contents = pre @ len @ crc @ post" "length len = 8" "length crc = 4"
    "crc \<noteq> EncodeFixed32 kLittleEndian (MaskedCrc len)" "unat offset = length pre" "length contents < 2 ^ 63"
  shows "read_spec contents offset = Inl (DataLoss [])"
proof -
  have "\<not> stored_crc contents (length pre) 8"
    using assms by (subst stored_crc_iff) simp_all
  then show ?thesis using assms by (simp add: read_spec_def)
qed

lemma read_spec_bad_data:
  assumes "contents = pre @ PopulateHeader (of_nat (length d)) @ d @ crc @ post" "length crc = 4"
    "crc \<noteq> PopulateFooter d" "unat offset = length pre" "length contents < 2 ^ 63"
  shows "read_spec contents offset = Inl (DataLoss [])"
proof -
  let ?p = "length pre"
  have rl: "record_length contents ?p = of_nat (length d)"
    unfolding assms(1) by (rule record_length_header)
  have n: "unat (of_nat (length d) :: u64) = length d"
    using assms(1,5) by (intro unat_of_nat_small) simp
  have "\<not> stored_crc contents (?p + 12) (length d)"
    using assms by (subst stored_crc_iff) (simp_all add: PopulateFooter_def)
  moreover have "stored_crc contents ?p 8"
    using assms(1) by (simp add: header_at rl) (simp add: assms(1) record_length_header)
  moreover have "length contents = ?p + 16 + length d + length post"
    by (simp add: assms(1,2))
  ultimately show ?thesis using assms(4,5) by (simp add: read_spec_def rl n Let_def)
qed

text \<open>C11: damage is detected. If up to four consecutive bytes of one field of a record (length,
  its checksum, data, its checksum) are replaced by other bytes, reading the record reports data
  loss and keeps the offset, whatever surrounds the record and whatever was read before.\<close>

theorem damaged_record_is_data_loss:
  assumes "contents = pre @ concat ((record_fields d)[i := v]) @ post" and "i < 4"
    and "burst (record_fields d ! i) v" and "length contents < 2 ^ 63" and "unat offset = length pre"
    and "ras_inv contents (rr_input_stream rr)"
    and "ReadRecord random_access_ops offset record rr = (st, offset', d', rr')"
  shows "error_code st = Some (DataLoss []) \<and> offset' = offset"
proof -
  let ?len = "EncodeFixed64 kLittleEndian (of_nat (length d))"
  let ?crc = "EncodeFixed32 kLittleEndian (MaskedCrc ?len)"
  note bl = burst_length [OF assms(3)] and bc = burst_MaskedCrc [OF assms(3)]
  consider "i = 0" | "i = 1" | "i = 2" | "i = 3" using assms(2) by linarith
  then have "read_spec contents offset = Inl (DataLoss [])"
  proof cases
    case 1
    show ?thesis
      by (rule read_spec_bad_header [of contents pre v ?crc "d @ PopulateFooter d @ post"])
        (use 1 bl bc assms(1,4,5) in \<open>simp_all add: record_fields_def Let_def EncodeFixed32_eq_iff\<close>)
  next
    case 2
    show ?thesis
      by (rule read_spec_bad_header [of contents pre ?len v "d @ PopulateFooter d @ post"])
        (use 2 bl assms(1,4,5) in \<open>auto simp: record_fields_def Let_def\<close>)
  next
    case 3
    show ?thesis
      by (rule read_spec_bad_data [of contents pre v "PopulateFooter d" post])
        (use 3 bl bc assms(1,4,5) in \<open>simp_all add: record_fields_def Let_def PopulateHeader_def
          PopulateFooter_def EncodeFixed32_eq_iff\<close>)
  next
    case 4
    show ?thesis
      by (rule read_spec_bad_data [of contents pre d v post])
        (use 4 bl assms(1,4,5) in \<open>auto simp: record_fields_def Let_def PopulateHeader_def\<close>)
  qed
  with random_access.ReadRecord_spec [OF assms(6,4,7)] show ?thesis by simp
qed

theorem damaged_record_is_data_loss_witness:
  "\<exists>st offset' d' rr'. ReadRecord random_access_ops 0 []
     (RecordReader_new \<lparr>ras_file = concat ((record_fields [7, 8])[2 := [7, 9]]), ras_pos = 0\<rparr>) =
       (st, offset', d', rr') \<and> error_code st = Some (DataLoss []) \<and> offset' = 0"
proof -
  let ?c = "concat ((record_fields [7, 8])[2 := [7, 9]])"
  obtain st offset' d' rr' where r: "ReadRecord random_access_ops 0 []
     (RecordReader_new \<lparr>ras_file = ?c, ras_pos = 0\<rparr>) = (st, offset', d', rr')"
    by (metis prod_cases4)
  have "burst (record_fields [7, 8] ! 2) [7, 9]"
    unfolding burst_def
    by (rule exI [of _ "[7]"], rule exI [of _ "[8]"], rule exI [of _ "[9]"], rule exI [of _ "[]"])
      (simp add: record_fields_def Let_def)
  moreover have "length ?c = 18" by code_simp
  ultimately show ?thesis
    using damaged_record_is_data_loss [of ?c "[]" "[7, 8]" 2 "[7, 9]" "[]" 0, OF _ _ _ _ _ _ r] r
    by (simp add: RecordReader_new_def ras_inv_def)
qed

text \<open>C12: on a file of complete records, skipping \<open>k\<close> records moves to the \<open>k\<close>-th record without
  reading the data: the count is exact and the next read returns that record.\<close>

theorem SkipRecords_then_ReadRecord:
  assumes "contents = concat (map record_bytes ds)" and "length contents < 2 ^ 63" and "k < length ds"
  shows "\<exists>sr sr'. Sequential_SkipRecords random_access_ops (int k) n0 (file_reader contents) = (OK, int k, sr) \<and>
     Sequential_ReadRecord random_access_ops [] sr = (OK, ds ! k, sr') \<and>
     unat (TellOffset sr') = length (concat (map record_bytes (take (Suc k) ds)))"
proof -
  let ?rr = "RecordReader_new \<lparr>ras_file = contents, ras_pos = 0\<rparr>"
  let ?pre = "concat (map record_bytes (take k ds))" and ?post = "concat (map record_bytes (drop (Suc k) ds))"
  have inv0: "ras_inv contents (rr_input_stream ?rr)" by (simp add: ras_inv_def RecordReader_new_def)
  obtain s0 rr0 where pos: "PositionInputStream random_access_ops 0 ?rr = (s0, rr0)" by fastforce
  have p: "s0 = OK" "ras_inv contents (rr_input_stream rr0)" "ras_at (rr_input_stream rr0) = 0"
    using random_access.PositionInputStream_spec [OF inv0 assms(2) pos] by simp_all
  have "ds = take k ds @ ds ! k # drop (Suc k) ds" using assms(3) by (rule id_take_nth_drop)
  then have c: "contents = ?pre @ record_bytes (ds ! k) @ ?post"
    unfolding assms(1) by (metis concat.simps(2) concat_append list.simps(9) map_append)
  obtain offset rr1 where sk: "SkipRecordsLoop random_access_ops k 0 0 [] rr0 = (OK, offset, int k, rr1)"
    "ras_inv contents (rr_input_stream rr1)" "unat offset = length ?pre"
    using random_access.SkipRecordsLoop_records [OF p(2) assms(2), of "[]" "take k ds" "record_bytes (ds ! k) @ ?post" 0 0 "[]"]
      c p(3) assms(3) by (auto simp: min_absorb2)
  obtain st offset2 d rr2 where r: "ReadRecord random_access_ops offset [] rr1 = (st, offset2, d, rr2)"
    by (metis prod_cases4)
  have "read_spec contents offset = Inr (ds ! k)" by (rule read_spec_record [OF c assms(2) sk(3)])
  with random_access.ReadRecord_spec [OF sk(2) assms(2) r]
  have rd: "st = OK" "d = ds ! k" "offset2 = offset + (16 + of_nat (length (ds ! k)))" by simp_all
  have "unat offset2 = length ?pre + 16 + length (ds ! k)"
    unfolding rd(3) using c assms(2) by (intro offset_step [OF sk(3)]) simp
  moreover have "take (Suc k) ds = take k ds @ [ds ! k]" using assms(3) by (rule take_Suc_conv_app_nth)
  ultimately show ?thesis
    using pos p(1) sk r rd
    by (simp add: Sequential_SkipRecords_def SkipRecords_def SequentialRecordReader_new_def
        Sequential_ReadRecord_def TellOffset_def)
qed

theorem SkipRecords_then_ReadRecord_witness:
  "\<exists>sr sr'. Sequential_SkipRecords random_access_ops (int 1) 5
       (file_reader (concat (map record_bytes [[1], [2, 3]]))) = (OK, int 1, sr) \<and>
     Sequential_ReadRecord random_access_ops [] sr = (OK, [2, 3], sr') \<and> unat (TellOffset sr') = 35"
  using SkipRecords_then_ReadRecord [of _ "[[1], [2, 3]]" 1 5, OF refl] by simp

text \<open>C13: \<^verbatim>\<open>GetMetadata\<close> ends on every file, and on a file of complete records it reports the
  number of records, the size of their data and the size of the file exactly.\<close>

theorem GetMetadata_exact:
  assumes "length contents < 2 ^ 63"
  shows "(\<exists>st md rr. GetMetadata random_access_ops False (RecordReader_new \<lparr>ras_file = contents, ras_pos = 0\<rparr>) =
       Some (st, md, rr)) \<and>
    (contents = concat (map record_bytes ds) \<longrightarrow>
     (\<exists>rr. GetMetadata random_access_ops False (RecordReader_new \<lparr>ras_file = contents, ras_pos = 0\<rparr>) =
       Some (OK, Some \<lparr>stats_file_size = int (length contents), stats_data_size = int (length (concat ds)),
                        stats_entries = int (length ds)\<rparr>, rr)))"
proof -
  let ?s = "\<lparr>ras_file = contents, ras_pos = 0\<rparr>"
  have i: "ras_inv contents ?s" "ras_at ?s = 0" by (simp_all add: ras_inv_def ras_at_def)
  have reset: "op_Reset random_access_ops ?s = (OK, ?s)"
    by (simp add: random_access_ops_def RandomAccess_Reset_def RandomAccess_Seek_def)
  have "\<exists>st md rr. GetMetadata random_access_ops False (RecordReader_new ?s) = Some (st, md, rr)"
    using random_access.GetMetadataLoop_ends [OF i(1) assms, of 0 0 "[]"]
    by (auto simp: GetMetadata_def RecordReader_new_def reset Let_def)
  moreover have "\<exists>rr. GetMetadata random_access_ops False (RecordReader_new ?s) =
       Some (OK, Some \<lparr>stats_file_size = int (length contents), stats_data_size = int (length (concat ds)),
                        stats_entries = int (length ds)\<rparr>, rr)" if c: "contents = concat (map record_bytes ds)"
  proof -
    obtain s' where l: "GetMetadataLoop random_access_ops 0 0 [] ?s =
        Some (OK, of_nat (length (concat ds)), of_nat (length ds), s')"
      using random_access.GetMetadataLoop_records [OF i(1) assms, of "[]" ds 0 0 "[]"] c i(2) by auto
    have total: "length (concat ds) + 16 * length ds < 2 ^ 63"
      using assms c by (simp only: length_concat_records)
    have sint: "sint (of_nat n :: u64) = int n" if "n < 2 ^ 63" for n
      using that sint_small [of "of_nat n"] by (simp add: unat_of_nat_small)
    have "of_nat (length (concat ds)) + (kHeaderSize + kFooterSize) * of_nat (length ds) =
        (of_nat (length (concat ds) + 16 * length ds) :: u64)"
      by (simp add: kHeaderSize_def kFooterSize_def)
    then have "sint (of_nat (length (concat ds)) + (kHeaderSize + kFooterSize) * of_nat (length ds) :: u64) =
        int (length contents)"
      using sint [OF total] c by (simp only: length_concat_records)
    moreover have "sint (of_nat (length (concat ds)) :: u64) = int (length (concat ds))"
      "sint (of_nat (length ds) :: u64) = int (length ds)"
      using total by (auto intro!: sint)
    ultimately show ?thesis by (simp add: GetMetadata_def RecordReader_new_def reset l Let_def)
  qed
  ultimately show ?thesis by blast
qed

theorem GetMetadata_exact_witness:
  "\<exists>rr. GetMetadata random_access_ops False
      (RecordReader_new \<lparr>ras_file = concat (map record_bytes [[1], [2, 3]]), ras_pos = 0\<rparr>) =
    Some (OK, Some \<lparr>stats_file_size = 35, stats_data_size = 3, stats_entries = 2\<rparr>, rr)"
  using GetMetadata_exact [of "concat (map record_bytes [[1], [2, 3]])" "[[1], [2, 3]]"] by simp

section \<open>Where the code and its comments part\<close>

text \<open>
  A header whose length field is \<open>2 ^ 64 - 4\<close> with a matching checksum: the length plus the
  footer wraps around to zero, so the metadata scan counts a record of \<open>- 4\<close> bytes, and
  \<^verbatim>\<open>SkipRecords\<close> skips it, where \<^verbatim>\<open>ReadRecord\<close> reports data loss.
\<close>

lemma GetMetadata_counts_impossible_record:
  "\<exists>rr. GetMetadata random_access_ops False
      (RecordReader_new \<lparr>ras_file = PopulateHeader 0xfffffffffffffffc, ras_pos = 0\<rparr>) =
    Some (OK, Some \<lparr>stats_file_size = 12, stats_data_size = - 4, stats_entries = 1\<rparr>, rr)"
proof -
  let ?md = "\<lparr>stats_file_size = 12, stats_data_size = - 4, stats_entries = 1\<rparr>"
  have "GetMetadata random_access_ops False
      (RecordReader_new \<lparr>ras_file = PopulateHeader 0xfffffffffffffffc, ras_pos = 0\<rparr>) =
    Some (OK, Some ?md, \<lparr>rr_input_stream = \<lparr>ras_file = PopulateHeader 0xfffffffffffffffc, ras_pos = 12\<rparr>,
      rr_last_read_failed = False, rr_cached_metadata = Some ?md\<rparr>)"
    by code_simp
  then show ?thesis by blast
qed

lemma ReadRecord_rejects_impossible_record:
  "read_spec (PopulateHeader 0xfffffffffffffffc) 0 = Inl (DataLoss [])"
  using record_length_header [of "[]" "0xfffffffffffffffc" "[]"] by (simp add: read_spec_def Let_def)

text \<open>
  A file cut inside the header of its last record reads as a clean end of the file, although
  \<^verbatim>\<open>ReadChecksummed\<close> has a branch that reports a truncated record: the stream reports the end of
  the file first.
\<close>

lemma cut_header_is_end_of_file:
  "read_all random_access_ops (Suc (Suc 0)) (file_reader (record_bytes [1] @ take 11 (record_bytes [2]))) =
    ([[1]], Some (OutOfRange []))"
  using read_all_spec_records [of "record_bytes [1] @ take 11 (record_bytes [2])" "[]" "[[1]]" 11 "[2]" 0]
  by (simp add: read_all_file del: read_all.simps read_all_spec.simps)

text \<open>
  \<^verbatim>\<open>Close\<close> on an uncompressed writer leaves it usable, where the header says that further
  writes are invalid.
\<close>

lemma write_after_close_succeeds:
  "fst (WriteRecord posix_ops [1] (snd (RecordWriter_Close posix_ops (posix_writer 100 True True)))) = OK"
  by code_simp

end
