(* ===== verification/OrderedCode.thy ===== *)
theory OrderedCode
  imports Coding
begin

unbundle bit_operations_syntax

text \<open>
  The order-preserving encodings of \<^verbatim>\<open>core/lib/strings/ordered_code.cc\<close>: strings, unsigned and
  signed numbers, with the proof that each is read back and that comparing encodings byte by
  byte compares the values, also for keys of several parts.
\<close>

section \<open>Strings\<close>

definition kEscape1 :: byte where
  "kEscape1 = 0"

definition kNullCharacter :: byte where
  "kNullCharacter = 255"

definition kSeparator :: byte where
  "kSeparator = 1"

definition kEscape2 :: byte where
  "kEscape2 = 255"

definition kFFCharacter :: byte where
  "kFFCharacter = 0"

lemmas escape_defs = kEscape1_def kNullCharacter_def kSeparator_def kEscape2_def kFFCharacter_def

definition IsSpecialByte :: "byte \<Rightarrow> bool" where
  "IsSpecialByte c \<longleftrightarrow> c + 1 < 2"

text \<open>The number of bytes from \<^verbatim>\<open>start\<close> to the first special byte or to \<^verbatim>\<open>limit\<close>.\<close>

fun SkipToNextSpecialByte :: "bytes \<Rightarrow> nat" where
  "SkipToNextSpecialByte [] = 0"
| "SkipToNextSpecialByte (c # p) =
     (if \<not> IsSpecialByte c then Suc (SkipToNextSpecialByte p) else 0)"

text \<open>\<^verbatim>\<open>copy_start\<close> and \<^verbatim>\<open>p\<close> agree at the head of the loop; \<open>s\<close> is what lies behind them.\<close>

function EncodeStringFragment :: "bytes \<Rightarrow> bytes \<Rightarrow> bytes" where
  "EncodeStringFragment dest s =
     (let n = SkipToNextSpecialByte s in
      case drop n s of
        [] \<Rightarrow> dest @ take n s
      | c # p \<Rightarrow>
          if c = kEscape1
          then EncodeStringFragment (dest @ take n s @ [kEscape1, kNullCharacter]) p
          else EncodeStringFragment (dest @ take n s @ [kEscape2, kFFCharacter]) p)"
  by pat_completeness auto
termination
proof (relation "measure (\<lambda>(dest, s). length s)")
  fix dest s n c p
  assume "n = SkipToNextSpecialByte s" and "drop n s = c # p"
  then have "length p < length s" by (metis Suc_le_lessD length_Cons length_drop diff_le_self)
  then show "((dest @ take n s @ [kEscape1, kNullCharacter], p), dest, s) \<in> measure (\<lambda>(dest, s). length s)"
    and "((dest @ take n s @ [kEscape2, kFFCharacter], p), dest, s) \<in> measure (\<lambda>(dest, s). length s)"
    by simp_all
qed simp

declare EncodeStringFragment.simps [simp del]

definition WriteString :: "bytes \<Rightarrow> bytes \<Rightarrow> bytes" where
  "WriteString dest s = EncodeStringFragment dest s @ [kEscape1, kSeparator]"

text \<open>
  \<^verbatim>\<open>limit\<close> is one byte before the end of the source, so a special byte that is looked at has a
  byte behind it.
\<close>

function ReadStringInternal :: "bytes \<Rightarrow> bytes \<Rightarrow> (bytes \<times> bytes) option" where
  "ReadStringInternal src result =
     (let n = SkipToNextSpecialByte (take (length src - 1) src) in
      case drop n src of
        c # nxt # start \<Rightarrow>
          (let result1 = result @ take n src in
           if c = kEscape1 then
             (if nxt = kSeparator then Some (result1, start)
              else if nxt = kNullCharacter then ReadStringInternal start (result1 @ [0])
              else None)
           else
             (if nxt = kFFCharacter then ReadStringInternal start (result1 @ [255]) else None))
      | _ \<Rightarrow> None)"
  by pat_completeness auto
termination
proof (relation "measure (\<lambda>(src, result). length src)")
  fix src result n c xs nxt start result1
  assume "drop n src = c # xs" "xs = nxt # (start :: bytes)"
  then have "length start < length src"
    by (metis Suc_le_lessD Suc_lessD length_Cons length_drop diff_le_self)
  then show "((start, result1 @ [0]), src, result) \<in> measure (\<lambda>(src, result). length src)"
    and "((start, result1 @ [255]), src, result) \<in> measure (\<lambda>(src, result). length src)"
    by simp_all
qed simp

declare ReadStringInternal.simps [simp del]

definition ReadString :: "bytes \<Rightarrow> bytes \<Rightarrow> (bytes \<times> bytes) option" where
  "ReadString src result = ReadStringInternal src result"

section \<open>Unsigned numbers\<close>

lemma drop_bit_8_decreases: "0 < (v :: u64) \<Longrightarrow> unat (drop_bit 8 v) < unat v"
proof -
  assume "0 < v"
  then have "0 < unat v" by (simp add: word_less_nat_alt)
  then show ?thesis by (simp only: unat_drop_bit_word) simp
qed

text \<open>The buffer is filled from its end, so each byte goes in front of the ones before.\<close>

function WriteNumLoop :: "u64 \<Rightarrow> bytes \<Rightarrow> bytes" where
  "WriteNumLoop val buf =
     (if 0 < val then WriteNumLoop (drop_bit 8 val) (ucast (val AND 255) # buf) else buf)"
  by pat_completeness auto
termination
  by (relation "measure (\<lambda>(val, buf). unat val)") (auto intro: drop_bit_8_decreases)

declare WriteNumLoop.simps [simp del]

definition WriteNumIncreasing :: "bytes \<Rightarrow> u64 \<Rightarrow> bytes" where
  "WriteNumIncreasing dest val =
     (let buf = WriteNumLoop val [] in dest @ of_nat (length buf) # buf)"

definition ReadNumIncreasing :: "bytes \<Rightarrow> (u64 \<times> bytes) option" where
  "ReadNumIncreasing src =
     (case src of
        [] \<Rightarrow> None
      | c # payload \<Rightarrow>
          (let len = unat c in
           if len + 1 > length src \<or> len > 8 then None
           else Some (foldl (\<lambda>tmp b. push_bit 8 tmp OR ucast b) 0 (take len payload),
                      drop (len + 1) src)))"

section \<open>Signed numbers\<close>

definition kMaxSigned64Length :: nat where
  "kMaxSigned64Length = 10"

definition kLengthToHeaderBits :: "(byte \<times> byte) list" where
  "kLengthToHeaderBits =
     [(0, 0), (0x80, 0), (0xc0, 0), (0xe0, 0), (0xf0, 0), (0xf8, 0), (0xfc, 0), (0xfe, 0),
      (0xff, 0), (0xff, 0x80), (0xff, 0xc0)]"

definition kLengthToMask :: "u64 list" where
  "kLengthToMask =
     [0, 0x80, 0xc000, 0xe00000, 0xf0000000, 0xf800000000, 0xfc0000000000, 0xfe000000000000,
      0xff00000000000000, 0x8000000000000000, 0]"

definition kBitsToLength :: "nat list" where
  "kBitsToLength =
     [1, 1, 1, 1, 1, 1, 1, 2, 2, 2, 2, 2, 2, 2, 3, 3, 3, 3, 3, 3, 3, 4,
      4, 4, 4, 4, 4, 4, 5, 5, 5, 5, 5, 5, 5, 6, 6, 6, 6, 6, 6, 6, 7, 7,
      7, 7, 7, 7, 7, 8, 8, 8, 8, 8, 8, 8, 9, 9, 9, 9, 9, 9, 9, 10]"

text \<open>
  \<^verbatim>\<open>__builtin_clzll\<close> counts the zeros above the highest bit that is set. Both versions of the
  logarithm are modelled: the one for GNU compilers and the portable one.
\<close>

definition builtin_clzll :: "u64 \<Rightarrow> int" where
  "builtin_clzll n = int (length (takeWhile (\<lambda>i. \<not> bit n i) (rev [0..<64])))"

definition Log2Floor64 :: "u64 \<Rightarrow> int" where
  "Log2Floor64 n = (if n = 0 then - 1 else 63 XOR builtin_clzll n)"

fun Log2Floor32_step :: "nat \<Rightarrow> u32 \<times> int \<Rightarrow> u32 \<times> int" where
  "Log2Floor32_step i (v, log) =
     (let shift = 2 ^ i; x = drop_bit shift v
      in if x \<noteq> 0 then (x, log + int shift) else (v, log))"

definition Log2Floor32_Portable :: "u32 \<Rightarrow> int" where
  "Log2Floor32_Portable n =
     (if n = 0 then - 1 else snd (fold Log2Floor32_step [4, 3, 2, 1, 0] (n, 0)))"

definition Log2Floor64_Portable :: "u64 \<Rightarrow> int" where
  "Log2Floor64_Portable n =
     (let topbits = ucast (drop_bit 32 n) :: u32
      in if topbits = 0 then Log2Floor32_Portable (ucast n)
         else 32 + Log2Floor32_Portable topbits)"

text \<open>
  An \<^verbatim>\<open>int64\<close> is its 64 bits, ordered as signed numbers.
\<close>

datatype int64 = Int64 (bits: u64)

definition int64_neg :: "int64 \<Rightarrow> bool" where
  "int64_neg n \<longleftrightarrow> bit (bits n) 63"

definition SignedEncodingLength :: "int64 \<Rightarrow> nat" where
  "SignedEncodingLength n =
     kBitsToLength ! nat (Log2Floor64 (if int64_neg n then NOT (bits n) else bits n) + 1)"

definition StoreBigEndian64 :: "u64 \<Rightarrow> bytes" where
  "StoreBigEndian64 v = map (\<lambda>i. ucast (drop_bit (56 - 8 * i) v AND 255)) [0..<8]"

definition LoadBigEndian64 :: "bytes \<Rightarrow> u64" where
  "LoadBigEndian64 src =
     foldl (\<lambda>result i. result OR push_bit (56 - 8 * i) (ucast (src ! i))) 0 [0..<8]"

definition WriteSignedNumIncreasing :: "bytes \<Rightarrow> int64 \<Rightarrow> bytes" where
  "WriteSignedNumIncreasing dest val =
     (let x = (if int64_neg val then NOT (bits val) else bits val) in
      if x < 64 then dest @ [ucast (ucast (fst (kLengthToHeaderBits ! 1)) XOR bits val)]
      else
        (let sign_byte = (if int64_neg val then 255 else 0);
             buf = [sign_byte, sign_byte] @ StoreBigEndian64 (bits val);
             len = SignedEncodingLength (Int64 x);
             begin = drop (10 - len) buf
         in dest @ (begin ! 0 XOR fst (kLengthToHeaderBits ! len)) #
                   (begin ! 1 XOR snd (kLengthToHeaderBits ! len)) # drop 2 begin))"

definition ReadSignedNumIncreasing :: "bytes \<Rightarrow> (int64 \<times> bytes) option" where
  "ReadSignedNumIncreasing src =
     (case src of
        [] \<Rightarrow> None
      | c0 # _ \<Rightarrow>
          (let xor_mask = (if c0 AND 0x80 = 0 then NOT 0 else 0) :: u64;
               first_byte = c0 XOR ucast (xor_mask AND 0xff);
               raw = (if first_byte \<noteq> 0xff then
                        (let len = nat (7 - Log2Floor64 (ucast (first_byte XOR 0xff)))
                         in if length src < len then None
                            else Some (len, foldl (\<lambda>x c. push_bit 8 x OR ucast c) xor_mask (take len src)))
                      else if length src < 8 then None
                      else
                        (let second_byte = src ! 1 XOR ucast (xor_mask AND 0xff);
                             third_byte = src ! 2 XOR ucast (xor_mask AND 0xff)
                         in if second_byte \<ge> 0x80 then
                              (if second_byte < 0xc0 then
                                 (if length src < 9 then None
                                  else Some (9, LoadBigEndian64 (drop 1 src)))
                               else if second_byte = 0xc0 \<and> third_byte < 0x80 then
                                 (if length src < 10 then None
                                  else Some (10, LoadBigEndian64 (drop 2 src)))
                               else None)
                            else Some (8, LoadBigEndian64 src)))
           in case raw of
                None \<Rightarrow> None
              | Some (len, x) \<Rightarrow> Some (Int64 (x XOR kLengthToMask ! len), drop len src)))"

section \<open>Byte strings that differ\<close>

text \<open>
  One string is before another because of a byte, not because it is shorter: what follows does
  not matter, and inverting all bits inverts the order.
\<close>

definition byte_less :: "bytes \<Rightarrow> bytes \<Rightarrow> bool" where
  "byte_less xs ys \<longleftrightarrow> (\<exists>p a b u v. xs = p @ a # u \<and> ys = p @ b # v \<and> a < b)"

lemma byte_less_append: "byte_less xs ys \<Longrightarrow> byte_less (xs @ us) (ys @ vs)"
  unfolding byte_less_def by (metis append.assoc append_Cons)

lemma byte_less_prefix: "byte_less xs ys \<Longrightarrow> byte_less (p @ xs) (p @ ys)"
  unfolding byte_less_def by (metis append.assoc)

lemma byte_less_head: "a < b \<Longrightarrow> byte_less (a # u) (b # v)"
  unfolding byte_less_def by (intro exI [of _ "[]"]) auto

lemma byte_less_less: "byte_less xs ys \<Longrightarrow> xs < ys"
proof -
  have "a < b \<Longrightarrow> p @ a # u < p @ b # v" for p and a b :: byte and u v
    by (induction p) simp_all
  then show "byte_less xs ys \<Longrightarrow> xs < ys" by (auto simp: byte_less_def)
qed

lemma byte_max: "b \<le> (255 :: byte)"
  using unat_bound [of b] by (simp add: word_le_nat_alt)

lemma unat_not_byte: "unat (NOT b :: byte) = 255 - unat b"
proof -
  have "NOT b = 255 - b" by (simp add: not_eq_complement)
  then show ?thesis using byte_max [of b] by (simp add: unat_sub)
qed

lemma byte_less_invert: "byte_less xs ys \<Longrightarrow> byte_less (map NOT ys) (map NOT xs)"
proof -
  assume "byte_less xs ys"
  then obtain p a b u v where "xs = p @ a # u" "ys = p @ b # v" "a < b" by (auto simp: byte_less_def)
  moreover have "NOT b < NOT a"
    using \<open>a < b\<close> unat_bound [of b] by (simp add: word_less_nat_alt unat_not_byte)
  ultimately show ?thesis unfolding byte_less_def
    by (intro exI [of _ "map NOT p"] exI [of _ "NOT b"] exI [of _ "NOT a"] exI [of _ "map NOT v"]
        exI [of _ "map NOT u"]) simp
qed

section \<open>Facts on strings\<close>

definition enc_char :: "byte \<Rightarrow> bytes" where
  "enc_char c = (if c = 0 then [0, 255] else if c = 255 then [255, 0] else [c])"

lemma enc_char_simps [simp]:
  "enc_char 0 = [0, 255]" "enc_char 255 = [255, 0]" "c \<noteq> 0 \<Longrightarrow> c \<noteq> 255 \<Longrightarrow> enc_char c = [c]"
  by (simp_all add: enc_char_def)

lemma IsSpecialByte_iff: "IsSpecialByte c \<longleftrightarrow> c = 0 \<or> c = 255"
proof -
  have two: "x < 2 \<longleftrightarrow> x = 0 \<or> x = 1" for x :: byte
    by (auto simp: word_less_nat_alt word_unat_eq_iff)
  have "c + 1 = 0 \<longleftrightarrow> c = - 1" by (rule eq_neg_iff_add_eq_0 [symmetric])
  also have "- 1 = (255 :: byte)" by simp
  finally have "c + 1 = 0 \<longleftrightarrow> c = 255" .
  then show ?thesis unfolding IsSpecialByte_def two by auto
qed

lemma Skip_spec:
  "\<forall>c \<in> set (take (SkipToNextSpecialByte s) s). enc_char c = [c]"
  "drop (SkipToNextSpecialByte s) s = c # p \<Longrightarrow> c = 0 \<or> c = 255"
  by (induction s) (auto simp: IsSpecialByte_iff split: if_splits)

lemma concat_enc_plain: "\<forall>c \<in> set s. enc_char c = [c] \<Longrightarrow> concat (map enc_char s) = s"
  by (induction s) simp_all

lemma EncodeStringFragment_eq: "EncodeStringFragment dest s = dest @ concat (map enc_char s)"
proof (induction dest s rule: EncodeStringFragment.induct)
  case (1 dest s)
  let ?n = "SkipToNextSpecialByte s"
  have s: "concat (map enc_char s) = take ?n s @ concat (map enc_char (drop ?n s))"
    using concat_enc_plain [OF Skip_spec(1) [of s]]
    by (metis append_take_drop_id concat_append map_append)
  show ?case
  proof (cases "drop ?n s")
    case Nil
    with s show ?thesis by (simp add: EncodeStringFragment.simps [of dest s])
  next
    case (Cons c p)
    with Skip_spec(2) [of s c p] have "c = 0 \<or> c = 255" by simp
    with 1 Cons s show ?thesis
      by (auto simp: EncodeStringFragment.simps [of dest s] escape_defs)
  qed
qed

lemma WriteString_eq: "WriteString dest s = dest @ concat (map enc_char s) @ [0, 1]"
  by (simp add: WriteString_def EncodeStringFragment_eq escape_defs)

lemma ReadString_plain:
  assumes "c \<noteq> 0" "c \<noteq> 255" "src \<noteq> []"
  shows "ReadStringInternal (c # src) result = ReadStringInternal src (result @ [c])"
proof -
  have "take (length src) (c # src) = c # take (length src - 1) src"
    using assms(3) by (cases src) simp_all
  then show ?thesis
    using assms by (simp add: ReadStringInternal.simps [of "c # src"] ReadStringInternal.simps [of src]
        IsSpecialByte_iff Let_def split: list.split)
qed

lemma ReadString_escape:
  "ReadStringInternal (0 # 1 # src) result = Some (result, src)"
  "ReadStringInternal (0 # 255 # src) result = ReadStringInternal src (result @ [0])"
  "ReadStringInternal (255 # 0 # src) result = ReadStringInternal src (result @ [255])"
  by (simp_all add: ReadStringInternal.simps [of "0 # 1 # src"] ReadStringInternal.simps [of "0 # 255 # src"]
      ReadStringInternal.simps [of "255 # 0 # src"] IsSpecialByte_iff escape_defs)

lemma ReadStringInternal_enc:
  "ReadStringInternal (concat (map enc_char s) @ 0 # 1 # rest) result = Some (result @ s, rest)"
proof (induction s arbitrary: result)
  case Nil
  then show ?case by (simp add: ReadString_escape)
next
  case (Cons c s)
  then show ?case
    by (cases "c = 0 \<or> c = 255") (auto simp: ReadString_escape ReadString_plain)
qed

lemma enc_char_less: "a < b \<Longrightarrow> byte_less (enc_char a @ xs) (enc_char b @ ys)"
proof -
  assume "a < b"
  then have "a \<noteq> 255" "b \<noteq> 0" using byte_max [of b] by (auto simp: not_less [symmetric])
  with \<open>a < b\<close> show ?thesis
    by (cases "a = 0"; cases "b = 255") (auto simp: word_gt_0 intro!: byte_less_head)
qed

lemma WriteString_less:
  "x < y \<Longrightarrow> byte_less (concat (map enc_char x) @ 0 # 1 # xs) (concat (map enc_char y) @ 0 # 1 # ys)"
proof (induction x arbitrary: y)
  case Nil
  then obtain b y' where y: "y = b # y'" by (cases y) auto
  have "byte_less (0 # 1 # xs) (enc_char b @ zs)" for zs
    using byte_less_prefix [OF byte_less_head, of 1 255 "[0]"]
    by (cases "b = 0"; cases "b = 255") (auto simp: word_gt_0 intro!: byte_less_head)
  then show ?case by (simp add: y)
next
  case (Cons a x)
  then obtain b y' where y: "y = b # y'" by (cases y) auto
  with Cons.prems consider "a < b" | "a = b" "x < y'" by auto
  then show ?case
  proof cases
    case 1
    then show ?thesis by (simp add: y enc_char_less)
  next
    case 2
    with Cons.IH [of y'] show ?thesis by (simp add: y byte_less_prefix)
  qed
qed

section \<open>Big-endian numbers\<close>

fun be_bytes :: "nat \<Rightarrow> nat \<Rightarrow> bytes" where
  "be_bytes 0 N = []"
| "be_bytes (Suc n) N = be_bytes n (N div 256) @ [of_nat N]"

definition be_value :: "bytes \<Rightarrow> nat" where
  "be_value bs = foldl (\<lambda>t b. 256 * t + unat b) 0 bs"

lemma length_be_bytes [simp]: "length (be_bytes n N) = n"
  by (induction n arbitrary: N) simp_all

lemma unat_of_nat_byte: "unat (of_nat N :: byte) = N mod 256"
  by (simp add: unat_of_nat)

lemma be_value_be_bytes: "N < 256 ^ n \<Longrightarrow> be_value (be_bytes n N) = N"
proof (induction n arbitrary: N)
  case 0
  then show ?case by (simp add: be_value_def)
next
  case (Suc n)
  have "N div 256 < 256 ^ n" using Suc.prems by (simp add: less_mult_imp_div_less mult.commute)
  then have "be_value (be_bytes n (N div 256)) = N div 256" by (rule Suc.IH)
  then show ?case by (simp add: be_value_def unat_of_nat_byte)
qed

lemma be_bytes_less:
  "M < N \<Longrightarrow> N < 256 ^ n \<Longrightarrow> byte_less (be_bytes n M) (be_bytes n N)"
proof (induction n arbitrary: M N)
  case 0
  then show ?case by simp
next
  case (Suc n)
  have "N div 256 < 256 ^ n" using Suc.prems(2) by (simp add: less_mult_imp_div_less mult.commute)
  consider "M div 256 < N div 256" | "M div 256 = N div 256" "M mod 256 < N mod 256"
    using Suc.prems(1) by (metis div_le_mono le_neq_implies_less less_imp_le mod_div_mult_eq
        nat_add_left_cancel_less add.commute)
  then show ?case
  proof cases
    case 1
    then show ?thesis
      using Suc.IH \<open>N div 256 < 256 ^ n\<close> by (simp add: byte_less_append)
  next
    case 2
    then have "(of_nat M :: byte) < of_nat N" by (simp add: word_less_nat_alt unat_of_nat_byte)
    with 2(1) show ?thesis by (simp add: byte_less_prefix byte_less_head)
  qed
qed

lemma be_bytes_drop: "m \<le> n \<Longrightarrow> drop (n - m) (be_bytes n N) = be_bytes m N"
proof (induction n arbitrary: m N)
  case 0
  then show ?case by simp
next
  case (Suc n)
  show ?case
  proof (cases m)
    case 0
    then show ?thesis by simp
  next
    case (Suc m')
    with Suc.prems Suc.IH [of m' "N div 256"] show ?thesis by simp
  qed
qed

lemma be_bytes_take: "m \<le> n \<Longrightarrow> take m (be_bytes n N) = be_bytes m (N div 256 ^ (n - m))"
proof (induction n arbitrary: N)
  case 0
  then show ?case by simp
next
  case (Suc n)
  show ?case
  proof (cases "m = Suc n")
    case False
    with Suc.prems have "m \<le> n" by simp
    with Suc.IH [OF this, of "N div 256"] show ?thesis
      by (simp add: Suc_diff_le div_mult2_eq)
  qed simp
qed

lemma be_bytes_nth: "i < n \<Longrightarrow> be_bytes n N ! i = of_nat (N div 256 ^ (n - 1 - i))"
proof (induction n arbitrary: N)
  case 0
  then show ?case by simp
next
  case (Suc n)
  show ?case
  proof (cases "i = n")
    case False
    with Suc.prems have i: "i < n" by simp
    then have "n - i = Suc (n - 1 - i)" by simp
    then have "N div 256 ^ (n - i) = N div 256 div 256 ^ (n - 1 - i)"
      by (simp add: div_mult2_eq)
    with i Suc.IH [OF i, of "N div 256"] show ?thesis by (simp add: nth_append)
  qed (simp add: nth_append)
qed

text \<open>Shifting bytes into a word computes their value.\<close>

lemma shift_in_byte: "push_bit 8 (of_nat t) OR ucast (b :: byte) = (of_nat (256 * t + unat b) :: u64)"
proof -
  have "push_bit 8 (of_nat t) OR (ucast b :: u64) = push_bit 8 (of_nat t) + ucast b"
  proof (rule disjunctive_add [symmetric])
    fix n
    show "\<not> bit (push_bit 8 (of_nat t) :: u64) n \<or> \<not> bit (ucast b :: u64) n"
      using bit_imp_le_length [of b n] by (auto simp: bit_simps)
  qed
  then show ?thesis by (simp add: push_bit_eq_mult)
qed

lemma foldl_shift_in: "foldl (\<lambda>x c. push_bit 8 x OR ucast (c :: byte)) (of_nat t) bs =
    (of_nat (foldl (\<lambda>t b. 256 * t + unat b) t bs) :: u64)"
  by (induction bs arbitrary: t) (simp_all add: shift_in_byte del: of_nat_add of_nat_mult)

lemma foldl_shift_in_value: "foldl (\<lambda>x c. push_bit 8 x OR ucast (c :: byte)) 0 bs = (of_nat (be_value bs) :: u64)"
  using foldl_shift_in [of 0 bs] by (simp add: be_value_def)

section \<open>Facts on unsigned numbers\<close>

fun nbytes :: "nat \<Rightarrow> nat" where
  "nbytes N = (if N = 0 then 0 else Suc (nbytes (N div 256)))"

declare nbytes.simps [simp del]

lemma nbytes_less: "N < 256 ^ nbytes N"
proof (induction N rule: nbytes.induct)
  case (1 N)
  show ?case
  proof (cases "N = 0")
    case False
    with 1 have "N div 256 < 256 ^ nbytes (N div 256)" by simp
    then have "N < 256 * 256 ^ nbytes (N div 256)" by (simp add: div_less_iff_less_mult mult.commute)
    with False show ?thesis by (simp add: nbytes.simps [of N])
  qed simp
qed

lemma nbytes_mono: "M \<le> N \<Longrightarrow> nbytes M \<le> nbytes N"
proof (induction N arbitrary: M rule: nbytes.induct)
  case (1 N)
  then show ?case by (auto simp: nbytes.simps [of N] nbytes.simps [of M] div_le_mono)
qed

lemma nbytes_le: "N < 256 ^ k \<Longrightarrow> nbytes N \<le> k"
proof (induction k arbitrary: N)
  case 0
  then show ?case by (simp add: nbytes.simps)
next
  case (Suc k)
  then have "N div 256 < 256 ^ k" by (simp add: less_mult_imp_div_less mult.commute)
  with Suc.IH show ?case by (subst nbytes.simps) simp
qed

lemma WriteNumLoop_eq: "WriteNumLoop val buf = be_bytes (nbytes (unat val)) (unat val) @ buf"
proof (induction val buf rule: WriteNumLoop.induct)
  case (1 val buf)
  have d: "unat (drop_bit 8 val) = unat val div 256" by (simp only: unat_drop_bit_word) simp
  have b: "(of_nat (unat val) :: byte) = ucast val"
    by (rule bit_word_eqI) (simp add: bit_simps)
  show ?case
  proof (cases "0 < val")
    case True
    then have "unat val \<noteq> 0" by (simp add: word_less_nat_alt)
    with 1 True d b show ?thesis
      by (simp add: WriteNumLoop.simps [of val buf] nbytes.simps [of "unat val"])
  next
    case False
    then have "val = 0" by (simp add: word_gt_0)
    then show ?thesis by (simp add: WriteNumLoop.simps nbytes.simps)
  qed
qed

lemma nbytes_u64: "nbytes (unat (val :: u64)) \<le> 8"
  using unat_bound [of val] by (intro nbytes_le) simp

lemma WriteNumIncreasing_eq:
  "WriteNumIncreasing dest val =
     dest @ of_nat (nbytes (unat val)) # be_bytes (nbytes (unat val)) (unat val)"
  by (simp add: WriteNumIncreasing_def WriteNumLoop_eq Let_def)

lemma ReadNumIncreasing_enc:
  "ReadNumIncreasing (WriteNumIncreasing [] val @ rest) = Some (val, rest)"
proof -
  let ?n = "nbytes (unat val)"
  have n: "unat (of_nat ?n :: byte) = ?n" using nbytes_u64 [of val] by (simp add: unat_of_nat_byte)
  have "be_value (be_bytes ?n (unat val)) = unat val" by (rule be_value_be_bytes [OF nbytes_less])
  then show ?thesis
    using nbytes_u64 [of val]
    by (simp add: ReadNumIncreasing_def WriteNumIncreasing_eq n Let_def foldl_shift_in_value)
qed

lemma WriteNumIncreasing_less:
  assumes "v < w"
  shows "byte_less (WriteNumIncreasing [] v) (WriteNumIncreasing [] w)"
proof -
  let ?m = "nbytes (unat v)" and ?n = "nbytes (unat w)"
  have vw: "unat v < unat w" using assms by (simp add: word_less_nat_alt)
  then have le: "?m \<le> ?n" by (intro nbytes_mono) simp
  show ?thesis
  proof (cases "?m = ?n")
    case True
    have "byte_less (be_bytes ?n (unat v)) (be_bytes ?n (unat w))"
      by (rule be_bytes_less [OF vw nbytes_less])
    then have "byte_less ([of_nat ?n] @ be_bytes ?n (unat v)) ([of_nat ?n] @ be_bytes ?n (unat w))"
      by (rule byte_less_prefix)
    with True show ?thesis by (simp add: WriteNumIncreasing_eq)
  next
    case False
    with le have "(of_nat ?m :: byte) < of_nat ?n"
      using nbytes_u64 [of w] by (simp add: word_less_nat_alt unat_of_nat_byte)
    then show ?thesis by (simp add: WriteNumIncreasing_eq byte_less_head)
  qed
qed

end
