(* ===== verification/SignedCode.thy ===== *)
theory SignedCode
  imports OrderedCode
begin

unbundle bit_operations_syntax

text \<open>
  The signed numbers of \<^verbatim>\<open>core/lib/strings/ordered_code.cc\<close>: the arithmetic meaning of the
  variable-length signed format and the reading of non-negative numbers.
\<close>

section \<open>Logarithms\<close>

lemma unat_pos: "n \<noteq> 0 \<Longrightarrow> 0 < unat n"
  by (metis gr0I unsigned_eq_0_iff)

lemma leading_zeros:
  "(\<exists>i < m. bit n i) \<Longrightarrow> \<exists>k < m. bit n k \<and> (\<forall>j. k < j \<longrightarrow> j < m \<longrightarrow> \<not> bit n j) \<and>
     length (takeWhile (\<lambda>i. \<not> bit n i) (rev [0..<m])) = m - 1 - k"
proof (induction m)
  case 0
  then show ?case by simp
next
  case (Suc m)
  show ?case
  proof (cases "bit n m")
    case True
    then show ?thesis by (intro exI [of _ m]) simp
  next
    case False
    with Suc.prems have "\<exists>i < m. bit n i" by (metis less_antisym)
    with Suc.IH obtain k where k: "k < m" "bit n k" "\<forall>j. k < j \<longrightarrow> j < m \<longrightarrow> \<not> bit n j"
      "length (takeWhile (\<lambda>i. \<not> bit n i) (rev [0..<m])) = m - 1 - k" by blast
    with False show ?thesis by (intro exI [of _ k]) (auto simp: less_Suc_eq)
  qed
qed

lemma highest_bit:
  assumes "bit n k" "\<And>j. k < j \<Longrightarrow> \<not> bit n j"
  shows "2 ^ k \<le> unat (n :: 'a::len word) \<and> unat n < 2 ^ Suc k"
proof -
  have "take_bit (Suc k) (unat n) = unat n"
    by (rule bit_eqI) (use assms(2) in \<open>auto simp: bit_simps not_less Suc_le_eq intro: ccontr\<close>)
  then have "unat n < 2 ^ Suc k" by (metis take_bit_nat_less_exp)
  moreover have "2 ^ k \<le> unat n"
  proof (rule ccontr)
    assume "\<not> 2 ^ k \<le> unat n"
    then have "take_bit k (unat n) = unat n" by (simp add: take_bit_nat_eq_self)
    then have "\<not> bit (unat n) k" by (metis bit_take_bit_iff less_irrefl)
    with assms(1) show False by (simp add: bit_simps)
  qed
  ultimately show ?thesis by simp
qed

lemma xor_63: "k < 64 \<Longrightarrow> 63 XOR (63 - int k) = int k"
proof -
  have "\<forall>k \<in> set [0..<64]. 63 XOR (63 - int k) = int k" by code_simp
  then show "k < 64 \<Longrightarrow> ?thesis" by simp
qed

lemma pow2_between_unique:
  assumes "2 ^ j \<le> (n :: nat)" "n < 2 ^ Suc j" "2 ^ k \<le> n" "n < 2 ^ Suc k"
  shows "j = k"
proof (rule linorder_cases [of j k])
  assume "j < k"
  then have "(2 :: nat) ^ Suc j \<le> 2 ^ k" by (intro power_increasing) simp_all
  with assms show ?thesis by linarith
next
  assume "k < j"
  then have "(2 :: nat) ^ Suc k \<le> 2 ^ j" by (intro power_increasing) simp_all
  with assms show ?thesis by linarith
qed

lemma Log2Floor64_bounds:
  assumes "n \<noteq> 0"
  shows "\<exists>k < 64. Log2Floor64 n = int k \<and> 2 ^ k \<le> unat n \<and> unat n < 2 ^ Suc k"
proof -
  have "\<exists>i < 64. bit n i"
  proof (rule ccontr)
    assume "\<not> (\<exists>i < 64. bit n i)"
    then have "n = 0" by (intro bit_word_eqI) simp
    with assms show False by simp
  qed
  from leading_zeros [OF this] obtain k where k: "k < 64" "bit n k"
    "\<forall>j. k < j \<longrightarrow> j < 64 \<longrightarrow> \<not> bit n j"
    "length (takeWhile (\<lambda>i. \<not> bit n i) (rev [0..<64])) = 63 - k" by auto
  have "\<And>j. k < j \<Longrightarrow> \<not> bit n j" using k(3) bit_imp_le_length by fastforce
  then have "2 ^ k \<le> unat n \<and> unat n < 2 ^ Suc k" by (rule highest_bit [OF k(2)])
  with k assms show ?thesis
    by (intro exI [of _ k]) (simp add: Log2Floor64_def builtin_clzll_def of_nat_diff xor_63)
qed

lemma Log2Floor64_eq:
  assumes "2 ^ k \<le> unat n" "unat n < 2 ^ Suc k"
  shows "Log2Floor64 n = int k"
proof -
  have "n \<noteq> 0" using assms(1) by auto
  with Log2Floor64_bounds assms pow2_between_unique show ?thesis by blast
qed

text \<open>The portable logarithm agrees with the one built on counting leading zeros.\<close>

lemma Log2Floor32_step_inv:
  assumes "2 ^ l \<le> N" "unat v = N div 2 ^ l" "unat v < 2 ^ (2 * 2 ^ i)"
    and "Log2Floor32_step i (v, int l) = (v', l')"
  shows "\<exists>m. l' = int m \<and> 2 ^ m \<le> N \<and> unat v' = N div 2 ^ m \<and> unat v' < 2 ^ 2 ^ i"
proof (cases "drop_bit (2 ^ i) v = 0")
  case True
  have "unat v div 2 ^ 2 ^ i = 0"
    using arg_cong [OF True, of unat] by (simp only: unat_drop_bit_word unsigned_0)
  then have "unat v < 2 ^ 2 ^ i" by (simp add: div_eq_0_iff)
  with assms True show ?thesis by auto
next
  case False
  have x: "unat (drop_bit (2 ^ i) v) = N div 2 ^ (l + 2 ^ i)"
    by (simp only: unat_drop_bit_word assms(2) power_add div_mult2_eq)
  moreover have "unat (drop_bit (2 ^ i) v) \<noteq> 0" using unat_pos [OF False] by simp
  ultimately have "2 ^ (l + 2 ^ i) \<le> N" by (simp only: div_eq_0_iff) simp
  moreover have "unat (drop_bit (2 ^ i) v) < 2 ^ 2 ^ i"
  proof -
    have "unat v < 2 ^ 2 ^ i * 2 ^ 2 ^ i" using assms(3) by (simp add: mult_2 power_add)
    then show ?thesis by (simp only: unat_drop_bit_word less_mult_imp_div_less)
  qed
  ultimately show ?thesis using assms(4) False x by (intro exI [of _ "l + 2 ^ i"]) auto
qed

lemma Log2Floor32_Portable_bounds:
  assumes "n \<noteq> 0"
  shows "\<exists>k. Log2Floor32_Portable n = int k \<and> 2 ^ k \<le> unat n \<and> unat n < 2 ^ Suc k"
proof -
  obtain v4 l4 where s4: "Log2Floor32_step 4 (n, int 0) = (v4, l4)" by fastforce
  have "1 \<le> unat n" using unat_pos [OF assms] by simp
  then obtain m4 where m4: "l4 = int m4" "2 ^ m4 \<le> unat n" "unat v4 = unat n div 2 ^ m4" "unat v4 < 2 ^ 2 ^ 4"
    using Log2Floor32_step_inv [OF _ _ _ s4, of "unat n"] unat_bound [of n] by auto
  obtain v3 l3 where s3: "Log2Floor32_step 3 (v4, int m4) = (v3, l3)" by fastforce
  obtain m3 where m3: "l3 = int m3" "2 ^ m3 \<le> unat n" "unat v3 = unat n div 2 ^ m3" "unat v3 < 2 ^ 2 ^ 3"
    using Log2Floor32_step_inv [OF m4(2,3) _ s3] m4(4) by auto
  obtain v2 l2 where s2: "Log2Floor32_step 2 (v3, int m3) = (v2, l2)" by fastforce
  obtain m2 where m2: "l2 = int m2" "2 ^ m2 \<le> unat n" "unat v2 = unat n div 2 ^ m2" "unat v2 < 2 ^ 2 ^ 2"
    using Log2Floor32_step_inv [OF m3(2,3) _ s2] m3(4) by auto
  obtain v1 l1 where s1: "Log2Floor32_step 1 (v2, int m2) = (v1, l1)" by fastforce
  obtain m1 where m1: "l1 = int m1" "2 ^ m1 \<le> unat n" "unat v1 = unat n div 2 ^ m1" "unat v1 < 2 ^ 2 ^ 1"
    using Log2Floor32_step_inv [OF m2(2,3) _ s1] m2(4) by auto
  obtain v0 l0 where s0: "Log2Floor32_step 0 (v1, int m1) = (v0, l0)" by fastforce
  obtain m0 where m0: "l0 = int m0" "2 ^ m0 \<le> unat n" "unat v0 = unat n div 2 ^ m0" "unat v0 < 2 ^ 2 ^ 0"
    using Log2Floor32_step_inv [OF m1(2,3) _ s0] m1(4) by auto
  have "unat n < 2 ^ Suc m0"
    using m0(3,4) by (simp add: div_less_iff_less_mult)
  moreover have "Log2Floor32_Portable n = int m0"
    using assms s4 s3 s2 s1 s0 m4 m3 m2 m1 m0
    by (simp add: Log2Floor32_Portable_def del: Log2Floor32_step.simps)
  ultimately show ?thesis using m0(2) by blast
qed

lemma Log2Floor64_Portable_eq: "Log2Floor64_Portable n = Log2Floor64 n"
proof (cases "n = 0")
  case True
  then show ?thesis
    by (simp add: Log2Floor64_Portable_def Log2Floor64_def Log2Floor32_Portable_def)
next
  case False
  let ?t = "ucast (drop_bit 32 n) :: u32"
  have t: "unat ?t = unat n div 2 ^ 32"
  proof -
    have "unat n div 2 ^ 32 < 2 ^ 32" using unat_bound [of n] by simp
    then show ?thesis
      by (simp only: unsigned_ucast_eq unat_drop_bit_word) (simp add: take_bit_nat_eq_self)
  qed
  show ?thesis
  proof (cases "?t = 0")
    case True
    then have "unat n < 2 ^ 32" using t by (simp add: div_eq_0_iff)
    then have n: "unat (ucast n :: u32) = unat n" by (simp add: unsigned_ucast_eq take_bit_nat_eq_self)
    with False have "(ucast n :: u32) \<noteq> 0" by (metis unsigned_0 unsigned_eq_0_iff)
    from Log2Floor32_Portable_bounds [OF this] obtain k where
      "Log2Floor32_Portable (ucast n) = int k" "2 ^ k \<le> unat n" "unat n < 2 ^ Suc k" by (auto simp: n)
    with True show ?thesis using Log2Floor64_eq [of k n] by (simp add: Log2Floor64_Portable_def)
  next
    case top: False
    from Log2Floor32_Portable_bounds [OF this] obtain k where
      k: "Log2Floor32_Portable ?t = int k" "2 ^ k \<le> unat n div 2 ^ 32" "unat n div 2 ^ 32 < 2 ^ Suc k"
      by (auto simp: t)
    have "2 ^ (32 + k) \<le> unat n"
      using k(2) by (simp add: power_add less_eq_div_iff_mult_less_eq mult.commute)
    moreover have "unat n < 2 ^ Suc (32 + k)"
      using k(3) by (simp add: div_less_iff_less_mult power_add mult.commute)
    ultimately have "Log2Floor64 n = int (32 + k)" by (rule Log2Floor64_eq)
    with top k(1) show ?thesis by (simp add: Log2Floor64_Portable_def)
  qed
qed

section \<open>The signed format\<close>

text \<open>The header of an encoding of \<open>n\<close> bytes: its \<open>n\<close> highest bits set.\<close>

definition header :: "nat \<Rightarrow> nat" where
  "header n = (2 ^ n - 1) * 2 ^ (7 * n)"

lemma be_bytes_numeral [simp]:
  "be_bytes (numeral k) N = be_bytes (pred_numeral k) (N div 256) @ [of_nat N]"
  by (simp only: numeral_eq_Suc [of k] be_bytes.simps)

lemma replicate_numeral: "replicate (numeral k) x = x # replicate (pred_numeral k) x"
  by (simp only: numeral_eq_Suc [of k] replicate.simps)

lemma upto_10: "1 \<le> n \<Longrightarrow> n \<le> 10 \<Longrightarrow> n \<in> {Suc 0, 2, 3, 4, 5, 6, 7, 8, 9, 10}"
  by simp presburger

lemma header_bytes:
  assumes "2 \<le> n" "n \<le> 10"
  shows "be_bytes n (header n) =
    fst (kLengthToHeaderBits ! n) # snd (kLengthToHeaderBits ! n) # replicate (n - 2) 0"
proof -
  have "1 \<le> n" using assms by simp
  from upto_10 [OF this assms(2)] assms(1) show ?thesis
    by (elim insertE emptyE) (simp_all add: header_def kLengthToHeaderBits_def replicate_numeral)
qed

lemma header_mask:
  assumes "1 \<le> n" "n \<le> 10"
  shows "kLengthToMask ! n = of_nat (header n)"
  using upto_10 [OF assms] by (elim insertE emptyE) (simp_all add: header_def kLengthToMask_def)

lemma bit_header: "bit (header n) k \<longleftrightarrow> 7 * n \<le> k \<and> k < 8 * n"
proof -
  have "header n = push_bit (7 * n) (mask n)"
    by (simp add: header_def push_bit_eq_mult mask_eq_exp_minus_1)
  then show ?thesis by (auto simp: bit_simps)
qed

lemma bit_nat_less: "bit (v :: nat) k \<Longrightarrow> v < 2 ^ m \<Longrightarrow> k < m"
  by (metis bit_take_bit_iff take_bit_nat_eq_self)

lemma xor_header:
  assumes "v < 2 ^ (7 * n)"
  shows "v XOR header n = v + header n"
proof -
  have d: "\<not> bit v k \<or> \<not> bit (header n) k" for k
    using bit_nat_less [OF _ assms, of k] by (auto simp: bit_header)
  then have "v + header n = v OR header n" by (rule disjunctive_add)
  also have "\<dots> = v XOR header n" by (rule bit_eqI) (use d in \<open>auto simp: bit_simps\<close>)
  finally show ?thesis by simp
qed

lemma of_nat_xor: "(of_nat (a XOR b) :: 'a::len word) = of_nat a XOR of_nat b"
  by (rule bit_word_eqI) (simp add: bit_simps)

lemma be_bytes_xor: "be_bytes n (a XOR b) = map2 (XOR) (be_bytes n a) (be_bytes n b)"
proof (induction n arbitrary: a b)
  case 0
  then show ?case by simp
next
  case (Suc n)
  have "(a XOR b) div 256 = a div 256 XOR b div 256"
    using drop_bit_xor [of 8 a b] by (simp add: drop_bit_eq_div)
  with Suc show ?case by (simp add: of_nat_xor)
qed

text \<open>The length in bytes, from the length in bits.\<close>

lemma kBitsToLength_eq: "k < 64 \<Longrightarrow> kBitsToLength ! k = k div 7 + 1"
proof -
  have "\<forall>k \<in> set [0..<64]. kBitsToLength ! k = k div 7 + 1" by code_simp
  then show "k < 64 \<Longrightarrow> ?thesis" by simp
qed

lemma SignedEncodingLength_bounds:
  assumes "\<not> bit x 63"
  defines "n \<equiv> SignedEncodingLength (Int64 x)"
  shows "1 \<le> n \<and> n \<le> 10 \<and> unat x < 2 ^ (7 * n - 1) \<and> (2 \<le> n \<longrightarrow> 2 ^ (7 * (n - 1) - 1) \<le> unat x)"
proof (cases "x = 0")
  case True
  then show ?thesis
    by (simp add: n_def SignedEncodingLength_def int64_neg_def Log2Floor64_def kBitsToLength_def)
next
  case False
  then obtain k where k: "k < 64" "Log2Floor64 x = int k" "2 ^ k \<le> unat x" "unat x < 2 ^ Suc k"
    using Log2Floor64_bounds by blast
  have "unat x < 2 ^ 63"
  proof -
    have "take_bit 63 x = x"
      by (rule bit_word_eqI) (use assms(1) in \<open>auto simp: bit_simps less_Suc_eq eval_nat_numeral\<close>)
    then have "take_bit 63 (unat x) = unat x" by (metis unsigned_take_bit_eq)
    then show ?thesis by (metis take_bit_nat_less_exp)
  qed
  then have "(2 :: nat) ^ k < 2 ^ 63" using k(3) by linarith
  then have "k < 63" by (rule power_less_imp_less_exp [rotated]) simp
  have "nat (int k + 1) = Suc k" by simp
  then have n: "n = Suc k div 7 + 1"
    using assms(1) k(2) \<open>k < 63\<close>
    by (simp add: n_def SignedEncodingLength_def int64_neg_def kBitsToLength_eq)
  have "Suc k \<le> 7 * n - 1" unfolding n by presburger
  then have "unat x < 2 ^ (7 * n - 1)" using k(4) power_increasing [of "Suc k" "7 * n - 1" "2::nat"] by simp
  moreover have "2 ^ (7 * (n - 1) - 1) \<le> unat x" if "2 \<le> n"
  proof -
    have "7 * (n - 1) - 1 \<le> k" unfolding n by simp
    then show ?thesis by (rule order_trans [OF power_increasing k(3)]) simp
  qed
  ultimately show ?thesis using \<open>k < 63\<close> by (auto simp: n)
qed

lemma unat_int64_small:
  assumes "\<not> bit x 63"
  shows "unat (x :: u64) < 2 ^ 63"
proof -
  have "take_bit 63 x = x"
    by (rule bit_word_eqI) (use assms in \<open>auto simp: bit_simps less_Suc_eq eval_nat_numeral\<close>)
  then have "take_bit 63 (unat x) = unat x" by (metis unsigned_take_bit_eq)
  then show ?thesis by (metis take_bit_nat_less_exp)
qed

lemma be_bytes_10: "[0, 0] @ StoreBigEndian64 x = be_bytes 10 (unat x)"
proof (rule nth_equalityI)
  fix i assume "i < length ([0, 0] @ StoreBigEndian64 x)"
  then have i: "i < 10" by (simp add: StoreBigEndian64_def)
  show "([0, 0] @ StoreBigEndian64 x) ! i = be_bytes 10 (unat x) ! i"
  proof (cases "i < 2")
    case True
    then have "(256 :: nat) ^ 8 \<le> 256 ^ (9 - i)" by (intro power_increasing) auto
    then have "unat x div 256 ^ (9 - i) = 0" using unat_bound [of x] by (simp add: div_eq_0_iff)
    with True i show ?thesis
      by (simp add: be_bytes_nth nth_append del: be_bytes_numeral) (simp add: nth_Cons')
  next
    case False
    let ?k = "56 - 8 * (i - 2)"
    have "(256 :: nat) ^ (9 - i) = 2 ^ ?k"
    proof -
      have "?k = 8 * (9 - i)" using i False by simp
      then show ?thesis by (simp add: power_mult)
    qed
    moreover have "(of_nat (unat x div 2 ^ ?k) :: byte) = ucast (drop_bit ?k x)"
      by (simp only: unat_drop_bit_word [symmetric]) (rule bit_word_eqI, simp add: bit_simps)
    moreover have "StoreBigEndian64 x ! (i - 2) = ucast (drop_bit ?k x)"
      unfolding StoreBigEndian64_def using i False by (subst nth_map) simp_all
    moreover have "([0, 0] @ StoreBigEndian64 x) ! i = StoreBigEndian64 x ! (i - 2)"
      using False by (simp add: nth_append numeral_2_eq_2)
    ultimately show ?thesis
      using i by (simp add: be_bytes_nth del: be_bytes_numeral append.simps)
  qed
qed (simp add: StoreBigEndian64_def)

text \<open>A non-negative number is its value with the header above it, in big-endian order.\<close>

lemma WriteSigned_nonneg:
  assumes "\<not> bit x 63"
  defines "n \<equiv> SignedEncodingLength (Int64 x)"
  shows "WriteSignedNumIncreasing dest (Int64 x) = dest @ be_bytes n (unat x XOR header n)"
proof (cases "x < 64")
  case True
  then have x: "unat x < 64" by (simp add: word_less_nat_alt)
  have "n = 1"
  proof (rule ccontr)
    assume "n \<noteq> 1"
    then have "2 \<le> n" "2 ^ (7 * (n - 1) - 1) \<le> unat x"
      using SignedEncodingLength_bounds [OF assms(1)] by (auto simp: n_def)
    moreover have "(2 :: nat) ^ 6 \<le> 2 ^ (7 * (n - 1) - 1)" using \<open>2 \<le> n\<close> by (intro power_increasing) auto
    ultimately show False using x by simp
  qed
  moreover have "ucast (ucast (0x80 :: byte) XOR x) = (of_nat (unat x XOR 128) :: byte)"
    by (simp add: of_nat_xor) (rule bit_word_eqI, auto simp: bit_simps word_bits)
  ultimately show ?thesis
    using True assms(1)
    by (simp add: WriteSignedNumIncreasing_def int64_neg_def kLengthToHeaderBits_def header_def)
next
  case False
  then have x: "64 \<le> unat x" by (simp add: word_less_nat_alt)
  have n: "n \<le> 10" "1 \<le> n" "unat x < 2 ^ (7 * n - 1)"
    using SignedEncodingLength_bounds [OF assms(1)] by (auto simp: n_def)
  have n2: "2 \<le> n"
  proof (rule ccontr)
    assume "\<not> 2 \<le> n"
    then have "n = 1" using n by simp
    with n x show False by simp
  qed
  let ?b = "be_bytes n (unat x)" and ?h = "kLengthToHeaderBits ! n"
  have d: "drop (10 - n) ([0, 0] @ StoreBigEndian64 x) = ?b"
    unfolding be_bytes_10 by (rule be_bytes_drop [OF n(1)])
  obtain a b r where abr: "?b = a # b # r" "length r = n - 2"
  proof -
    from n2 have "length ?b = Suc (Suc (n - 2))" by simp
    then show ?thesis using that by (auto simp: length_Suc_conv simp del: length_be_bytes)
  qed
  have "map2 (XOR) r (replicate (n - 2) 0) = r"
    unfolding abr(2) [symmetric] by (induction r) simp_all
  then have "be_bytes n (unat x XOR header n) = (a XOR fst ?h) # (b XOR snd ?h) # r"
    by (simp add: be_bytes_xor header_bytes [OF n2 n(1)] abr)
  moreover have "WriteSignedNumIncreasing dest (Int64 x) =
      dest @ (?b ! 0 XOR fst ?h) # (?b ! 1 XOR snd ?h) # drop 2 ?b"
    using False assms(1) d
    by (simp only: WriteSignedNumIncreasing_def int64_neg_def Let_def n_def int64.sel if_False)
  ultimately show ?thesis by (simp add: abr)
qed

text \<open>A negative number is the inverted encoding of its complement.\<close>

lemma WriteSigned_neg:
  assumes "\<not> bit x 63"
  shows "WriteSignedNumIncreasing [] (Int64 (NOT x)) = map NOT (WriteSignedNumIncreasing [] (Int64 x))"
proof -
  let ?n = "SignedEncodingLength (Int64 x)"
  let ?buf = "[0, 0] @ StoreBigEndian64 x"
  have neg: "int64_neg (Int64 (NOT x))" "\<not> int64_neg (Int64 x)"
    using assms by (simp_all add: int64_neg_def bit_simps)
  have st: "[255, 255] @ StoreBigEndian64 (NOT x) = map NOT ?buf"
  proof -
    have "ucast (drop_bit k (NOT x) AND 255) = NOT (ucast (drop_bit k x AND 255) :: byte)" if "k \<le> 56" for k
      by (rule bit_word_eqI) (use that in \<open>auto simp: bit_simps word_bits\<close>)
    then show ?thesis by (simp add: StoreBigEndian64_def)
  qed
  have xn: "NOT a XOR h = NOT (a XOR h)" for a h :: byte
    by (rule bit_word_eqI) (simp add: bit_simps)
  show ?thesis
  proof (cases "x < 64")
    case True
    have "ucast (ucast (0x80 :: byte) XOR NOT x) = NOT (ucast (ucast (0x80 :: byte) XOR x) :: byte)"
      by (rule bit_word_eqI) (simp add: bit_simps)
    with True neg show ?thesis
      by (simp add: WriteSignedNumIncreasing_def kLengthToHeaderBits_def)
  next
    case False
    have n: "?n \<le> 10" "1 \<le> ?n" "unat x < 2 ^ (7 * ?n - 1)"
      using SignedEncodingLength_bounds [OF assms] by auto
    have "?n \<noteq> 1" using n False by (auto simp: word_less_nat_alt)
    then have len: "2 \<le> length (drop (10 - ?n) ?buf)" using n by (simp add: StoreBigEndian64_def)
    define B where "B = drop (10 - ?n) ?buf"
    have B: "drop (10 - ?n) ([255, 255] @ StoreBigEndian64 (NOT x)) = map NOT B"
      by (simp only: st drop_map B_def)
    let ?h = "kLengthToHeaderBits ! ?n"
    have "WriteSignedNumIncreasing [] (Int64 (NOT x)) =
        (map NOT B ! 0 XOR fst ?h) # (map NOT B ! 1 XOR snd ?h) # drop 2 (map NOT B)"
      using False neg B by (simp only: WriteSignedNumIncreasing_def Let_def int64.sel if_True if_False
          bit.double_compl append_Nil)
    moreover have "WriteSignedNumIncreasing [] (Int64 x) =
        (B ! 0 XOR fst ?h) # (B ! 1 XOR snd ?h) # drop 2 B"
      using False neg by (simp only: WriteSignedNumIncreasing_def Let_def int64.sel if_False B_def append_Nil)
    moreover have "2 \<le> length B" using len by (simp only: B_def)
    then obtain a b r where "B = a # b # r" by (metis Suc_le_length_iff numeral_2_eq_2)
    ultimately show ?thesis by (simp add: xn)
  qed
qed

section \<open>Reading signed numbers\<close>

lemma LoadBigEndian64_bytes: "8 \<le> length src \<Longrightarrow> LoadBigEndian64 src = of_nat (be_value (take 8 src))"
proof -
  assume len: "8 \<le> length src"
  have "take 8 src = [src ! 0, src ! 1, src ! 2, src ! 3, src ! 4, src ! 5, src ! 6, src ! 7]"
    using len take_nth_lists [of "take 8 src" 8] by (simp add: upt_lists)
  moreover have "LoadBigEndian64 src =
      foldl (\<lambda>x c. push_bit 8 x OR ucast c) 0
        [src ! 0, src ! 1, src ! 2, src ! 3, src ! 4, src ! 5, src ! 6, src ! 7]"
    by (simp add: LoadBigEndian64_def upt_lists push_bit_or or.assoc)
  ultimately show ?thesis by (simp only: foldl_shift_in_value)
qed

lemma foldl_from: "foldl (\<lambda>t b. 256 * t + unat b) a (ys :: bytes) = a * 256 ^ length ys + be_value ys"
  unfolding be_value_def
  by (induction ys rule: rev_induct) (simp_all add: algebra_simps)

lemma be_bytes_mod: "be_bytes n (N mod 256 ^ n) = be_bytes n N"
proof (induction n arbitrary: N)
  case (Suc n)
  have "N mod 256 ^ Suc n div 256 = N div 256 mod 256 ^ n"
    by (simp add: mod_mult2_eq)
  moreover have "(of_nat (N mod 256 ^ Suc n) :: byte) = of_nat N"
    by (simp only: word_unat_eq_iff unat_of_nat_byte) (simp add: mod_mult2_eq)
  ultimately show ?case using Suc.IH [of "N div 256"] by (simp del: power_Suc of_nat_mod)
qed simp

lemma Load_be_bytes: "LoadBigEndian64 (be_bytes 8 N @ rest) = of_nat N"
proof -
  let ?M = "N mod 256 ^ 8"
  have "LoadBigEndian64 (be_bytes 8 ?M @ rest) = of_nat ?M"
    by (subst LoadBigEndian64_bytes) (simp_all add: be_value_be_bytes del: be_bytes_numeral)
  moreover have "(of_nat ?M :: u64) = of_nat N" by (simp add: word_unat_eq_iff unat_of_nat)
  ultimately show ?thesis by (simp only: be_bytes_mod)
qed

lemma bit_7_byte: "bit (b :: byte) 7 \<longleftrightarrow> 128 \<le> unat b"
proof -
  have "bit b 7 \<longleftrightarrow> bit (unat b) 7" by (simp add: bit_unsigned_iff)
  then have "bit b 7 \<longleftrightarrow> odd (unat b div 128)" by (simp add: bit_iff_odd)
  moreover have "unat b < 256" using unat_bound [of b] by simp
  moreover have "unat b div 128 = (if 128 \<le> unat b then 1 else 0)"
    using \<open>unat b < 256\<close> by (simp add: div_nat_eqI)
  ultimately show ?thesis by simp
qed

lemma unat_ucast_byte_64: "unat (ucast (b :: byte) :: u64) = unat b"
  by simp

lemma header_first_byte:
  assumes "1 \<le> n" "n \<le> 7" "v < 2 ^ (7 * n - 1)"
  shows "256 - 2 ^ (8 - n) \<le> (v + header n) div 256 ^ (n - 1) \<and>
    (v + header n) div 256 ^ (n - 1) < 256 - 2 ^ (7 - n)"
proof -
  have "n \<le> 10" using assms(2) by simp
  from upto_10 [OF assms(1) this] assms(2,3) show ?thesis
    by (elim insertE emptyE)
      (simp_all add: header_def div_less_iff_less_mult less_eq_div_iff_mult_less_eq)
qed

lemma header_bound: "1 \<le> n \<Longrightarrow> v < 2 ^ (7 * n - 1) \<Longrightarrow> v + header n < 256 ^ n - 2 ^ (7 * n - 1)"
proof -
  assume "1 \<le> n" and v: "v < 2 ^ (7 * n - 1)"
  then have p: "(2 :: nat) ^ (7 * n) = 2 * 2 ^ (7 * n - 1)"
    using power_Suc [of "2 :: nat" "7 * n - 1"] by (simp del: power_Suc)
  define Q :: nat where "Q = 2 ^ n * 2 ^ (7 * n)"
  define A :: nat where "A = 2 ^ (7 * n - 1)"
  have "(256 :: nat) ^ n = Q"
    by (simp add: Q_def power_mult power_mult_distrib [symmetric])
  moreover have "1 * 2 ^ (7 * n) \<le> Q" unfolding Q_def by (rule mult_right_mono) simp_all
  moreover have "header n = Q - 2 * A" by (simp only: header_def Q_def A_def p [symmetric] diff_mult_distrib mult_1)
  moreover have "v < A" "2 ^ (7 * n) = 2 * A" using v p by (simp_all add: A_def)
  ultimately have "v + header n < 256 ^ n - A" by linarith
  then show ?thesis by (simp add: A_def)
qed

lemma xor_header_cancel: "(of_nat (v XOR header n) :: u64) XOR of_nat (header n) = of_nat v"
  by (simp add: of_nat_xor xor.assoc)

lemma ReadSigned_long:
  assumes "src ! 0 = 255" "8 \<le> length src"
  shows "ReadSignedNumIncreasing src =
    (if src ! 1 < 128 then Some (Int64 (LoadBigEndian64 src XOR kLengthToMask ! 8), drop 8 src)
     else if src ! 1 < 192 then
       (if length src < 9 then None
        else Some (Int64 (LoadBigEndian64 (drop 1 src) XOR kLengthToMask ! 9), drop 9 src))
     else if src ! 1 = 192 \<and> src ! 2 < 128 then
       (if length src < 10 then None
        else Some (Int64 (LoadBigEndian64 (drop 2 src) XOR kLengthToMask ! 10), drop 10 src))
     else None)"
proof -
  have "src = 255 # tl src" using assms by (cases src) auto
  then obtain cs where "src = 255 # cs" by blast
  with assms show ?thesis
    by (auto simp: ReadSignedNumIncreasing_def Let_def not_le not_less)
qed

lemma ReadSigned_nonneg:
  assumes n: "1 \<le> n" "n \<le> 10" and v: "v < 2 ^ (7 * n - 1)" "v < 2 ^ 63"
  shows "ReadSignedNumIncreasing (be_bytes n (v XOR header n) @ rest) = Some (Int64 (of_nat v), rest)"
proof -
  have "(2 :: nat) ^ (7 * n - 1) \<le> 2 ^ (7 * n)" by (rule power_increasing) simp_all
  then have N: "v XOR header n = v + header n" using v by (intro xor_header) linarith
  define N where "N = v XOR header n"
  have NN: "N = v + header n" by (simp only: N_def N)
  have N_bound: "N < 256 ^ n" using header_bound [OF n(1) v(1)] by (simp add: N_def N)
  obtain c cs where c: "be_bytes n N = c # cs" "length cs = n - 1"
    using n(1) length_be_bytes [of n N] by (cases "be_bytes n N") auto
  have c0: "c = of_nat (N div 256 ^ (n - 1))"
    using be_bytes_nth [of 0 n N] n by (simp add: c)
  show ?thesis
  proof (cases "n \<le> 7")
    case True
    let ?d = "N div 256 ^ (n - 1)"
    have d: "256 - 2 ^ (8 - n) \<le> ?d" "?d < 256 - 2 ^ (7 - n)"
      using header_first_byte [OF n(1) True v(1)] by (simp_all add: N_def N)
    have p: "(2 :: nat) ^ (8 - n) = 2 * 2 ^ (7 - n)" using True by (simp add: Suc_diff_le flip: power_Suc)
    have w: "(2 :: nat) ^ (7 - n) \<le> 64" using n power_increasing [of "7 - n" 6 "2 :: nat"] by simp
    have uc: "unat c = ?d" using d by (simp add: c0 unat_of_nat_byte)
    have "128 \<le> unat c" using d w uc p by linarith
    then have top: "c AND 128 \<noteq> 0" by (simp add: and_128_zero_iff bit_7_byte)
    have nc: "c XOR 255 = NOT c" by (rule bit_word_eqI) (simp add: bit_simps word_bits)
    have lg: "Log2Floor64 (ucast (NOT c)) = int (7 - n)"
    proof (rule Log2Floor64_eq)
      show "2 ^ (7 - n) \<le> unat (ucast (NOT c) :: u64)" "unat (ucast (NOT c) :: u64) < 2 ^ Suc (7 - n)"
        using d uc p w by (simp_all only: unat_ucast_byte_64 unat_not_byte power_Suc) linarith+
    qed
    have "c \<noteq> 255"
    proof
      assume "c = 255"
      then have "unat c = 255" by simp
      moreover have "(1 :: nat) \<le> 2 ^ (7 - n)" by simp
      ultimately show False using d uc by linarith
    qed
    have "nat (7 - int (7 - n)) = n" using True by simp
    moreover have "take n (c # cs @ rest) = c # cs" "drop n (c # cs @ rest) = rest"
      using c n by (simp_all add: take_Cons' drop_Cons')
    moreover have "of_nat N XOR of_nat (header n) = (of_nat v :: u64)" by (simp only: N_def xor_header_cancel)
    moreover have "be_value (c # cs) = N" using be_value_be_bytes [OF N_bound] by (simp add: c)
    ultimately show ?thesis
      using top \<open>c \<noteq> 255\<close> n lg
      by (simp add: ReadSignedNumIncreasing_def Let_def c nc header_mask foldl_shift_in_value
          foldl_shift_in_value [of "c # cs", simplified] xor_header_cancel flip: N_def)
  next
    case False
    have m: "kLengthToMask ! n = of_nat (header n)" by (rule header_mask [OF n])
    define src where "src = be_bytes n N @ rest"
    have nth: "unat (src ! i) = N div 256 ^ (n - 1 - i) mod 256" if "i < n" for i
      using that by (simp add: src_def nth_append be_bytes_nth unat_of_nat_byte)
    have low: "(a + b) mod 256 = (a + b mod 256) mod (256 :: nat)" for a b
      by (simp add: mod_add_right_eq)
    have load: "LoadBigEndian64 (drop (n - 8) src) = of_nat N"
      using False be_bytes_drop [of 8 n N] Load_be_bytes [of N rest]
      by (simp add: src_def del: be_bytes_numeral)
    have src: "length src = n + length rest" "drop n src = rest" by (simp_all add: src_def)
    from False n(2) consider "n = 8" | "n = 9" | "n = 10" by linarith
    then have "ReadSignedNumIncreasing src = Some (Int64 (of_nat N XOR of_nat (header n)), rest)"
    proof cases
      case 1
      have "N div 72057594037927936 = 255" "N div 281474976710656 = v div 281474976710656 + 65280"
        using v by (simp_all add: NN 1 header_def div_nat_eqI)
      moreover have "v div 281474976710656 < 128" using v by (simp add: 1 div_less_iff_less_mult)
      ultimately have "src ! 0 = 255" "src ! 1 < 128"
        using nth [of 0] nth [of 1] low [of _ 65280] by (simp_all add: 1 word_less_nat_alt word_unat_eq_iff)
      with ReadSigned_long [of src] src load m show ?thesis by (simp add: 1)
    next
      case 2
      have "N div 18446744073709551616 = 255" "N div 72057594037927936 = v div 72057594037927936 + 65408"
        using v by (simp_all add: NN 2 header_def div_nat_eqI)
      moreover have "v div 72057594037927936 < 64" using v by (simp add: 2 div_less_iff_less_mult)
      ultimately have "src ! 0 = 255" "\<not> src ! 1 < 128" "src ! 1 < 192"
        using nth [of 0] nth [of 1] low [of _ 65408] by (simp_all add: 2 word_less_nat_alt word_unat_eq_iff)
      with ReadSigned_long [of src] src load m show ?thesis by (simp add: 2)
    next
      case 3
      have "N div 4722366482869645213696 = 255" "N div 18446744073709551616 = 65472"
        "N div 72057594037927936 = v div 72057594037927936 + 16760832"
        using v by (simp_all add: NN 3 header_def div_nat_eqI)
      moreover have "v div 72057594037927936 < 128" using v by (simp add: 3 div_less_iff_less_mult)
      ultimately have "src ! 0 = 255" "src ! 1 = 192" "src ! 2 < 128"
        using nth [of 0] nth [of 1] nth [of 2] low [of _ 16760832]
        by (simp_all add: 3 word_less_nat_alt word_unat_eq_iff)
      with ReadSigned_long [of src] src load m show ?thesis by (simp add: 3)
    qed
    then show ?thesis by (simp only: src_def N_def xor_header_cancel)
  qed
qed

end
