(* ===== verification/OrderedKeys.thy ===== *)
theory OrderedKeys
  imports SignedCode
begin

unbundle bit_operations_syntax

text \<open>
  The order of the signed numbers of \<^verbatim>\<open>core/lib/strings/ordered_code.cc\<close>, the three encodings as
  instances of one interface, and keys that put several of them in a row.
\<close>

section \<open>Negative numbers\<close>

text \<open>Inverting the bytes inverts the number read.\<close>

lemma foldl_shift_not:
  "foldl (\<lambda>x c. push_bit 8 x OR ucast c) (NOT a) (map NOT bs) =
     NOT (foldl (\<lambda>x c. push_bit 8 x OR ucast (c :: byte)) (a :: u64) bs)"
proof (induction bs arbitrary: a)
  case (Cons b bs)
  have "push_bit 8 (NOT a) OR ucast (NOT b) = NOT (push_bit 8 a OR ucast b)"
    by (rule bit_word_eqI) (auto simp: bit_simps dest: bit_imp_le_length)
  with Cons.IH show ?case by (simp del: bit.de_Morgan_disj)
qed simp

lemma of_nat_unat_64: "of_nat (unat w) = (w :: u64)"
  by simp

lemma LoadBigEndian64_not: "8 \<le> length src \<Longrightarrow> LoadBigEndian64 (map NOT src) = NOT (LoadBigEndian64 src)"
proof -
  assume len: "8 \<le> length src"
  let ?sh = "foldl (\<lambda>x c. push_bit 8 x OR ucast (c :: byte)) :: u64 \<Rightarrow> _"
  have any: "?sh (of_nat t) bs = ?sh 0 bs" if "length bs = 8" for t bs
    using that by (simp only: foldl_shift_in foldl_shift_in_value foldl_from)
      (simp only: word_unat_eq_iff unat_of_nat, simp)
  have "?sh 0 (map NOT (take 8 src)) = ?sh (NOT 0) (map NOT (take 8 src))"
    using any [of "map NOT (take 8 src)" "unat (NOT 0 :: u64)"] len
    by (simp only: of_nat_unat_64 length_map length_take)
  also have "\<dots> = NOT (?sh 0 (take 8 src))" by (rule foldl_shift_not)
  finally show ?thesis
    using len by (simp add: LoadBigEndian64_bytes take_map flip: foldl_shift_in_value)
qed

lemma byte_xor_255: "b XOR 255 = NOT (b :: byte)"
  by (rule bit_word_eqI) (simp add: bit_simps word_bits)

lemma ucast_minus_1: "(ucast (- 1 :: u64) :: byte) = 255"
  by (rule bit_word_eqI) (simp add: bit_simps word_bits)

lemma byte_not_255: "NOT (b :: byte) = 255 \<longleftrightarrow> b = 0"
  by (metis bit.double_compl byte_xor_255 xor.left_neutral)

lemma ReadSigned_short:
  assumes "bit c 7" "c \<noteq> 255"
  defines "len \<equiv> nat (7 - Log2Floor64 (ucast (NOT c)))"
  shows "ReadSignedNumIncreasing (c # cs) =
    (if Suc (length cs) < len then None
     else Some (Int64 (foldl (\<lambda>x c. push_bit 8 x OR ucast c) 0 (take len (c # cs)) XOR kLengthToMask ! len),
       drop len (c # cs)))"
  using assms(1,2)
  by (simp add: ReadSignedNumIncreasing_def Let_def and_128_zero_iff byte_xor_255 len_def)

lemma ReadSigned_short_neg:
  assumes "\<not> bit c 7" "c \<noteq> 0"
  defines "len \<equiv> nat (7 - Log2Floor64 (ucast c))"
  shows "ReadSignedNumIncreasing (c # cs) =
    (if Suc (length cs) < len then None
     else Some (Int64 (foldl (\<lambda>x c. push_bit 8 x OR ucast c) (- 1) (take len (c # cs)) XOR kLengthToMask ! len),
       drop len (c # cs)))"
  using assms(1,2)
  by (simp add: ReadSignedNumIncreasing_def Let_def and_128_zero_iff byte_xor_255 ucast_minus_1 byte_not_255 len_def)

lemma ReadSigned_long_neg:
  assumes "src ! 0 = 0" "8 \<le> length src"
  shows "ReadSignedNumIncreasing src =
    (if NOT (src ! 1) < 128 then Some (Int64 (LoadBigEndian64 src XOR kLengthToMask ! 8), drop 8 src)
     else if NOT (src ! 1) < 192 then
       (if length src < 9 then None
        else Some (Int64 (LoadBigEndian64 (drop 1 src) XOR kLengthToMask ! 9), drop 9 src))
     else if NOT (src ! 1) = 192 \<and> NOT (src ! 2) < 128 then
       (if length src < 10 then None
        else Some (Int64 (LoadBigEndian64 (drop 2 src) XOR kLengthToMask ! 10), drop 10 src))
     else None)"
proof -
  obtain cs where "src = 0 # cs" using assms by (cases src) auto
  with assms show ?thesis
    by (auto simp: ReadSignedNumIncreasing_def Let_def not_le not_less byte_xor_255 ucast_minus_1)
qed

lemma ReadSigned_not:
  assumes "src \<noteq> []" "bit (hd src) 7"
  shows "ReadSignedNumIncreasing (map NOT src) =
    map_option (\<lambda>(n, rest). (Int64 (NOT (bits n)), map NOT rest)) (ReadSignedNumIncreasing src)"
proof -
  from assms(1) obtain c cs where src: "src = c # cs" by (cases src) auto
  have c: "bit c 7" using assms(2) by (simp add: src)
  have nx: "NOT a XOR b = NOT (a XOR b)" for a b :: u64 by (rule bit_word_eqI) (simp add: bit_simps)
  have fn: "foldl (\<lambda>x c. push_bit 8 x OR ucast c) (- 1) (take n (NOT c # map NOT cs)) =
     NOT (foldl (\<lambda>x c. push_bit 8 x OR ucast (c :: byte)) (0 :: u64) (take n (c # cs)))" for n
    using foldl_shift_not [of 0 "take n (c # cs)"] take_map [of n NOT "c # cs"] by simp
  have dn: "drop n (NOT c # map NOT cs) = map NOT (drop n (c # cs))" for n
    using drop_map [of n NOT "c # cs"] by simp
  show ?thesis
  proof (cases "c = 255")
    case False
    then have "NOT c \<noteq> 0" using byte_not_255 [of "NOT c"] by simp
    with False c show ?thesis
      by (simp add: src ReadSigned_short ReadSigned_short_neg fn dn nx bit_simps)
  next
    case True
    show ?thesis
    proof (cases "8 \<le> length src")
      case False
      with True show ?thesis
        by (simp add: src ReadSignedNumIncreasing_def Let_def byte_xor_255 ucast_minus_1 not_le)
    next
      case len: True
      have "src ! 0 = 255" "map NOT src ! 0 = 0" using True by (simp_all add: src)
      with len show ?thesis
        by (simp add: ReadSigned_long ReadSigned_long_neg nx LoadBigEndian64_not drop_map)
    qed
  qed
qed

section \<open>The order of signed numbers\<close>

instantiation int64 :: linorder
begin

definition less_eq_int64 :: "int64 \<Rightarrow> int64 \<Rightarrow> bool" where
  "less_eq_int64 m n \<longleftrightarrow> sint (bits m) \<le> sint (bits n)"

definition less_int64 :: "int64 \<Rightarrow> int64 \<Rightarrow> bool" where
  "less_int64 m n \<longleftrightarrow> sint (bits m) < sint (bits n)"

instance
proof
  fix x y z :: int64
  show "(x < y) = (x \<le> y \<and> \<not> y \<le> x)" "x \<le> x" "x \<le> y \<or> y \<le> x"
    by (auto simp: less_eq_int64_def less_int64_def)
  show "x \<le> z" if "x \<le> y" "y \<le> z" using that by (simp add: less_eq_int64_def)
  assume "x \<le> y" and "y \<le> x"
  then show "x = y"
  proof (intro int64.expand)
    have "sint (bits x) = sint (bits y)"
      using \<open>x \<le> y\<close> \<open>y \<le> x\<close> by (simp add: less_eq_int64_def)
    then show "bits x = bits y" by (rule signed_word_eqI)
  qed
qed

end

lemma sint_nonneg: "\<not> bit (x :: u64) 63 \<Longrightarrow> sint x = int (unat x)"
proof -
  assume top: "\<not> bit x 63"
  have "int (unat x) < int (2 ^ 63)" using unat_int64_small [OF top] by (simp only: of_nat_less_iff)
  then have "take_bit 63 (uint x) = uint x" by (intro take_bit_int_eq_self) simp_all
  moreover have "sint x = take_bit 63 (uint x)"
    using top by (simp add: sint_uint signed_take_bit_eq_if_positive bit_uint_iff)
  ultimately show ?thesis by simp
qed

lemma sint_not: "sint (NOT x :: u64) = - 1 - sint x"
proof -
  have "sint (NOT x) = NOT (sint x)" by (rule bit_eqI) (auto simp: bit_simps min_def)
  then show ?thesis by (simp add: not_int_def)
qed

lemma int64_cases:
  obtains (pos) x where "n = Int64 x" "\<not> bit x 63" | (neg) x where "n = Int64 (NOT x)" "\<not> bit x 63"
proof (cases n)
  case (Int64 w)
  show thesis
  proof (cases "bit w 63")
    case True
    with Int64 show thesis by (intro neg [of "NOT w"]) (simp_all add: bit_simps)
  qed (use Int64 pos in simp)
qed

lemma header_top: "1 \<le> n \<Longrightarrow> 128 * 256 ^ (n - 1) \<le> header n"
proof (induction n rule: nat_induct_at_least)
  case base
  show ?case by (simp add: header_def)
next
  case (Suc n)
  have "256 * header n \<le> header (Suc n)"
  proof -
    have "(2 ^ n - 1) * 2 \<le> 2 ^ Suc n - (1 :: nat)" by simp
    then have "(2 ^ n - 1) * 2 * (2 ^ 7 * 2 ^ (7 * n)) \<le> (2 ^ Suc n - 1) * (2 ^ 7 * 2 ^ (7 * n) :: nat)"
      by (rule mult_right_mono) simp
    then show ?thesis by (simp add: header_def power_add algebra_simps)
  qed
  moreover have "256 ^ (Suc n - 1) = 256 * (256 :: nat) ^ (n - 1)" using Suc.hyps by (cases n) simp_all
  ultimately show ?case using Suc.IH by linarith
qed

lemma WriteSigned_top:
  assumes "\<not> bit x 63"
  shows "WriteSignedNumIncreasing [] (Int64 x) \<noteq> [] \<and> bit (hd (WriteSignedNumIncreasing [] (Int64 x))) 7"
proof -
  let ?n = "SignedEncodingLength (Int64 x)"
  have n: "1 \<le> ?n" "unat x < 2 ^ (7 * ?n - 1)" using SignedEncodingLength_bounds [OF assms] by auto
  have "(2 :: nat) ^ (7 * ?n - 1) \<le> 2 ^ (7 * ?n)" by (rule power_increasing) simp_all
  then have N: "unat x XOR header ?n = unat x + header ?n" using n by (intro xor_header) linarith
  let ?N = "unat x + header ?n"
  have b: "be_bytes ?n ?N \<noteq> []" using n(1) length_be_bytes [of ?n ?N] by (cases "be_bytes ?n ?N") auto
  have "?N < 256 ^ ?n" using header_bound [OF n] by linarith
  also have "(256 :: nat) ^ ?n = 256 * 256 ^ (?n - 1)" using n(1) by (simp flip: power_Suc)
  finally have "?N div 256 ^ (?n - 1) < 256" by (simp add: div_less_iff_less_mult)
  moreover have "128 \<le> ?N div 256 ^ (?n - 1)"
    using header_top [OF n(1)] by (simp add: less_eq_div_iff_mult_less_eq)
  moreover have "hd (be_bytes ?n ?N) = of_nat (?N div 256 ^ (?n - 1))"
    using b n(1) be_bytes_nth [of 0 ?n ?N] by (simp add: hd_conv_nth)
  ultimately show ?thesis
    using b by (simp add: WriteSigned_nonneg [OF assms] N bit_7_byte unat_of_nat_byte del: of_nat_add)
qed

lemma ReadSigned_enc: "ReadSignedNumIncreasing (WriteSignedNumIncreasing [] n @ rest) = Some (n, rest)"
proof -
  have nonneg: "ReadSignedNumIncreasing (WriteSignedNumIncreasing [] (Int64 x) @ r) = Some (Int64 x, r)"
    if "\<not> bit x 63" for x r
    using ReadSigned_nonneg [of "SignedEncodingLength (Int64 x)" "unat x" r]
      SignedEncodingLength_bounds [OF that] unat_int64_small [OF that]
    by (simp add: WriteSigned_nonneg [OF that])
  show ?thesis
  proof (cases n rule: int64_cases)
    case (pos x)
    with nonneg show ?thesis by simp
  next
    case (neg x)
    let ?src = "WriteSignedNumIncreasing [] (Int64 x) @ map NOT rest"
    have "WriteSignedNumIncreasing [] n @ rest = map NOT ?src"
      using neg by (simp add: WriteSigned_neg comp_def)
    moreover have "?src \<noteq> []" "bit (hd ?src) 7"
      using WriteSigned_top [OF neg(2)] by auto
    from ReadSigned_not [OF this]
    have "ReadSignedNumIncreasing (map NOT ?src) = Some (Int64 (NOT x), map NOT (map NOT rest))"
      by (simp only: nonneg [OF neg(2)] option.map prod.case int64.sel)
    ultimately show ?thesis using neg by (simp add: comp_def)
  qed
qed

lemma length_less:
  assumes "\<not> bit x 63" "\<not> bit y 63" "unat x \<le> unat y"
  shows "SignedEncodingLength (Int64 x) \<le> SignedEncodingLength (Int64 y)"
proof (rule ccontr)
  let ?m = "SignedEncodingLength (Int64 x)" and ?n = "SignedEncodingLength (Int64 y)"
  assume "\<not> ?m \<le> ?n"
  then have "?n \<le> ?m - 1" "2 \<le> ?m" using SignedEncodingLength_bounds [OF assms(2)] by auto
  then have "(2 :: nat) ^ (7 * ?n - 1) \<le> 2 ^ (7 * (?m - 1) - 1)" by (intro power_increasing) auto
  then show False
    using SignedEncodingLength_bounds [OF assms(1)] SignedEncodingLength_bounds [OF assms(2)] assms(3) \<open>2 \<le> ?m\<close>
    by linarith
qed

lemma longer_header:
  assumes "1 \<le> m" "m < n" "v < 2 ^ (7 * m - 1)"
  shows "v + header m < (w + header n) div 256 ^ (n - m)"
proof -
  have e: "7 * n + (m + 1) \<le> 8 * n" "8 * n = 8 * (n - m) + 8 * m"  "8 * n - (m + 1) = 8 * (n - m) + (7 * m - 1)"
    using assms by auto
  have "(2 :: nat) ^ (7 * n) \<le> 2 ^ (8 * n - (m + 1))" using e by (intro power_increasing) auto
  also have "\<dots> = 256 ^ (n - m) * 2 ^ (7 * m - 1)" unfolding e(3) by (simp add: power_add power_mult)
  finally have a: "(2 :: nat) ^ (7 * n) \<le> 256 ^ (n - m) * 2 ^ (7 * m - 1)" .
  have "header n = 2 ^ (8 * n) - 2 ^ (7 * n)"
    by (simp add: header_def diff_mult_distrib flip: power_add)
  also have "(2 :: nat) ^ (8 * n) = 256 ^ (n - m) * 256 ^ m" unfolding e(2) by (simp add: power_add power_mult)
  finally have "header n = 256 ^ (n - m) * 256 ^ m - 2 ^ (7 * n)" .
  then have "256 ^ (n - m) * (256 ^ m - 2 ^ (7 * m - 1)) \<le> header n"
    using a by (simp only: diff_mult_distrib2 diff_le_mono2)
  then have "256 ^ (n - m) * (256 ^ m - 2 ^ (7 * m - 1)) \<le> w + header n" by simp
  then have "256 ^ m - 2 ^ (7 * m - 1) \<le> (w + header n) div 256 ^ (n - m)"
    by (simp add: less_eq_div_iff_mult_less_eq mult.commute)
  with header_bound [OF assms(1,3)] show ?thesis by simp
qed

lemma WriteSigned_less_nonneg:
  assumes x: "\<not> bit x 63" and y: "\<not> bit y 63" and less: "unat x < unat y"
  shows "byte_less (WriteSignedNumIncreasing [] (Int64 x)) (WriteSignedNumIncreasing [] (Int64 y))"
proof -
  let ?m = "SignedEncodingLength (Int64 x)" and ?n = "SignedEncodingLength (Int64 y)"
  let ?M = "unat x + header ?m" and ?N = "unat y + header ?n"
  note bx = SignedEncodingLength_bounds [OF x] and b_y = SignedEncodingLength_bounds [OF y]
  have small: "a < 2 ^ (7 * k)" if "a < 2 ^ (7 * k - 1)" for a k :: nat
  proof -
    have "(2 :: nat) ^ (7 * k - 1) \<le> 2 ^ (7 * k)" by (rule power_increasing) simp_all
    with that show ?thesis by linarith
  qed
  have ex: "WriteSignedNumIncreasing [] (Int64 x) = be_bytes ?m ?M"
    using bx by (simp add: WriteSigned_nonneg [OF x] xor_header small)
  have ey: "WriteSignedNumIncreasing [] (Int64 y) = be_bytes ?n ?N"
    using b_y by (simp add: WriteSigned_nonneg [OF y] xor_header small)
  have N: "?N < 256 ^ ?n" using header_bound [of ?n "unat y"] b_y by linarith
  consider "?m = ?n" | "?m < ?n" using length_less [OF x y] less by linarith
  then have "byte_less (be_bytes ?m ?M) (be_bytes ?n ?N)"
  proof cases
    case 1
    then have "?M < ?N" using less by simp
    with be_bytes_less [OF _ N] 1 show ?thesis by simp
  next
    case 2
    let ?P = "?N div 256 ^ (?n - ?m)"
    have "?M < ?P" using longer_header [of ?m ?n "unat x" "unat y"] bx 2 by blast
    moreover have "?P < 256 ^ ?m"
      using N 2 by (simp add: div_less_iff_less_mult flip: power_add)
    ultimately have "byte_less (be_bytes ?m ?M) (be_bytes ?m ?P)" by (rule be_bytes_less)
    then have "byte_less (be_bytes ?m ?M @ []) (take ?m (be_bytes ?n ?N) @ drop ?m (be_bytes ?n ?N))"
      using be_bytes_take [of ?m ?n ?N] 2 by (simp only: byte_less_append less_imp_le)
    then show ?thesis by simp
  qed
  then show ?thesis by (simp only: ex ey)
qed

lemma WriteSigned_less:
  assumes "m < n"
  shows "byte_less (WriteSignedNumIncreasing [] m) (WriteSignedNumIncreasing [] n)"
proof (cases m rule: int64_cases)
  case m: (pos x)
  show ?thesis
  proof (cases n rule: int64_cases)
    case (pos y)
    with assms m have "sint x < sint y" by (simp add: less_int64_def)
    then have "int (unat x) < int (unat y)"
      by (simp only: sint_nonneg [OF m(2)] sint_nonneg [OF pos(2)])
    then show ?thesis using m pos WriteSigned_less_nonneg by (simp only: of_nat_less_iff)
  next
    case (neg y)
    with assms m have "sint x < - 1 - sint y" by (simp add: less_int64_def sint_not)
    then have "int (unat x) < - 1 - int (unat y)"
      by (simp only: sint_nonneg [OF m(2)] sint_nonneg [OF neg(2)])
    then show ?thesis by linarith
  qed
next
  case m: (neg x)
  show ?thesis
  proof (cases n rule: int64_cases)
    case (pos y)
    obtain a as b bs where "WriteSignedNumIncreasing [] (Int64 x) = a # as"
        "WriteSignedNumIncreasing [] (Int64 y) = b # bs" and "bit a 7" "bit b 7"
      using WriteSigned_top [OF m(2)] WriteSigned_top [OF pos(2)] by (metis hd_Cons_tl)
    moreover have "NOT a < b"
      using \<open>bit a 7\<close> \<open>bit b 7\<close> by (simp add: word_less_nat_alt bit_7_byte unat_not_byte)
    ultimately show ?thesis using m pos by (simp add: WriteSigned_neg byte_less_head)
  next
    case (neg y)
    with assms m have "sint y < sint x" by (simp add: less_int64_def sint_not)
    then have "int (unat y) < int (unat x)"
      by (simp only: sint_nonneg [OF m(2)] sint_nonneg [OF neg(2)])
    then have "unat y < unat x" by (simp only: of_nat_less_iff)
    then show ?thesis
      using m neg by (simp add: WriteSigned_neg byte_less_invert WriteSigned_less_nonneg)
  qed
qed

section \<open>The encodings as order-preserving codes\<close>

interpretation string_code: ordered_codec "WriteString []" "\<lambda>src. ReadString src []"
proof
  fix v w rest xs ys
  show "ReadString (WriteString [] v @ rest) [] = Some (v, rest)"
    by (simp add: ReadString_def WriteString_eq ReadStringInternal_enc)
  show "WriteString [] v @ xs < WriteString [] w @ ys" if "v < w"
    using byte_less_less [OF WriteString_less [OF that]] by (simp add: WriteString_eq)
qed

interpretation unsigned_code: ordered_codec "WriteNumIncreasing []" ReadNumIncreasing
proof
  fix v w rest xs ys
  show "ReadNumIncreasing (WriteNumIncreasing [] v @ rest) = Some (v, rest)"
    by (rule ReadNumIncreasing_enc)
  show "WriteNumIncreasing [] v @ xs < WriteNumIncreasing [] w @ ys" if "v < w"
    using WriteNumIncreasing_less [OF that] by (intro byte_less_less byte_less_append)
qed

interpretation signed_code: ordered_codec "WriteSignedNumIncreasing []" ReadSignedNumIncreasing
proof
  fix v w rest xs ys
  show "ReadSignedNumIncreasing (WriteSignedNumIncreasing [] v @ rest) = Some (v, rest)"
    by (rule ReadSigned_enc)
  show "WriteSignedNumIncreasing [] v @ xs < WriteSignedNumIncreasing [] w @ ys" if "v < w"
    using WriteSigned_less [OF that] by (intro byte_less_less byte_less_append)
qed

text \<open>
  A key as clients build it (\<^verbatim>\<open>saved_tensor_slice_util.cc\<close> does): a row of strings and numbers
  appended to one buffer.
\<close>

datatype key_part = KeyString bytes | KeyNum u64 | KeySigned int64

fun write_part :: "bytes \<Rightarrow> key_part \<Rightarrow> bytes" where
  "write_part dest (KeyString s) = WriteString dest s"
| "write_part dest (KeyNum n) = WriteNumIncreasing dest n"
| "write_part dest (KeySigned n) = WriteSignedNumIncreasing dest n"

fun part_less :: "key_part \<Rightarrow> key_part \<Rightarrow> bool" where
  "part_less (KeyString s) (KeyString t) \<longleftrightarrow> s < t"
| "part_less (KeyNum m) (KeyNum n) \<longleftrightarrow> m < n"
| "part_less (KeySigned m) (KeySigned n) \<longleftrightarrow> m < n"
| "part_less _ _ \<longleftrightarrow> False"

fun read_part :: "key_part \<Rightarrow> bytes \<Rightarrow> (key_part \<times> bytes) option" where
  "read_part (KeyString _) src = map_option (\<lambda>(s, r). (KeyString s, r)) (ReadString src [])"
| "read_part (KeyNum _) src = map_option (\<lambda>(n, r). (KeyNum n, r)) (ReadNumIncreasing src)"
| "read_part (KeySigned _) src = map_option (\<lambda>(n, r). (KeySigned n, r)) (ReadSignedNumIncreasing src)"

definition write_key :: "key_part list \<Rightarrow> bytes" where
  "write_key ps = foldl write_part [] ps"

fun read_key :: "key_part list \<Rightarrow> bytes \<Rightarrow> (key_part list \<times> bytes) option" where
  "read_key [] src = Some ([], src)"
| "read_key (p # ps) src =
     (case read_part p src of
        None \<Rightarrow> None
      | Some (q, src') \<Rightarrow> map_option (\<lambda>(qs, r). (q # qs, r)) (read_key ps src'))"

lemma WriteSigned_dest: "WriteSignedNumIncreasing dest n = dest @ WriteSignedNumIncreasing [] n"
  by (simp add: WriteSignedNumIncreasing_def Let_def)

lemma write_part_dest: "write_part dest p = dest @ write_part [] p"
proof (cases p)
  case (KeySigned n)
  with WriteSigned_dest [of dest n] show ?thesis by simp
qed (simp_all add: WriteString_eq WriteNumIncreasing_eq)

lemma write_key_eq: "foldl write_part dest ps = dest @ concat (map (write_part []) ps)"
proof (induction ps arbitrary: dest)
  case (Cons p ps)
  then show ?case using write_part_dest [of dest p] by simp
qed simp

lemma read_part_enc: "read_part p (write_part [] p @ rest) = Some (p, rest)"
  by (cases p) (simp_all add: string_code.dec_enc unsigned_code.dec_enc signed_code.dec_enc)

lemma part_less_enc: "part_less p q \<Longrightarrow> write_part [] p @ xs < write_part [] q @ ys"
  by (cases p; cases q) (simp_all add: string_code.enc_less unsigned_code.enc_less signed_code.enc_less)

lemma less_same_prefix: "(p @ xs < p @ ys) = (xs < (ys :: bytes))"
  by (induction p) simp_all

text \<open>C16: An encoded key sorts as its parts do: two keys that agree up to some part and differ
  there in a string, an unsigned or a signed number compare, byte by byte, as these two values
  compare, whatever parts follow them.\<close>

theorem encoded_keys_sort_by_parts:
  assumes "part_less p q"
  shows "write_key (pre @ p # ps) < write_key (pre @ q # qs)"
  using part_less_enc [OF assms] by (simp only: write_key_def write_key_eq) (simp add: less_same_prefix)

theorem encoded_keys_sort_by_parts_witness:
  "write_key ([KeyString [0x61, 0]] @ KeySigned (Int64 (- 70)) # [KeyNum 3]) <
   write_key ([KeyString [0x61, 0]] @ KeySigned (Int64 5) # [])"
  by (rule encoded_keys_sort_by_parts) (simp add: less_int64_def)

text \<open>C17: A key of strings, unsigned and signed numbers is read back part by part from any buffer
  it begins, and what follows it in the buffer is left unread; in particular no key is a proper
  prefix of another key of the same shape.\<close>

theorem encoded_keys_are_read_back:
  "read_key ps (write_key ps @ rest) = Some (ps, rest)"
proof -
  have "read_key ps (concat (map (write_part []) ps) @ rest) = Some (ps, rest)"
    by (induction ps) (simp_all add: read_part_enc)
  then show ?thesis by (simp add: write_key_def write_key_eq)
qed

text \<open>C18: The portable computation of \<^verbatim>\<open>Log2Floor64\<close> by halving agrees with the one on the
  count-leading-zeros instruction, on every 64-bit number, and both are the exponent of the
  largest power of two that is at most the number.\<close>

theorem Log2Floor64_implementations_agree:
  "Log2Floor64_Portable n = Log2Floor64 n \<and> Log2Floor64 0 = - 1 \<and>
   (n \<noteq> 0 \<longrightarrow> 2 ^ nat (Log2Floor64 n) \<le> unat n \<and> unat n < 2 ^ Suc (nat (Log2Floor64 n)))"
  using Log2Floor64_Portable_eq [of n] Log2Floor64_bounds [of n] by (auto simp: Log2Floor64_def [of 0])

theorem Log2Floor64_implementations_agree_witness:
  "Log2Floor64_Portable 6 = Log2Floor64 6 \<and> 2 ^ nat (Log2Floor64 6) \<le> unat (6 :: u64)"
  using Log2Floor64_implementations_agree [of 6] by simp

end
