(* ===== verification/OrderedSet.thy ===== *)
theory OrderedSet
  imports Prelude "HOL-Library.Monad_Syntax"
begin

text \<open>
  \<^verbatim>\<open>OrderedSet\<close> of \<^verbatim>\<open>compiler/xla/service/graphcycles/ordered_set.h\<close>: a set with a deterministic
  iteration order, kept as a sequence and an index from values to positions. Its contract is
  the locale \<open>sequence_set\<close>; the graph of \<open>GraphCycles\<close> is built on that contract.
\<close>

section \<open>The operations\<close>

record 'a OrderedSet =
  value_sequence :: "'a list"
  value_to_index :: "'a \<Rightarrow> nat option"

definition OrderedSet_empty :: "'a OrderedSet" where
  "OrderedSet_empty = \<lparr>value_sequence = [], value_to_index = (\<lambda>_. None)\<rparr>"

definition OS_Insert :: "'a \<Rightarrow> 'a OrderedSet \<Rightarrow> bool \<times> 'a OrderedSet" where
  "OS_Insert v s =
     (if value_to_index s v = None
      then (True, \<lparr>value_sequence = value_sequence s @ [v],
                   value_to_index = (value_to_index s)(v \<mapsto> length (value_sequence s))\<rparr>)
      else (False, s))"

text \<open>Erasing a value that is not there reads through the end iterator: no defined result.\<close>

definition OS_Erase :: "'a \<Rightarrow> 'a OrderedSet \<Rightarrow> 'a OrderedSet option" where
  "OS_Erase v s =
     (case value_to_index s v of
        None \<Rightarrow> None
      | Some i \<Rightarrow>
          (let b = last (value_sequence s);
               ix = (value_to_index s)(b \<mapsto> i);
               sq = (value_sequence s)[i := b, length (value_sequence s) - 1 := value_sequence s ! i]
           in Some \<lparr>value_sequence = butlast sq, value_to_index = ix(v := None)\<rparr>))"

definition OS_Clear :: "'a OrderedSet \<Rightarrow> 'a OrderedSet" where
  "OS_Clear s = OrderedSet_empty"

definition OS_Contains :: "'a \<Rightarrow> 'a OrderedSet \<Rightarrow> bool" where
  "OS_Contains v s \<longleftrightarrow> value_to_index s v \<noteq> None"

definition OS_Size :: "'a OrderedSet \<Rightarrow> nat" where
  "OS_Size s = length (value_sequence s)"

definition OS_GetSequence :: "'a OrderedSet \<Rightarrow> 'a list" where
  "OS_GetSequence s = value_sequence s"

lemmas OS_defs = OrderedSet_empty_def OS_Insert_def OS_Erase_def OS_Clear_def OS_Contains_def
  OS_Size_def OS_GetSequence_def

section \<open>The contract\<close>

locale sequence_set =
  fixes empty :: 's and insert :: "'a \<Rightarrow> 's \<Rightarrow> bool \<times> 's" and erase :: "'a \<Rightarrow> 's \<Rightarrow> 's option"
    and contains :: "'a \<Rightarrow> 's \<Rightarrow> bool" and sequence :: "'s \<Rightarrow> 'a list" and inv :: "'s \<Rightarrow> bool"
  assumes inv_empty: "inv empty" and sequence_empty: "sequence empty = []"
    and distinct_sequence: "inv s \<Longrightarrow> distinct (sequence s)"
    and contains_iff: "inv s \<Longrightarrow> contains v s \<longleftrightarrow> v \<in> set (sequence s)"
    and insert_result: "inv s \<Longrightarrow> fst (insert v s) \<longleftrightarrow> v \<notin> set (sequence s)"
    and inv_insert: "inv s \<Longrightarrow> inv (snd (insert v s))"
    and insert_sequence:
      "inv s \<Longrightarrow> sequence (snd (insert v s)) =
         (if v \<in> set (sequence s) then sequence s else sequence s @ [v])"
    and erase_some: "inv s \<Longrightarrow> v \<in> set (sequence s) \<Longrightarrow>
      \<exists>t. erase v s = Some t \<and> inv t \<and> set (sequence t) = set (sequence s) - {v}"
    and erase_none: "inv s \<Longrightarrow> v \<notin> set (sequence s) \<Longrightarrow> erase v s = None"
begin

lemma set_insert: "inv s \<Longrightarrow> set (sequence (snd (insert v s))) = set (sequence s) \<union> {v}"
  by (auto simp: insert_sequence)

lemma erase_insert_new:
  assumes "inv s" "fst (insert v s)"
  shows "\<exists>t. erase v (snd (insert v s)) = Some t \<and> inv t \<and> set (sequence t) = set (sequence s)"
  using erase_some [of "snd (insert v s)" v] assms by (auto simp: inv_insert set_insert insert_result)

end

section \<open>The implementation meets it\<close>

definition OS_inv :: "'a OrderedSet \<Rightarrow> bool" where
  "OS_inv s \<longleftrightarrow>
     distinct (value_sequence s) \<and>
     (\<forall>v i. value_to_index s v = Some i \<longleftrightarrow> i < length (value_sequence s) \<and> value_sequence s ! i = v)"

lemma OS_inv_index:
  "OS_inv s \<Longrightarrow> value_to_index s v = Some i \<longleftrightarrow> i < length (value_sequence s) \<and> value_sequence s ! i = v"
  by (simp add: OS_inv_def)

lemma OS_inv_None: "OS_inv s \<Longrightarrow> value_to_index s v = None \<longleftrightarrow> v \<notin> set (value_sequence s)"
proof -
  assume inv: "OS_inv s"
  have "value_to_index s v = None \<longleftrightarrow> (\<forall>i. value_to_index s v \<noteq> Some i)" by auto
  then show ?thesis using OS_inv_index [OF inv] by (auto simp: in_set_conv_nth)
qed

text \<open>Swapping the erased value with the last one and dropping the end removes that value only.\<close>

lemma swap_last_sequence:
  assumes "i < length (zs @ [b])"
  shows "butlast ((zs @ [b])[i := last (zs @ [b]), length (zs @ [b]) - 1 := (zs @ [b]) ! i]) =
    (if i = length zs then zs else zs[i := b])"
  using assms by (auto simp: list_update_append less_Suc_eq nth_append)

lemma OS_Insert_inv: "OS_inv s \<Longrightarrow> OS_inv (snd (OS_Insert v s))"
proof -
  assume inv: "OS_inv s"
  show ?thesis
  proof (cases "value_to_index s v")
    case None
    then have "v \<notin> set (value_sequence s)" by (simp add: OS_inv_None [OF inv])
    with inv None show ?thesis
      by (auto simp: OS_inv_def OS_Insert_def nth_append less_Suc_eq)
  qed (simp add: OS_Insert_def inv)
qed

lemma OS_Erase_some:
  assumes inv: "OS_inv s" and v: "v \<in> set (value_sequence s)"
  shows "\<exists>t. OS_Erase v s = Some t \<and> OS_inv t \<and> set (value_sequence t) = set (value_sequence s) - {v}"
proof -
  obtain i where i: "value_to_index s v = Some i" "i < length (value_sequence s)" "value_sequence s ! i = v"
    using v OS_inv_None [OF inv, of v] OS_inv_index [OF inv, of v] by fastforce
  then obtain zs b where xs: "value_sequence s = zs @ [b]" by (cases "value_sequence s" rule: rev_cases) auto
  have d: "distinct zs" "b \<notin> set zs" using inv by (simp_all add: OS_inv_def xs)
  define ys where "ys = (if i = length zs then zs else zs[i := b])"
  define ix where "ix = (value_to_index s)(b \<mapsto> i, v := None)"
  have t: "OS_Erase v s = Some \<lparr>value_sequence = ys, value_to_index = ix\<rparr>"
    using i swap_last_sequence [of i zs b] by (simp add: OS_Erase_def Let_def ys_def ix_def xs)
  have old: "value_to_index s w = Some j \<longleftrightarrow> j < length (zs @ [b]) \<and> (zs @ [b]) ! j = w" for w j
    using OS_inv_index [OF inv, of w j] by (simp add: xs)
  have ys: "distinct ys" "set ys = set (zs @ [b]) - {v}"
  proof -
    show "distinct ys" using d by (simp add: ys_def distinct_list_update)
    show "set ys = set (zs @ [b]) - {v}"
      using i d by (auto simp: ys_def xs nth_append less_Suc_eq set_update_distinct)
  qed
  have "ix w = Some j \<longleftrightarrow> j < length ys \<and> ys ! j = w" for w j
  proof (cases "w = v")
    case True
    then show ?thesis using ys(2) nth_mem [of j ys] by (auto simp: ix_def)
  next
    case False
    show ?thesis
    proof (cases "w = b")
      case True
      with False i have "i < length zs" by (auto simp: xs nth_append less_Suc_eq)
      with True False d show ?thesis by (auto simp: ix_def ys_def nth_list_update)
    next
      case wb: False
      then have "ix w = Some j \<longleftrightarrow> j < length (zs @ [b]) \<and> (zs @ [b]) ! j = w"
        using False by (simp add: ix_def old)
      with False wb i show ?thesis
        by (auto simp: ys_def xs nth_append nth_list_update less_Suc_eq split: if_splits)
    qed
  qed
  then have "OS_inv \<lparr>value_sequence = ys, value_to_index = ix\<rparr>"
    using ys(1) by (simp add: OS_inv_def)
  then show ?thesis using t ys(2) by (simp add: xs)
qed

interpretation os: sequence_set OrderedSet_empty OS_Insert OS_Erase OS_Contains OS_GetSequence OS_inv
proof
  fix s :: "'a OrderedSet" and v
  show "OS_inv (OrderedSet_empty :: 'a OrderedSet)" "OS_GetSequence (OrderedSet_empty :: 'a OrderedSet) = []"
    by (simp_all add: OS_defs OS_inv_def)
  assume inv: "OS_inv s"
  show "distinct (OS_GetSequence s)" using inv by (simp add: OS_inv_def OS_GetSequence_def)
  show "OS_Contains v s \<longleftrightarrow> v \<in> set (OS_GetSequence s)" "fst (OS_Insert v s) \<longleftrightarrow> v \<notin> set (OS_GetSequence s)"
    "OS_GetSequence (snd (OS_Insert v s)) =
       (if v \<in> set (OS_GetSequence s) then OS_GetSequence s else OS_GetSequence s @ [v])"
    using OS_inv_None [OF inv, of v] by (auto simp: OS_defs)
  show "OS_inv (snd (OS_Insert v s))" by (rule OS_Insert_inv [OF inv])
  show "\<exists>t. OS_Erase v s = Some t \<and> OS_inv t \<and> set (OS_GetSequence t) = set (OS_GetSequence s) - {v}"
    if "v \<in> set (OS_GetSequence s)"
    using OS_Erase_some [OF inv] that by (simp add: OS_GetSequence_def)
  show "OS_Erase v s = None" if "v \<notin> set (OS_GetSequence s)"
    using OS_inv_None [OF inv, of v] that by (simp add: OS_Erase_def OS_GetSequence_def)
qed

end
