(* ===== verification/GraphCycles.thy ===== *)
theory GraphCycles
  imports OrderedSet
begin

text \<open>
  \<^verbatim>\<open>GraphCycles\<close> of \<^verbatim>\<open>compiler/xla/service/graphcycles/graphcycles.cc\<close>: a directed graph that stays
  acyclic, with the incremental topological order of Pearce and Kelly. This theory holds the
  data and the operations, one definition per function of the source.

  A node identifier is a natural number, an index into \<^verbatim>\<open>nodes_\<close>. An operation returns \<open>None\<close>
  where the source indexes out of range, erases a missing element or fails a \<^verbatim>\<open>CHECK\<close>.
  A stack is a list with the back of the vector \<^verbatim>\<open>stack_\<close> as its head.
\<close>

section \<open>Data\<close>

record Node =
  n_rank :: nat
  n_visited :: bool
  n_data :: "nat option"
  n_in :: "nat OrderedSet"
  n_out :: "nat OrderedSet"

record Rep =
  nodes :: "Node list"
  free_nodes :: "nat list"
  deltaf :: "nat list"
  deltab :: "nat list"
  to_reorder :: "nat list"
  merged :: "nat list"
  dfs_stack :: "nat list"

definition GraphCycles_new :: Rep where
  "GraphCycles_new = \<lparr>nodes = [], free_nodes = [], deltaf = [], deltab = [], to_reorder = [],
     merged = [], dfs_stack = []\<rparr>"

definition node_at :: "Node list \<Rightarrow> nat \<Rightarrow> Node option" where
  "node_at ns i = (if i < length ns then Some (ns ! i) else None)"

definition modify :: "nat \<Rightarrow> (Node \<Rightarrow> Node) \<Rightarrow> Node list \<Rightarrow> Node list option" where
  "modify i f ns = (if i < length ns then Some (ns[i := f (ns ! i)]) else None)"

text \<open>\<^verbatim>\<open>nodes_[i]->in.Erase(v)\<close> and \<^verbatim>\<open>nodes_[i]->out.Erase(v)\<close>.\<close>

definition erase_in :: "nat \<Rightarrow> nat \<Rightarrow> Node list \<Rightarrow> Node list option" where
  "erase_in v i ns = do {
     n \<leftarrow> node_at ns i;
     s \<leftarrow> OS_Erase v (n_in n);
     modify i (n_in_update (\<lambda>_. s)) ns }"

definition erase_out :: "nat \<Rightarrow> nat \<Rightarrow> Node list \<Rightarrow> Node list option" where
  "erase_out v i ns = do {
     n \<leftarrow> node_at ns i;
     s \<leftarrow> OS_Erase v (n_out n);
     modify i (n_out_update (\<lambda>_. s)) ns }"

fun for_each :: "('a \<Rightarrow> 's \<Rightarrow> 's option) \<Rightarrow> 'a list \<Rightarrow> 's \<Rightarrow> 's option" where
  "for_each f [] s = Some s"
| "for_each f (x # xs) s = do { s' \<leftarrow> f x s; for_each f xs s' }"

section \<open>Nodes and edges\<close>

fun CheckNodes :: "Node list \<Rightarrow> nat set \<Rightarrow> Node list \<Rightarrow> bool option" where
  "CheckNodes ns ranks [] = Some True"
| "CheckNodes ns ranks (nx # xs) =
     (if n_visited nx then None
      else if n_rank nx \<in> ranks then None
      else if \<exists>y \<in> set (OS_GetSequence (n_out nx)). y \<ge> length ns \<or> n_rank nx \<ge> n_rank (ns ! y) then None
      else CheckNodes ns (insert (n_rank nx) ranks) xs)"

definition CheckInvariants :: "Rep \<Rightarrow> bool option" where
  "CheckInvariants r = CheckNodes (nodes r) {} (nodes r)"

definition NewNode :: "Rep \<Rightarrow> nat \<times> Rep" where
  "NewNode r =
     (if free_nodes r = [] then
        (length (nodes r),
         r\<lparr>nodes := nodes r @ [\<lparr>n_rank = length (nodes r), n_visited = False, n_data = None,
                                n_in = OrderedSet_empty, n_out = OrderedSet_empty\<rparr>]\<rparr>)
      else
        (let n = last (free_nodes r) in
         (n, r\<lparr>nodes := (nodes r)[n := (nodes r ! n)\<lparr>n_data := None\<rparr>], free_nodes := butlast (free_nodes r)\<rparr>)))"

definition RemoveNode :: "nat \<Rightarrow> Rep \<Rightarrow> Rep option" where
  "RemoveNode n r = do {
     x \<leftarrow> node_at (nodes r) n;
     ns1 \<leftarrow> for_each (erase_in n) (OS_GetSequence (n_out x)) (nodes r);
     x1 \<leftarrow> node_at ns1 n;
     ns2 \<leftarrow> for_each (erase_out n) (OS_GetSequence (n_in x1)) ns1;
     ns3 \<leftarrow> modify n (\<lambda>x. x\<lparr>n_in := OS_Clear (n_in x), n_out := OS_Clear (n_out x)\<rparr>) ns2;
     Some (r\<lparr>nodes := ns3, free_nodes := free_nodes r @ [n]\<rparr>) }"

definition GetNodeData :: "nat \<Rightarrow> Rep \<Rightarrow> nat option option" where
  "GetNodeData n r = do { x \<leftarrow> node_at (nodes r) n; Some (n_data x) }"

definition SetNodeData :: "nat \<Rightarrow> nat option \<Rightarrow> Rep \<Rightarrow> Rep option" where
  "SetNodeData n d r = do { ns \<leftarrow> modify n (n_data_update (\<lambda>_. d)) (nodes r); Some (r\<lparr>nodes := ns\<rparr>) }"

definition HasEdge :: "nat \<Rightarrow> nat \<Rightarrow> Rep \<Rightarrow> bool option" where
  "HasEdge x y r = do { nx \<leftarrow> node_at (nodes r) x; Some (OS_Contains y (n_out nx)) }"

definition RemoveEdge :: "nat \<Rightarrow> nat \<Rightarrow> Rep \<Rightarrow> Rep option" where
  "RemoveEdge x y r = do {
     ns1 \<leftarrow> erase_out y x (nodes r);
     ns2 \<leftarrow> erase_in x y ns1;
     Some (r\<lparr>nodes := ns2\<rparr>) }"

section \<open>The depth-first searches\<close>

text \<open>The loop over the successors of a node: whether the bound was not hit, and the stack.\<close>

fun PushForward :: "Node list \<Rightarrow> nat \<Rightarrow> nat list \<Rightarrow> nat list \<Rightarrow> (bool \<times> nat list) option" where
  "PushForward ns ub [] st = Some (True, st)"
| "PushForward ns ub (w # ws) st = do {
     nw \<leftarrow> node_at ns w;
     if n_rank nw = ub then Some (False, st)
     else PushForward ns ub ws (if \<not> n_visited nw \<and> n_rank nw < ub then w # st else st) }"

definition unvisited :: "Node list \<Rightarrow> nat" where
  "unvisited ns = length (filter (\<lambda>n. \<not> n_visited n) ns)"

lemma unvisited_mark:
  "n < length ns \<Longrightarrow> \<not> n_visited (ns ! n) \<Longrightarrow> unvisited (ns[n := (ns ! n)\<lparr>n_visited := True\<rparr>]) < unvisited ns"
proof (induction ns arbitrary: n)
  case (Cons m ns)
  then show ?case by (cases n) (auto simp: unvisited_def)
qed simp

function ForwardLoop ::
  "nat \<Rightarrow> Node list \<Rightarrow> nat list \<Rightarrow> nat list \<Rightarrow> (bool \<times> Node list \<times> nat list \<times> nat list) option" where
  "ForwardLoop ub ns df [] = Some (True, ns, df, [])"
| "ForwardLoop ub ns df (n # st) =
     (if n < length ns then
        (if n_visited (ns ! n) then ForwardLoop ub ns df st
         else
           (let ns' = ns[n := (ns ! n)\<lparr>n_visited := True\<rparr>] in
            case PushForward ns' ub (OS_GetSequence (n_out (ns ! n))) st of
              None \<Rightarrow> None
            | Some (ok, st') \<Rightarrow>
                if ok then ForwardLoop ub ns' (df @ [n]) st' else Some (False, ns', df @ [n], st')))
      else None)"
  by pat_completeness auto
termination
  by (relation "measures [\<lambda>(ub, ns, df, st). unvisited ns, \<lambda>(ub, ns, df, st). length st]")
    (auto simp: unvisited_mark)

definition ForwardDFS :: "nat \<Rightarrow> nat \<Rightarrow> Rep \<Rightarrow> (bool \<times> Rep) option" where
  "ForwardDFS n ub r = do {
     (ok, ns, df, st) \<leftarrow> ForwardLoop ub (nodes r) [] [n];
     Some (ok, r\<lparr>nodes := ns, deltaf := df, dfs_stack := st\<rparr>) }"

fun PushBackward :: "Node list \<Rightarrow> nat \<Rightarrow> nat list \<Rightarrow> nat list \<Rightarrow> nat list option" where
  "PushBackward ns lb [] st = Some st"
| "PushBackward ns lb (w # ws) st = do {
     nw \<leftarrow> node_at ns w;
     PushBackward ns lb ws (if \<not> n_visited nw \<and> lb < n_rank nw then w # st else st) }"

function BackwardLoop ::
  "nat \<Rightarrow> Node list \<Rightarrow> nat list \<Rightarrow> nat list \<Rightarrow> (Node list \<times> nat list) option" where
  "BackwardLoop lb ns db [] = Some (ns, db)"
| "BackwardLoop lb ns db (n # st) =
     (if n < length ns then
        (if n_visited (ns ! n) then BackwardLoop lb ns db st
         else
           (let ns' = ns[n := (ns ! n)\<lparr>n_visited := True\<rparr>] in
            case PushBackward ns' lb (OS_GetSequence (n_in (ns ! n))) st of
              None \<Rightarrow> None
            | Some st' \<Rightarrow> BackwardLoop lb ns' (db @ [n]) st'))
      else None)"
  by pat_completeness auto
termination
  by (relation "measures [\<lambda>(ub, ns, df, st). unvisited ns, \<lambda>(ub, ns, df, st). length st]")
    (auto simp: unvisited_mark)

definition BackwardDFS :: "nat \<Rightarrow> nat \<Rightarrow> Rep \<Rightarrow> Rep option" where
  "BackwardDFS n lb r = do {
     (ns, db) \<leftarrow> BackwardLoop lb (nodes r) [] [n];
     Some (r\<lparr>nodes := ns, deltab := db, dfs_stack := []\<rparr>) }"

section \<open>Reordering\<close>

text \<open>
  \<^verbatim>\<open>std::sort\<close> by rank. The ranks of the nodes are pairwise different, so the sorted sequence is
  the same for every sorting algorithm.
\<close>

definition SortByRank :: "Node list \<Rightarrow> nat list \<Rightarrow> nat list option" where
  "SortByRank ns delta =
     (if \<forall>n \<in> set delta. n < length ns then Some (sort_key (\<lambda>n. n_rank (ns ! n)) delta) else None)"

fun MoveToList :: "Node list \<Rightarrow> nat list \<Rightarrow> nat list \<Rightarrow> (Node list \<times> nat list \<times> nat list) option" where
  "MoveToList ns [] dst = Some (ns, [], dst)"
| "MoveToList ns (w # src) dst = do {
     nw \<leftarrow> node_at ns w;
     (ns', src', dst') \<leftarrow> MoveToList (ns[w := nw\<lparr>n_visited := False\<rparr>]) src (dst @ [w]);
     Some (ns', n_rank nw # src', dst') }"

fun std_merge :: "nat list \<Rightarrow> nat list \<Rightarrow> nat list" where
  "std_merge [] ys = ys"
| "std_merge xs [] = xs"
| "std_merge (x # xs) (y # ys) =
     (if y < x then y # std_merge (x # xs) ys else x # std_merge xs (y # ys))"

fun AssignRanks :: "nat list \<Rightarrow> nat list \<Rightarrow> Node list \<Rightarrow> Node list option" where
  "AssignRanks [] ms ns = Some ns"
| "AssignRanks (n # xs) [] ns = None"
| "AssignRanks (n # xs) (m # ms) ns = do {
     ns' \<leftarrow> modify n (n_rank_update (\<lambda>_. m)) ns;
     AssignRanks xs ms ns' }"

definition Reorder :: "Rep \<Rightarrow> Rep option" where
  "Reorder r = do {
     db \<leftarrow> SortByRank (nodes r) (deltab r);
     df \<leftarrow> SortByRank (nodes r) (deltaf r);
     (ns1, db', l1) \<leftarrow> MoveToList (nodes r) db [];
     (ns2, df', l2) \<leftarrow> MoveToList ns1 df l1;
     let ms = std_merge db' df';
     ns3 \<leftarrow> AssignRanks l2 ms ns2;
     Some (r\<lparr>nodes := ns3, deltab := db', deltaf := df', to_reorder := l2, merged := ms\<rparr>) }"

fun ClearVisitedBits :: "nat list \<Rightarrow> Node list \<Rightarrow> Node list option" where
  "ClearVisitedBits [] ns = Some ns"
| "ClearVisitedBits (n # xs) ns = do {
     ns' \<leftarrow> modify n (n_visited_update (\<lambda>_. False)) ns;
     ClearVisitedBits xs ns' }"

definition InsertEdge :: "nat \<Rightarrow> nat \<Rightarrow> Rep \<Rightarrow> (bool \<times> Rep) option" where
  "InsertEdge x y r =
     (if x = y then Some (False, r)
      else do {
        nx \<leftarrow> node_at (nodes r) x;
        let (new, out) = OS_Insert y (n_out nx);
        ns1 \<leftarrow> modify x (n_out_update (\<lambda>_. out)) (nodes r);
        if \<not> new then Some (True, r\<lparr>nodes := ns1\<rparr>)
        else do {
          ny \<leftarrow> node_at ns1 y;
          ns2 \<leftarrow> modify y (n_in_update (\<lambda>_. snd (OS_Insert x (n_in ny)))) ns1;
          if n_rank nx \<le> n_rank ny then Some (True, r\<lparr>nodes := ns2\<rparr>)
          else do {
            (ok, r3) \<leftarrow> ForwardDFS y (n_rank nx) (r\<lparr>nodes := ns2\<rparr>);
            if \<not> ok then do {
              ns4 \<leftarrow> erase_out y x (nodes r3);
              ns5 \<leftarrow> erase_in x y ns4;
              ns6 \<leftarrow> ClearVisitedBits (deltaf r3) ns5;
              Some (False, r3\<lparr>nodes := ns6\<rparr>) }
            else do {
              ny3 \<leftarrow> node_at (nodes r3) y;
              r4 \<leftarrow> BackwardDFS x (n_rank ny3) r3;
              r5 \<leftarrow> Reorder r4;
              Some (True, r5) } } } })"

section \<open>Reachability\<close>

text \<open>Pushing the successors that were not seen yet; a negative entry of the stack is a marker.\<close>

fun PushUnseen :: "nat list \<Rightarrow> nat set \<Rightarrow> int list \<Rightarrow> nat set \<times> int list" where
  "PushUnseen [] seen st = (seen, st)"
| "PushUnseen (w # ws) seen st =
     (if w \<in> seen then PushUnseen ws seen st else PushUnseen ws (insert w seen) (int w # st))"

definition unseen :: "Node list \<Rightarrow> nat set \<Rightarrow> nat" where
  "unseen ns seen = card ((\<Union>n \<in> set ns. set (OS_GetSequence (n_out n))) - seen)"

definition stack_weight :: "int list \<Rightarrow> nat" where
  "stack_weight st = (\<Sum>n\<leftarrow>st. if n < 0 then 1 else 2)"

lemma PushUnseen_measure:
  fixes ns :: "Node list"
  assumes "set ws \<subseteq> (\<Union>n \<in> set ns. set (OS_GetSequence (n_out n)))" "PushUnseen ws seen st = (seen', st')"
  shows "unseen ns seen' < unseen ns seen \<or> (seen' = seen \<and> st' = st)"
  using assms
proof (induction ws arbitrary: seen st)
  case (Cons w ws)
  show ?case
  proof (cases "w \<in> seen")
    case False
    let ?U = "\<Union>n \<in> set ns. set (OS_GetSequence (n_out n))"
    have "?U - insert w seen = (?U - seen) - {w}" by auto
    moreover have "w \<in> ?U - seen" using Cons.prems(1) False by auto
    moreover have "finite (?U - seen)" by simp
    ultimately have "unseen ns (insert w seen) < unseen ns seen"
      unfolding unseen_def by (simp only: card_Diff1_less)
    moreover have "unseen ns seen' < unseen ns (insert w seen) \<or> seen' = insert w seen"
      using Cons.IH [of "insert w seen" "int w # st"] Cons.prems False by auto
    ultimately show ?thesis by auto
  next
    case True
    with Cons.IH [of seen st] Cons.prems show ?thesis by simp
  qed
qed simp

lemma FindPath_measure:
  fixes ns :: "Node list"
  assumes "(seen', st') = PushUnseen (OS_GetSequence (n_out (ns ! i))) seen (- 1 # st)" "i < length ns"
  shows "unseen ns seen' < unseen ns seen \<or> (seen' = seen \<and> st' = - 1 # st)"
  using assms
  by (intro PushUnseen_measure [where ws = "OS_GetSequence (n_out (ns ! i))"]) (auto intro: nth_mem)

function FindPathLoop ::
  "Node list \<Rightarrow> nat \<Rightarrow> nat \<Rightarrow> nat set \<Rightarrow> int list \<Rightarrow> nat list \<Rightarrow> nat \<Rightarrow> (nat \<times> nat list) option" where
  "FindPathLoop ns y max_len seen [] path len = Some (0, path)"
| "FindPathLoop ns y max_len seen (n # st) path len =
     (if n < 0 then FindPathLoop ns y max_len seen st path (len - 1)
      else
        (let path' = (if len < max_len then path[len := nat n] else path) in
         if nat n = y then Some (len + 1, path')
         else if nat n < length ns then
           (case PushUnseen (OS_GetSequence (n_out (ns ! nat n))) seen (- 1 # st) of
              (seen', st') \<Rightarrow> FindPathLoop ns y max_len seen' st' path' (len + 1))
         else None))"
  by pat_completeness auto
termination
proof (relation "measures [\<lambda>(ns, y, m, seen, st, p, l). unseen ns seen, \<lambda>(ns, y, m, seen, st, p, l). stack_weight st]")
  show "wf (measures [\<lambda>(ns :: Node list, y :: nat, m :: nat, seen, st, p :: nat list, l :: nat). unseen ns seen,
      \<lambda>(ns, y, m, seen, st, p, l). stack_weight st])" by simp
qed (auto simp: stack_weight_def dest!: FindPath_measure)

definition FindPath :: "nat \<Rightarrow> nat \<Rightarrow> nat \<Rightarrow> nat list \<Rightarrow> Rep \<Rightarrow> (nat \<times> nat list) option" where
  "FindPath x y max_path_len path r = FindPathLoop (nodes r) y max_path_len {} [int x] path 0"

definition IsReachable :: "nat \<Rightarrow> nat \<Rightarrow> Rep \<Rightarrow> bool option" where
  "IsReachable x y r = do { (len, _) \<leftarrow> FindPath x y 0 [] r; Some (0 < len) }"

definition IsReachableNonConst :: "nat \<Rightarrow> nat \<Rightarrow> Rep \<Rightarrow> (bool \<times> Rep) option" where
  "IsReachableNonConst x y r =
     (if x = y then Some (True, r)
      else do {
        nx \<leftarrow> node_at (nodes r) x;
        ny \<leftarrow> node_at (nodes r) y;
        if n_rank nx \<ge> n_rank ny then Some (False, r)
        else do {
          (ok, r') \<leftarrow> ForwardDFS x (n_rank ny) r;
          ns \<leftarrow> ClearVisitedBits (deltaf r') (nodes r');
          Some (\<not> ok, r'\<lparr>nodes := ns\<rparr>) } })"

section \<open>Contracting edges\<close>

definition CanContractEdge :: "nat \<Rightarrow> nat \<Rightarrow> Rep \<Rightarrow> (bool \<times> Rep) option" where
  "CanContractEdge a b r = do {
     has \<leftarrow> HasEdge a b r;
     if \<not> has then None
     else do {
       r1 \<leftarrow> RemoveEdge a b r;
       (reachable, r2) \<leftarrow> IsReachableNonConst a b r1;
       (_, r3) \<leftarrow> InsertEdge a b r2;
       Some (\<not> reachable, r3) } }"

text \<open>
  The edges of the removed node are moved out of it, which leaves its two sets empty, and
  added to the other node; the results of these calls of \<^verbatim>\<open>InsertEdge\<close> are not looked at.
\<close>

definition insert_ignoring :: "nat \<Rightarrow> nat \<Rightarrow> Rep \<Rightarrow> Rep option" where
  "insert_ignoring x y r = do { (_, r') \<leftarrow> InsertEdge x y r; Some r' }"

definition ContractEdge :: "nat \<Rightarrow> nat \<Rightarrow> Rep \<Rightarrow> (nat option \<times> Rep) option" where
  "ContractEdge a0 b0 r = do {
     has \<leftarrow> HasEdge a0 b0 r;
     if \<not> has then None
     else do {
       r1 \<leftarrow> RemoveEdge a0 b0 r;
       (reachable, r2) \<leftarrow> IsReachableNonConst a0 b0 r1;
       if reachable then do {
         (_, r3) \<leftarrow> InsertEdge a0 b0 r2;
         Some (None, r3) }
       else do {
         na \<leftarrow> node_at (nodes r2) a0;
         nb \<leftarrow> node_at (nodes r2) b0;
         let (a, b) = (if OS_Size (n_in nb) + OS_Size (n_out nb) > OS_Size (n_in na) + OS_Size (n_out na)
                       then (b0, a0) else (a0, b0));
         n \<leftarrow> node_at (nodes r2) b;
         let out = OS_GetSequence (n_out n);
         let inn = OS_GetSequence (n_in n);
         ns3 \<leftarrow> modify b (\<lambda>n. n\<lparr>n_out := OrderedSet_empty, n_in := OrderedSet_empty\<rparr>) (nodes r2);
         ns4 \<leftarrow> for_each (erase_in b) out ns3;
         ns5 \<leftarrow> for_each (erase_out b) inn ns4;
         r6 \<leftarrow> for_each (\<lambda>y. insert_ignoring a y) out
                 (r2\<lparr>nodes := ns5, free_nodes := free_nodes r2 @ [b]\<rparr>);
         r7 \<leftarrow> for_each (\<lambda>y. insert_ignoring y a) inn r6;
         Some (Some a, r7) } } }"

definition Successors :: "nat \<Rightarrow> Rep \<Rightarrow> nat list option" where
  "Successors n r = do { x \<leftarrow> node_at (nodes r) n; Some (OS_GetSequence (n_out x)) }"

definition Predecessors :: "nat \<Rightarrow> Rep \<Rightarrow> nat list option" where
  "Predecessors n r = do { x \<leftarrow> node_at (nodes r) n; Some (OS_GetSequence (n_in x)) }"

definition SortInPostOrder :: "Node list \<Rightarrow> nat list \<Rightarrow> nat list" where
  "SortInPostOrder ns xs = sort_key (\<lambda>n. - int (n_rank (ns ! n))) xs"

definition AllNodesInPostOrder :: "Rep \<Rightarrow> nat list" where
  "AllNodesInPostOrder r =
     SortInPostOrder (nodes r) (filter (\<lambda>i. i \<notin> set (free_nodes r)) [0..<length (nodes r)])"

end
