(* ===== verification/GraphSearch.thy ===== *)
theory GraphSearch
  imports GraphCycles
begin

text \<open>
  The two depth-first searches of \<^verbatim>\<open>GraphCycles\<close>: what they visit, what they leave unvisited,
  and that they stay inside the node table. Both are instances of one marking search.
\<close>

section \<open>Marks\<close>

abbreviation succs :: "Node list \<Rightarrow> nat \<Rightarrow> nat set" where
  "succs ns x \<equiv> set (OS_GetSequence (n_out (ns ! x)))"

abbreviation preds :: "Node list \<Rightarrow> nat \<Rightarrow> nat set" where
  "preds ns x \<equiv> set (OS_GetSequence (n_in (ns ! x)))"

abbreviation rk :: "Node list \<Rightarrow> nat \<Rightarrow> nat" where
  "rk ns x \<equiv> n_rank (ns ! x)"

text \<open>The node table with exactly the nodes of \<open>V\<close> marked as visited.\<close>

definition mark :: "nat set \<Rightarrow> Node list \<Rightarrow> Node list" where
  "mark V ns = map (\<lambda>i. (ns ! i)\<lparr>n_visited := i \<in> V\<rparr>) [0..<length ns]"

definition clean :: "Node list \<Rightarrow> bool" where
  "clean ns \<longleftrightarrow> (\<forall>n \<in> set ns. \<not> n_visited n)"

lemma length_mark [simp]: "length (mark V ns) = length ns"
  by (simp add: mark_def)

lemma nth_mark [simp]: "i < length ns \<Longrightarrow> mark V ns ! i = (ns ! i)\<lparr>n_visited := i \<in> V\<rparr>"
  by (simp add: mark_def)

lemma mark_clean: "clean ns \<Longrightarrow> mark {} ns = ns"
  by (rule nth_equalityI) (auto simp: clean_def)

lemma mark_insert: "n < length ns \<Longrightarrow> (mark V ns)[n := (mark V ns ! n)\<lparr>n_visited := True\<rparr>] = mark (insert n V) ns"
  by (rule nth_equalityI) (auto simp: nth_list_update)

lemma mark_remove: "n < length ns \<Longrightarrow> (mark V ns)[n := (mark V ns ! n)\<lparr>n_visited := False\<rparr>] = mark (V - {n}) ns"
  by (rule nth_equalityI) (auto simp: nth_list_update)

lemma mark_mark [simp]: "mark V (mark W ns) = mark V ns"
  by (rule nth_equalityI) auto

lemma clean_mark [simp]: "clean (mark {} ns)"
  by (auto simp: clean_def in_set_conv_nth)

lemma node_at_mark: "n < length ns \<Longrightarrow> node_at (mark V ns) n = Some ((ns ! n)\<lparr>n_visited := n \<in> V\<rparr>)"
  by (simp add: node_at_def)

lemma unvisited_mark_insert:
  "n < length ns \<Longrightarrow> n \<notin> V \<Longrightarrow> unvisited (mark (insert n V) ns) < unvisited (mark V ns)"
  using unvisited_mark [of n "mark V ns"] by (simp add: mark_insert [symmetric] del: nth_mark) simp

lemma ClearVisitedBits_mark:
  "\<forall>n \<in> set xs. n < length ns \<Longrightarrow> ClearVisitedBits xs (mark V ns) = Some (mark (V - set xs) ns)"
proof (induction xs arbitrary: V)
  case (Cons n xs)
  have "(mark V ns)[n := (mark V ns ! n)\<lparr>n_visited := False\<rparr>] = mark (V - {n}) ns"
    using Cons.prems by (intro mark_remove) simp
  moreover have "V - insert n (set xs) = V - {n} - set xs" by auto
  ultimately show ?case using Cons by (simp add: modify_def del: nth_mark)
qed simp

section \<open>A marking search\<close>

locale marking_search =
  fixes next_nodes :: "Node \<Rightarrow> nat list" and keep :: "Node \<Rightarrow> bool" and stop :: "Node \<Rightarrow> bool"
    and loop :: "Node list \<Rightarrow> nat list \<Rightarrow> nat list \<Rightarrow> (bool \<times> Node list \<times> nat list) option"
  assumes next_mark: "next_nodes (nd\<lparr>n_visited := b\<rparr>) = next_nodes nd"
    and keep_mark: "keep (nd\<lparr>n_visited := b\<rparr>) = keep nd"
    and stop_mark: "stop (nd\<lparr>n_visited := b\<rparr>) = stop nd"
    and loop_Nil: "loop ns d [] = Some (True, ns, d)"
    and loop_visited: "n < length ns \<Longrightarrow> n_visited (ns ! n) \<Longrightarrow> loop ns d (n # st) = loop ns d st"
    and loop_stop: "n < length ns \<Longrightarrow> \<not> n_visited (ns ! n) \<Longrightarrow>
      ns' = ns[n := (ns ! n)\<lparr>n_visited := True\<rparr>] \<Longrightarrow>
      \<forall>w \<in> set (next_nodes (ns ! n)). w < length ns \<Longrightarrow> \<exists>w \<in> set (next_nodes (ns ! n)). stop (ns' ! w) \<Longrightarrow>
      loop ns d (n # st) = Some (False, ns', d @ [n])"
    and loop_step: "n < length ns \<Longrightarrow> \<not> n_visited (ns ! n) \<Longrightarrow>
      ns' = ns[n := (ns ! n)\<lparr>n_visited := True\<rparr>] \<Longrightarrow>
      \<forall>w \<in> set (next_nodes (ns ! n)). w < length ns \<and> \<not> stop (ns' ! w) \<Longrightarrow>
      loop ns d (n # st) = loop ns' (d @ [n])
        (rev (filter (\<lambda>w. \<not> n_visited (ns' ! w) \<and> keep (ns' ! w)) (next_nodes (ns ! n))) @ st)"
begin

text \<open>
  \<open>V0\<close> is marked from the beginning, \<open>d\<close> are the nodes found so far, \<open>P\<close> is any property of the
  nodes the search starts with that is handed on to the nodes it keeps.
\<close>

definition found :: "Node list \<Rightarrow> (nat \<Rightarrow> bool) \<Rightarrow> nat set \<Rightarrow> nat list \<Rightarrow> bool" where
  "found ns P V0 d \<longleftrightarrow> distinct d \<and> set d \<inter> V0 = {} \<and> (\<forall>n \<in> set d. n < length ns \<and> P n)"

definition closed_upto :: "Node list \<Rightarrow> nat set \<Rightarrow> nat list \<Rightarrow> bool" where
  "closed_upto ns W d \<longleftrightarrow> (\<forall>u \<in> set d. \<forall>w \<in> set (next_nodes (ns ! u)).
     \<not> stop (ns ! w) \<and> (keep (ns ! w) \<longrightarrow> w \<in> W \<union> set d))"

definition outcome :: "Node list \<Rightarrow> nat set \<Rightarrow> nat list \<Rightarrow> bool \<Rightarrow> nat list \<Rightarrow> bool" where
  "outcome ns V0 st b d \<longleftrightarrow>
     (if b then set st \<subseteq> V0 \<union> set d \<and> closed_upto ns V0 d
      else \<exists>u \<in> set d. \<exists>w \<in> set (next_nodes (ns ! u)). stop (ns ! w))"

lemma search:
  assumes range: "\<forall>u < length ns. \<forall>w \<in> set (next_nodes (ns ! u)). w < length ns"
    and P_next: "\<And>u w. u < length ns \<Longrightarrow> P u \<Longrightarrow> w \<in> set (next_nodes (ns ! u)) \<Longrightarrow> keep (ns ! w) \<Longrightarrow> P w"
    and start: "\<forall>n \<in> set st. n < length ns \<and> P n" "found ns P V0 d" "closed_upto ns (V0 \<union> set st) d"
  shows "\<exists>b d'. loop (mark (V0 \<union> set d) ns) d st = Some (b, mark (V0 \<union> set d') ns, d') \<and>
    found ns P V0 d' \<and> set d \<subseteq> set d' \<and> outcome ns V0 st b d'"
  using start
proof (induction "(d, st)" arbitrary: d st
    rule: wf_induct_rule [OF wf_measures [of "[\<lambda>(d, st). unvisited (mark (V0 \<union> set d) ns), \<lambda>(d, st). length st]"]])
  case (1 d st)
  note IH = 1(1) and st = 1(2) and d = 1(3) and closed = 1(4)
  let ?V = "V0 \<union> set d"
  show ?case
  proof (cases st)
    case Nil
    with d closed show ?thesis
      by (intro exI [of _ True] exI [of _ d]) (auto simp: loop_Nil outcome_def)
  next
    case (Cons n st')
    then have n: "n < length ns" "P n" using st by auto
    show ?thesis
    proof (cases "n \<in> ?V")
      case True
      have "((d, st'), d, st) \<in> measures
          [\<lambda>(d, st). unvisited (mark (V0 \<union> set d) ns), \<lambda>(d, st). length st]"
        by (simp add: Cons)
      moreover have "\<forall>n \<in> set st'. n < length ns \<and> P n" "closed_upto ns (V0 \<union> set st') d"
        using st closed True by (auto simp: Cons closed_upto_def)
      ultimately obtain b d' where r: "loop (mark ?V ns) d st' = Some (b, mark (V0 \<union> set d') ns, d')"
          "found ns P V0 d'" "set d \<subseteq> set d'" "outcome ns V0 st' b d'"
        using IH [OF _ _ d] by blast
      moreover have "loop (mark ?V ns) d st = loop (mark ?V ns) d st'"
        using n True by (simp add: Cons loop_visited)
      moreover have "outcome ns V0 st b d'" using r(3,4) True by (auto simp: outcome_def Cons)
      ultimately show ?thesis by auto
    next
      case False
      let ?d = "d @ [n]" and ?nn = "next_nodes (ns ! n)"
      have V: "insert n ?V = V0 \<union> set ?d" by auto
      have ns': "mark (V0 \<union> set ?d) ns = (mark ?V ns)[n := (mark ?V ns ! n)\<lparr>n_visited := True\<rparr>]"
        unfolding V [symmetric] using n(1) by (rule mark_insert [symmetric])
      have nn: "next_nodes (mark ?V ns ! n) = ?nn" using n by (simp add: next_mark)
      have w: "\<forall>w \<in> set ?nn. w < length ns" using range n by blast
      have d': "found ns P V0 ?d" using d n False by (auto simp: found_def)
      show ?thesis
      proof (cases "\<exists>w \<in> set ?nn. stop (ns ! w)")
        case True
        have "loop (mark ?V ns) d st = Some (False, mark (V0 \<union> set ?d) ns, ?d)"
          unfolding Cons
        proof (rule loop_stop [OF _ _ ns'])
          obtain v where "v \<in> set ?nn" "stop (ns ! v)" using True by blast
          then show "\<exists>w \<in> set (next_nodes (mark ?V ns ! n)). stop (mark (V0 \<union> set ?d) ns ! w)"
            using w by (intro bexI [of _ v]) (auto simp: nn stop_mark)
        qed (use n False w in \<open>auto simp: nn next_mark\<close>)
        with d' True show ?thesis by (intro exI [of _ False] exI [of _ ?d]) (auto simp: outcome_def)
      next
        case no_stop: False
        let ?st = "rev (filter (\<lambda>w. w \<notin> V0 \<union> set ?d \<and> keep (ns ! w)) ?nn) @ st'"
        have "filter (\<lambda>w. \<not> n_visited (mark (V0 \<union> set ?d) ns ! w) \<and> keep (mark (V0 \<union> set ?d) ns ! w)) ?nn =
            filter (\<lambda>w. w \<notin> V0 \<union> set ?d \<and> keep (ns ! w)) ?nn"
          using w by (intro filter_cong) (auto simp: keep_mark)
        then have loop: "loop (mark ?V ns) d st = loop (mark (V0 \<union> set ?d) ns) ?d ?st"
          unfolding Cons using n False w no_stop
          by (subst loop_step [OF _ _ ns']) (auto simp: nn next_mark stop_mark)
        have "((?d, ?st), d, st) \<in> measures
            [\<lambda>(d, st). unvisited (mark (V0 \<union> set d) ns), \<lambda>(d, st). length st]"
          using unvisited_mark_insert [OF n(1) False] by simp
        moreover have "\<forall>n \<in> set ?st. n < length ns \<and> P n"
          using st w P_next n by (auto simp: Cons)
        moreover have "closed_upto ns (V0 \<union> set ?st) ?d"
          using closed no_stop by (auto simp: closed_upto_def Cons)
        ultimately obtain b d2 where r: "loop (mark (V0 \<union> set ?d) ns) ?d ?st = Some (b, mark (V0 \<union> set d2) ns, d2)"
            "found ns P V0 d2" "set ?d \<subseteq> set d2" "outcome ns V0 ?st b d2"
          using IH [OF _ _ d'] by blast
        moreover have "outcome ns V0 st b d2" using r(3,4) by (auto simp: outcome_def Cons)
        ultimately show ?thesis using loop by auto
      qed
    qed
  qed
qed

end

section \<open>The searches of the source\<close>

lemma PushForward_stop:
  assumes "\<forall>w \<in> set ws. w < length ns" "\<exists>w \<in> set ws. rk ns w = ub"
  shows "\<exists>st'. PushForward ns ub ws st = Some (False, st')"
  using assms by (induction ws arbitrary: st) (auto simp: node_at_def)

lemma PushForward_step:
  assumes "\<forall>w \<in> set ws. w < length ns \<and> rk ns w \<noteq> ub"
  shows "PushForward ns ub ws st =
    Some (True, rev (filter (\<lambda>w. \<not> n_visited (ns ! w) \<and> rk ns w < ub) ws) @ st)"
  using assms by (induction ws arbitrary: st) (auto simp: node_at_def)

lemma PushBackward_step:
  assumes "\<forall>w \<in> set ws. w < length ns"
  shows "PushBackward ns lb ws st = Some (rev (filter (\<lambda>w. \<not> n_visited (ns ! w) \<and> lb < rk ns w) ws) @ st)"
  using assms by (induction ws arbitrary: st) (auto simp: node_at_def)

abbreviation forward_loop :: "nat \<Rightarrow> Node list \<Rightarrow> nat list \<Rightarrow> nat list \<Rightarrow> (bool \<times> Node list \<times> nat list) option" where
  "forward_loop ub ns d st \<equiv> map_option (\<lambda>(b, ns, d, st). (b, ns, d)) (ForwardLoop ub ns d st)"

abbreviation backward_loop :: "nat \<Rightarrow> Node list \<Rightarrow> nat list \<Rightarrow> nat list \<Rightarrow> (bool \<times> Node list \<times> nat list) option" where
  "backward_loop lb ns d st \<equiv> map_option (\<lambda>(ns, d). (True, ns, d)) (BackwardLoop lb ns d st)"

interpretation forward: marking_search "\<lambda>n. OS_GetSequence (n_out n)" "\<lambda>n. n_rank n < ub"
  "\<lambda>n. n_rank n = ub" "forward_loop ub" for ub
proof
  fix ns ns' :: "Node list" and n d st
  let ?ws = "OS_GetSequence (n_out (ns ! n))"
  assume n: "n < length ns" "\<not> n_visited (ns ! n)" and ns': "ns' = ns[n := (ns ! n)\<lparr>n_visited := True\<rparr>]"
  show "forward_loop ub ns d (n # st) = Some (False, ns', d @ [n])"
    if "\<forall>w \<in> set ?ws. w < length ns" "\<exists>w \<in> set ?ws. rk ns' w = ub"
    using PushForward_stop [of ?ws ns' ub st] that n by (auto simp: ns' Let_def)
  show "forward_loop ub ns d (n # st) = forward_loop ub ns' (d @ [n])
      (rev (filter (\<lambda>w. \<not> n_visited (ns' ! w) \<and> rk ns' w < ub) ?ws) @ st)"
    if "\<forall>w \<in> set ?ws. w < length ns \<and> rk ns' w \<noteq> ub"
    using PushForward_step [of ?ws ns' ub st] that n by (auto simp: ns' Let_def)
qed simp_all

interpretation backward: marking_search "\<lambda>n. OS_GetSequence (n_in n)" "\<lambda>n. lb < n_rank n"
  "\<lambda>n. False" "backward_loop lb" for lb
proof
  fix ns ns' :: "Node list" and n d st
  let ?ws = "OS_GetSequence (n_in (ns ! n))"
  assume n: "n < length ns" "\<not> n_visited (ns ! n)" and ns': "ns' = ns[n := (ns ! n)\<lparr>n_visited := True\<rparr>]"
  show "backward_loop lb ns d (n # st) = backward_loop lb ns' (d @ [n])
      (rev (filter (\<lambda>w. \<not> n_visited (ns' ! w) \<and> lb < rk ns' w) ?ws) @ st)"
    if "\<forall>w \<in> set ?ws. w < length ns \<and> \<not> False"
    using PushBackward_step [of ?ws ns' lb st] that n by (auto simp: ns' Let_def)
qed simp_all

declare ForwardLoop.simps [simp del] BackwardLoop.simps [simp del]

end
