(* ===== verification/GraphOrder.thy ===== *)
theory GraphOrder
  imports GraphSearch "HOL-Library.Multiset"
begin

text \<open>
  The Pearce-Kelly reordering of \<^verbatim>\<open>GraphCycles\<close>: handing out the ranks of the affected nodes
  again, in sorted order, first to the nodes found backwards and then to the nodes found
  forwards.
\<close>

section \<open>Sorted sequences\<close>

lemma std_merge_sort: "sorted xs \<Longrightarrow> sorted ys \<Longrightarrow> std_merge xs ys = sort (xs @ ys)"
proof (rule properties_for_sort [symmetric])
  show "mset (std_merge xs ys) = mset (xs @ ys)"
    by (induction xs ys rule: std_merge.induct) auto
  assume "sorted xs" "sorted ys"
  then show "sorted (std_merge xs ys)"
  proof (induction xs ys rule: std_merge.induct)
    case (3 x xs y ys)
    have "set (std_merge xs ys) = set xs \<union> set ys" for xs ys :: "nat list"
      by (induction xs ys rule: std_merge.induct) auto
    with 3 show ?case by fastforce
  qed simp_all
qed

text \<open>The \<open>i\<close>-th smallest of a sequence is at most the \<open>i\<close>-th smallest of a part of it.\<close>

lemma sorted_sub_le:
  fixes ms xs :: "nat list"
  assumes "sorted ms" "sorted xs" "mset xs \<subseteq># mset ms" "i < length xs"
  shows "ms ! i \<le> xs ! i"
proof (rule ccontr)
  assume "\<not> ms ! i \<le> xs ! i"
  then have lt: "xs ! i < ms ! i" by simp
  have len: "length xs \<le> length ms" using size_mset_mono [OF assms(3)] by simp
  have "filter (\<lambda>m. m \<le> xs ! i) ms = filter (\<lambda>m. m \<le> xs ! i) (take i ms)"
  proof -
    have "\<forall>m \<in> set (drop i ms). \<not> m \<le> xs ! i"
    proof
      fix m assume "m \<in> set (drop i ms)"
      then obtain k where "k < length ms - i" "m = ms ! (i + k)" by (auto simp: in_set_conv_nth)
      then have "ms ! i \<le> m" using assms(1) by (auto intro: sorted_nth_mono)
      with lt show "\<not> m \<le> xs ! i" by simp
    qed
    then have "filter (\<lambda>m. m \<le> xs ! i) (take i ms @ drop i ms) = filter (\<lambda>m. m \<le> xs ! i) (take i ms)"
      by (simp only: filter_append filter_False append_Nil2)
    then show ?thesis by simp
  qed
  then have "length (filter (\<lambda>m. m \<le> xs ! i) ms) \<le> i"
    using length_filter_le [of "\<lambda>m. m \<le> xs ! i" "take i ms"] by (simp add: le_trans)
  moreover have "length (filter (\<lambda>m. m \<le> xs ! i) xs) \<le> length (filter (\<lambda>m. m \<le> xs ! i) ms)"
    using size_mset_mono [OF multiset_filter_mono [OF assms(3), of "\<lambda>m. m \<le> xs ! i"]]
    by (simp flip: mset_filter)
  moreover have "Suc i \<le> length (filter (\<lambda>m. m \<le> xs ! i) xs)"
  proof -
    have "\<forall>m \<in> set (take (Suc i) xs). m \<le> xs ! i"
      using assms(2,4) by (auto simp: in_set_conv_nth less_Suc_eq_le intro!: sorted_nth_mono)
    then have "filter (\<lambda>m. m \<le> xs ! i) (take (Suc i) xs @ drop (Suc i) xs) =
        take (Suc i) xs @ filter (\<lambda>m. m \<le> xs ! i) (drop (Suc i) xs)"
      by (simp only: filter_append filter_True)
    then have "length (filter (\<lambda>m. m \<le> xs ! i) xs) = length (take (Suc i) xs @ filter (\<lambda>m. m \<le> xs ! i) (drop (Suc i) xs))"
      by simp
    then show ?thesis using assms(4) by simp
  qed
  ultimately show False by simp
qed

text \<open>And, counted from the largest, at least.\<close>

lemma sorted_sub_ge:
  fixes ms xs :: "nat list"
  assumes "sorted ms" "sorted xs" "mset xs \<subseteq># mset ms" "i < length xs"
  shows "xs ! i \<le> ms ! (length ms - length xs + i)"
proof -
  have len: "length xs \<le> length ms" using size_mset_mono [OF assms(3)] by simp
  obtain b where b: "\<forall>m \<in> set ms. m \<le> b" using finite_nat_set_iff_bounded_le [of "set ms"] by auto
  let ?f = "\<lambda>m. b - m"
  have sub: "set xs \<subseteq> set ms" using set_mset_mono [OF assms(3)] by simp
  have rev_sorted: "sorted (rev (map ?f zs))" if "sorted zs" for zs
    using that by (auto simp: sorted_wrt_rev sorted_wrt_map intro: sorted_wrt_mono_rel [rotated])
  have "rev (map ?f ms) ! (length xs - 1 - i) \<le> rev (map ?f xs) ! (length xs - 1 - i)"
    using assms by (intro sorted_sub_le rev_sorted) (auto intro: image_mset_subseteq_mono)
  then have "b - ms ! (length ms - length xs + i) \<le> b - xs ! i"
    using assms(4) len by (simp add: rev_nth Suc_diff_Suc)
  moreover have "ms ! (length ms - length xs + i) \<le> b" "xs ! i \<le> b"
    using b len assms(4) nth_mem [of "length ms - length xs + i" ms] subsetD [OF sub nth_mem [OF assms(4)]]
    by simp_all
  ultimately show ?thesis by simp
qed

section \<open>The passes over the node table\<close>

lemma MoveToList_mark:
  assumes "\<forall>n \<in> set src. n < length ns"
  shows "MoveToList (mark V ns) src dst = Some (mark (V - set src) ns, map (rk ns) src, dst @ src)"
  using assms
proof (induction src arbitrary: V dst)
  case (Cons w src)
  have "(mark V ns)[w := (mark V ns ! w)\<lparr>n_visited := False\<rparr>] = mark (V - {w}) ns"
    using Cons.prems by (intro mark_remove) simp
  moreover have "V - insert w (set src) = V - {w} - set src" by auto
  ultimately show ?case using Cons by (simp add: node_at_mark)
qed simp

definition rerank :: "(nat \<Rightarrow> nat option) \<Rightarrow> Node list \<Rightarrow> Node list" where
  "rerank f ns = map (\<lambda>i. case f i of None \<Rightarrow> ns ! i | Some m \<Rightarrow> (ns ! i)\<lparr>n_rank := m\<rparr>) [0..<length ns]"

lemma length_rerank [simp]: "length (rerank f ns) = length ns"
  by (simp add: rerank_def)

lemma nth_rerank:
  "i < length ns \<Longrightarrow> rerank f ns ! i = (case f i of None \<Rightarrow> ns ! i | Some m \<Rightarrow> (ns ! i)\<lparr>n_rank := m\<rparr>)"
  by (simp add: rerank_def split: option.split)

lemma AssignRanks_rerank:
  assumes "\<forall>n \<in> set l. n < length ns" "distinct l" "length l \<le> length ms"
  shows "AssignRanks l ms ns = Some (rerank (map_of (zip l ms)) ns)"
  using assms
proof (induction l ms ns rule: AssignRanks.induct)
  case (1 ms ns)
  show ?case by (auto simp: rerank_def intro!: nth_equalityI)
next
  case (3 n xs m ms ns)
  have "rerank (map_of (zip xs ms)) (ns[n := (ns ! n)\<lparr>n_rank := m\<rparr>]) =
      rerank (map_of (zip (n # xs) (m # ms))) ns"
  proof (rule nth_equalityI)
    fix i assume "i < length (rerank (map_of (zip xs ms)) (ns[n := (ns ! n)\<lparr>n_rank := m\<rparr>]))"
    moreover have "map_of (zip xs ms) n = None"
    proof -
      have "n \<notin> set xs" using 3(3) by simp
      then have "n \<notin> fst ` set (zip xs ms)" by (auto dest: set_zip_leftD)
      then show ?thesis by (simp add: map_of_eq_None_iff)
    qed
    ultimately show "rerank (map_of (zip xs ms)) (ns[n := (ns ! n)\<lparr>n_rank := m\<rparr>]) ! i =
        rerank (map_of (zip (n # xs) (m # ms))) ns ! i"
      by (auto simp: nth_rerank nth_list_update split: option.splits)
  qed simp
  with 3 show ?case by (simp add: modify_def fun_upd_def)
qed simp

section \<open>The new ranks\<close>

definition new_order :: "Node list \<Rightarrow> nat list \<Rightarrow> nat list \<Rightarrow> nat list" where
  "new_order ns db df = sort_key (rk ns) db @ sort_key (rk ns) df"

definition new_rank :: "Node list \<Rightarrow> nat list \<Rightarrow> nat list \<Rightarrow> nat \<Rightarrow> nat option" where
  "new_rank ns db df = map_of (zip (new_order ns db df) (sort (map (rk ns) (db @ df))))"

lemma insort_key_congr: "\<forall>y \<in> set (x # ys). f y = g y \<Longrightarrow> insort_key f x ys = insort_key g x ys"
  by (induction ys) auto

lemma sort_key_congr: "\<forall>x \<in> set xs. f x = g x \<Longrightarrow> sort_key f xs = sort_key g xs"
proof (induction xs)
  case (Cons x xs)
  then show ?case using insort_key_congr [of x "sort_key g xs" f g] by simp
qed simp

lemma sorted_map_sort_key: "map f (sort_key f xs) = sort (map f xs)"
  by (rule properties_for_sort [symmetric]) simp_all

lemma Reorder_rerank:
  assumes "nodes r = mark (set (deltab r) \<union> set (deltaf r)) ns"
    and "\<forall>n \<in> set (deltab r @ deltaf r). n < length ns" "distinct (deltab r @ deltaf r)"
  shows "\<exists>r'. Reorder r = Some r' \<and>
    nodes r' = rerank (new_rank ns (deltab r) (deltaf r)) (mark {} ns) \<and> free_nodes r' = free_nodes r"
proof -
  let ?db = "deltab r" and ?df = "deltaf r" and ?V = "set (deltab r) \<union> set (deltaf r)"
  let ?sb = "sort_key (rk ns) ?db" and ?sf = "sort_key (rk ns) ?df"
  have key: "sort_key (\<lambda>n. n_rank (mark ?V ns ! n)) xs = sort_key (rk ns) xs" if "\<forall>n \<in> set xs. n < length ns" for xs
    using that by (intro sort_key_congr) auto
  have "SortByRank (mark ?V ns) ?db = Some ?sb" "SortByRank (mark ?V ns) ?df = Some ?sf"
    using assms(2) by (simp_all add: SortByRank_def key)
  moreover have "MoveToList (mark ?V ns) ?sb [] = Some (mark (set ?df) ns, map (rk ns) ?sb, ?sb)"
  proof -
    have "?V - set ?sb = set ?df" using assms(3) by auto
    then show ?thesis using assms(2) MoveToList_mark [of ?sb ns ?V "[]"] by simp
  qed
  moreover have "MoveToList (mark (set ?df) ns) ?sf ?sb = Some (mark {} ns, map (rk ns) ?sf, ?sb @ ?sf)"
    using assms(2) MoveToList_mark [of ?sf ns "set ?df" ?sb] by simp
  moreover have ms: "std_merge (map (rk ns) ?sb) (map (rk ns) ?sf) = sort (map (rk ns) (?db @ ?df))"
  proof -
    have "std_merge (map (rk ns) ?sb) (map (rk ns) ?sf) = sort (map (rk ns) ?sb @ map (rk ns) ?sf)"
      by (intro std_merge_sort) (simp_all add: sorted_map_sort_key)
    also have "\<dots> = sort (map (rk ns) (?db @ ?df))"
      by (rule properties_for_sort) (simp_all add: sorted_map_sort_key)
    finally show ?thesis .
  qed
  moreover have "AssignRanks (?sb @ ?sf) (sort (map (rk ns) (?db @ ?df))) (mark {} ns) =
      Some (rerank (new_rank ns ?db ?df) (mark {} ns))"
    unfolding new_rank_def new_order_def using assms(2,3) by (intro AssignRanks_rerank) auto
  ultimately show ?thesis by (simp add: Reorder_def assms(1) Let_def)
qed

lemma new_rank_index:
  assumes "distinct (db @ df)" "i < length (db @ df)"
  shows "new_rank ns db df (new_order ns db df ! i) = Some (sort (map (rk ns) (db @ df)) ! i)"
proof -
  have "distinct (new_order ns db df)" "length (new_order ns db df) = length (db @ df)"
    using assms(1) by (auto simp: new_order_def)
  then show ?thesis using assms(2) by (simp add: new_rank_def map_of_zip_nth)
qed

text \<open>The nodes found backwards do not move up, those found forwards do not move down.\<close>

lemma new_rank_backward:
  assumes "distinct (db @ df)" "n \<in> set db"
  shows "\<exists>m. new_rank ns db df n = Some m \<and> m \<le> rk ns n"
proof -
  have "n \<in> set (sort_key (rk ns) db)" using assms by simp
  then obtain i where i: "i < length db" "n = sort_key (rk ns) db ! i"
    by (metis in_set_conv_nth length_sort)
  let ?ms = "sort (map (rk ns) (db @ df))"
  have "?ms ! i \<le> sort (map (rk ns) db) ! i" using i by (intro sorted_sub_le) simp_all
  also have "\<dots> = rk ns n" using i by (simp flip: sorted_map_sort_key)
  finally have "?ms ! i \<le> rk ns n" .
  moreover have "n = new_order ns db df ! i" using i by (simp add: new_order_def nth_append)
  ultimately show ?thesis using new_rank_index [OF assms(1), of i ns] i by auto
qed

lemma new_rank_forward:
  assumes "distinct (db @ df)" "n \<in> set df"
  shows "\<exists>m. new_rank ns db df n = Some m \<and> rk ns n \<le> m"
proof -
  have "n \<in> set (sort_key (rk ns) df)" using assms by simp
  then obtain i where i: "i < length df" "n = sort_key (rk ns) df ! i"
    by (metis in_set_conv_nth length_sort)
  let ?ms = "sort (map (rk ns) (db @ df))"
  have "rk ns n = sort (map (rk ns) df) ! i" using i by (simp flip: sorted_map_sort_key)
  also have "\<dots> \<le> ?ms ! (length ?ms - length (sort (map (rk ns) df)) + i)"
    using i by (intro sorted_sub_ge) simp_all
  also have "length ?ms - length (sort (map (rk ns) df)) + i = length db + i" by simp
  finally have "rk ns n \<le> ?ms ! (length db + i)" .
  moreover have "n = new_order ns db df ! (length db + i)" using i by (simp add: new_order_def nth_append)
  ultimately show ?thesis using new_rank_index [OF assms(1), of "length db + i" ns] i by auto
qed

lemma new_rank_old: "n \<notin> set (db @ df) \<Longrightarrow> new_rank ns db df n = None"
proof -
  assume "n \<notin> set (db @ df)"
  then have "n \<notin> fst ` set (zip (new_order ns db df) (sort (map (rk ns) (db @ df))))"
    by (auto simp: new_order_def dest: set_zip_leftD)
  then show ?thesis by (simp add: new_rank_def map_of_eq_None_iff)
qed

lemma new_rank_range:
  assumes "new_rank ns db df n = Some m"
  shows "m \<in> rk ns ` set (db @ df)"
proof -
  have "(n, m) \<in> set (zip (new_order ns db df) (sort (map (rk ns) (db @ df))))"
    using assms map_of_SomeD unfolding new_rank_def by metis
  then have "m \<in> set (sort (map (rk ns) (db @ df)))" by (rule set_zip_rightD)
  then show ?thesis by auto
qed

text \<open>The order of the new ranks is the order of the list.\<close>

lemma new_rank_less:
  assumes dist: "distinct (db @ df)" and inj: "inj_on (rk ns) (set (db @ df))"
    and "i < j" "j < length (db @ df)"
  shows "\<exists>a b. new_rank ns db df (new_order ns db df ! i) = Some a \<and>
    new_rank ns db df (new_order ns db df ! j) = Some b \<and> a < b"
proof -
  have "distinct (sort (map (rk ns) (db @ df)))"
    using dist inj by (simp only: distinct_sort distinct_map)
  then have "sorted_wrt (<) (sort (map (rk ns) (db @ df)))" by (simp add: strict_sorted_iff)
  then have "sort (map (rk ns) (db @ df)) ! i < sort (map (rk ns) (db @ df)) ! j"
    using assms(3,4) by (simp add: sorted_wrt_nth_less)
  then show ?thesis
    using new_rank_index [OF dist, of i ns] new_rank_index [OF dist, of j ns] assms(3,4) by auto
qed

lemma sort_key_index_less:
  assumes "x \<in> set xs" "y \<in> set xs" "f x < (f y :: nat)"
  obtains i j where "i < j" "j < length xs" "sort_key f xs ! i = x" "sort_key f xs ! j = y"
proof -
  obtain i j where ij: "i < length xs" "sort_key f xs ! i = x" "j < length xs" "sort_key f xs ! j = y"
  proof -
    have "x \<in> set (sort_key f xs)" "y \<in> set (sort_key f xs)" using assms(1,2) by simp_all
    then show ?thesis using that by (auto simp only: in_set_conv_nth length_sort)
  qed
  have "i < j"
  proof (rule ccontr)
    assume "\<not> i < j"
    then have "map f (sort_key f xs) ! j \<le> map f (sort_key f xs) ! i"
      using ij by (intro sorted_nth_mono) (simp_all add: sorted_sort_key)
    with ij assms(3) show False by simp
  qed
  with ij that show thesis by blast
qed

lemma new_rank_order:
  assumes dist: "distinct (db @ df)" and inj: "inj_on (rk ns) (set (db @ df))"
    and uv: "u \<in> set db \<and> v \<in> set db \<and> rk ns u < rk ns v \<or> u \<in> set df \<and> v \<in> set df \<and> rk ns u < rk ns v
      \<or> u \<in> set db \<and> v \<in> set df"
  shows "\<exists>a b. new_rank ns db df u = Some a \<and> new_rank ns db df v = Some b \<and> a < b"
proof -
  let ?sb = "sort_key (rk ns) db" and ?sf = "sort_key (rk ns) df"
  have "\<exists>i j. i < j \<and> j < length (db @ df) \<and> new_order ns db df ! i = u \<and> new_order ns db df ! j = v"
    using uv
  proof (elim disjE conjE)
    assume "u \<in> set db" "v \<in> set db" "rk ns u < rk ns v"
    then obtain i j where "i < j" "j < length db" "?sb ! i = u" "?sb ! j = v" by (rule sort_key_index_less)
    then show ?thesis by (intro exI [of _ i] exI [of _ j]) (simp add: new_order_def nth_append)
  next
    assume "u \<in> set df" "v \<in> set df" "rk ns u < rk ns v"
    then obtain i j where "i < j" "j < length df" "?sf ! i = u" "?sf ! j = v" by (rule sort_key_index_less)
    then show ?thesis
      by (intro exI [of _ "length db + i"] exI [of _ "length db + j"]) (simp add: new_order_def nth_append)
  next
    assume "u \<in> set db" "v \<in> set df"
    then have "u \<in> set ?sb" "v \<in> set ?sf" by simp_all
    then obtain i j where "i < length ?sb" "?sb ! i = u" "j < length ?sf" "?sf ! j = v"
      by (auto simp only: in_set_conv_nth)
    then show ?thesis
      by (intro exI [of _ i] exI [of _ "length db + j"]) (simp add: new_order_def nth_append)
  qed
  then show ?thesis using new_rank_less [OF dist inj] by metis
qed

end
