(* ===== verification/GraphInvariant.thy ===== *)
theory GraphInvariant
  imports GraphOrder
begin

text \<open>
  The invariant of \<^verbatim>\<open>GraphCycles\<close> and what one insertion does to it: the edge sets of the nodes
  mirror each other, the ranks are a topological order, and \<^verbatim>\<open>InsertEdge\<close> accepts an edge exactly
  when it closes no cycle.
\<close>

section \<open>The graph of a node table\<close>

definition edges :: "Node list \<Rightarrow> (nat \<times> nat) set" where
  "edges ns = {(x, y). x < length ns \<and> y \<in> succs ns x}"

definition well_linked :: "Node list \<Rightarrow> bool" where
  "well_linked ns \<longleftrightarrow> (\<forall>x < length ns.
     OS_inv (n_in (ns ! x)) \<and> OS_inv (n_out (ns ! x)) \<and>
     (\<forall>y \<in> succs ns x. y < length ns \<and> x \<in> preds ns y) \<and>
     (\<forall>y \<in> preds ns x. y < length ns \<and> x \<in> succs ns y))"

definition ranked :: "(nat \<times> nat) set \<Rightarrow> Node list \<Rightarrow> bool" where
  "ranked E ns \<longleftrightarrow> inj_on (rk ns) {..<length ns} \<and> (\<forall>x < length ns. rk ns x < length ns) \<and>
     (\<forall>(x, y) \<in> E. rk ns x < rk ns y)"

definition gc_inv :: "Rep \<Rightarrow> bool" where
  "gc_inv r \<longleftrightarrow> well_linked (nodes r) \<and> ranked (edges (nodes r)) (nodes r) \<and> clean (nodes r) \<and>
     distinct (free_nodes r) \<and>
     (\<forall>n \<in> set (free_nodes r). n < length (nodes r) \<and> succs (nodes r) n = {} \<and> preds (nodes r) n = {})"

definition live :: "Rep \<Rightarrow> nat set" where
  "live r = {..<length (nodes r)} - set (free_nodes r)"

lemma well_linkedD:
  assumes "well_linked ns" "x < length ns"
  shows "OS_inv (n_in (ns ! x))" "OS_inv (n_out (ns ! x))"
    "y \<in> succs ns x \<Longrightarrow> y < length ns" "y \<in> succs ns x \<Longrightarrow> x \<in> preds ns y"
    "y \<in> preds ns x \<Longrightarrow> y < length ns" "y \<in> preds ns x \<Longrightarrow> x \<in> succs ns y"
  using assms unfolding well_linked_def by blast+

lemma edges_lessD: "well_linked ns \<Longrightarrow> (x, y) \<in> edges ns \<Longrightarrow> x < length ns \<and> y < length ns"
  using well_linkedD(3) by (auto simp: edges_def)

lemma pred_edge: "well_linked ns \<Longrightarrow> x < length ns \<Longrightarrow> y \<in> preds ns x \<longleftrightarrow> (y, x) \<in> edges ns"
  using well_linkedD(4) [of ns y x] well_linkedD(5,6) [of ns x y] by (auto simp: edges_def)

lemma ranked_trancl:
  assumes "ranked E ns" "(x, y) \<in> E\<^sup>+"
  shows "rk ns x < rk ns y"
  using assms(2)
proof (induction rule: trancl_induct)
  case (step y z)
  then have "rk ns y < rk ns z" using assms(1) by (auto simp: ranked_def)
  with step.IH show ?case by (rule less_trans)
qed (use assms(1) in \<open>auto simp: ranked_def\<close>)

lemma ranked_acyclic: "ranked E ns \<Longrightarrow> acyclic E"
  using ranked_trancl by (auto simp: acyclic_def)

lemma edges_mark [simp]: "edges (mark V ns) = edges ns"
  by (auto simp: edges_def)

section \<open>Searching above and below a rank\<close>

lemma ForwardLoop_spec:
  assumes wl: "well_linked ns" and "clean ns" and y: "y < length ns" "rk ns y < ub"
  defines "R \<equiv> {(u, w) \<in> edges ns. rk ns u < ub}"
  shows "\<exists>b df st. ForwardLoop ub ns [] [y] = Some (b, mark (set df) ns, df, st) \<and> distinct df \<and>
    (\<forall>u \<in> set df. u < length ns \<and> rk ns u < ub \<and> (y, u) \<in> R\<^sup>*) \<and>
    (if b then y \<in> set df \<and> (\<forall>u \<in> set df. \<forall>w \<in> succs ns u. rk ns w \<noteq> ub \<and> (rk ns w < ub \<longrightarrow> w \<in> set df))
     else \<exists>u \<in> set df. \<exists>w \<in> succs ns u. rk ns w = ub)"
proof -
  let ?P = "\<lambda>u. rk ns u < ub \<and> (y, u) \<in> R\<^sup>*"
  have step: "?P w" if "u < length ns" "?P u" "w \<in> succs ns u" "rk ns w < ub" for u w
  proof -
    have "(u, w) \<in> R" using that by (simp add: R_def edges_def)
    with that show ?thesis by (meson rtrancl.rtrancl_into_rtrancl)
  qed
  have range: "\<forall>u < length ns. \<forall>w \<in> succs ns u. w < length ns" using wl unfolding well_linked_def by blast
  have "\<exists>b d'. forward_loop ub (mark ({} \<union> set []) ns) [] [y] = Some (b, mark ({} \<union> set d') ns, d') \<and>
    forward.found ns ?P {} d' \<and> set [] \<subseteq> set d' \<and> forward.outcome ub ns {} [y] b d'"
  proof (rule forward.search [where P = ?P and ?V0.0 = "{}" and d = "[]" and st = "[y]" and ns = ns, OF range])
    show "\<forall>n \<in> set [y]. n < length ns \<and> ?P n" using y by simp
    show "forward.found ns ?P {} []" by (simp add: forward.found_def)
    show "forward.closed_upto ub ns ({} \<union> set [y]) []" by (simp add: forward.closed_upto_def)
  qed (fact step)
  then obtain b df where r: "forward_loop ub ns [] [y] = Some (b, mark (set df) ns, df)"
      "forward.found ns ?P {} df" "forward.outcome ub ns {} [y] b df"
    using \<open>clean ns\<close> by (auto simp: mark_clean)
  from r(1) obtain st where "ForwardLoop ub ns [] [y] = Some (b, mark (set df) ns, df, st)" by auto
  moreover have "if b then y \<in> set df \<and>
      (\<forall>u \<in> set df. \<forall>w \<in> succs ns u. rk ns w \<noteq> ub \<and> (rk ns w < ub \<longrightarrow> w \<in> set df))
    else \<exists>u \<in> set df. \<exists>w \<in> succs ns u. rk ns w = ub"
    using r(3) by (cases b) (simp_all add: forward.outcome_def forward.closed_upto_def)
  ultimately show ?thesis using r(2) unfolding forward.found_def by blast
qed

lemma BackwardLoop_spec:
  assumes wl: "well_linked ns" and x: "x < length ns" "x \<notin> F" "lb < rk ns x"
    and mono: "\<And>u w. (w, u) \<in> edges ns \<Longrightarrow> lb < rk ns u \<Longrightarrow> rk ns w < rk ns u"
  shows "\<exists>db. BackwardLoop lb (mark F ns) [] [x] = Some (mark (F \<union> set db) ns, db) \<and> distinct db \<and>
    set db \<inter> F = {} \<and> x \<in> set db \<and>
    (\<forall>u \<in> set db. u < length ns \<and> lb < rk ns u \<and> rk ns u \<le> rk ns x) \<and>
    (\<forall>u \<in> set db. \<forall>w. (w, u) \<in> edges ns \<longrightarrow> lb < rk ns w \<longrightarrow> w \<in> F \<union> set db)"
proof -
  let ?P = "\<lambda>u. lb < rk ns u \<and> rk ns u \<le> rk ns x"
  have step: "?P w" if "u < length ns" "?P u" "w \<in> preds ns u" "lb < rk ns w" for u w
    using mono [of w u] that pred_edge [OF wl] by (meson le_trans less_imp_le)
  have range: "\<forall>u < length ns. \<forall>w \<in> preds ns u. w < length ns" using wl unfolding well_linked_def by blast
  have "\<exists>b d'. backward_loop lb (mark (F \<union> set []) ns) [] [x] = Some (b, mark (F \<union> set d') ns, d') \<and>
    backward.found ns ?P F d' \<and> set [] \<subseteq> set d' \<and> backward.outcome lb ns F [x] b d'"
  proof (rule backward.search [where P = ?P and ?V0.0 = F and d = "[]" and st = "[x]" and ns = ns, OF range])
    show "\<forall>n \<in> set [x]. n < length ns \<and> ?P n" using x by simp
    show "backward.found ns ?P F []" by (simp add: backward.found_def)
    show "backward.closed_upto lb ns (F \<union> set [x]) []" by (simp add: backward.closed_upto_def)
  qed (fact step)
  then obtain db where "BackwardLoop lb (mark F ns) [] [x] = Some (mark (F \<union> set db) ns, db)"
      "backward.found ns ?P F db" "backward.outcome lb ns F [x] True db"
    by auto
  then show ?thesis
    using x pred_edge [OF wl]
    by (intro exI [of _ db]) (simp add: backward.found_def backward.outcome_def backward.closed_upto_def)
qed

section \<open>A valid order after the reordering\<close>

lemma reorder_valid:
  assumes wl: "well_linked ns" and inj: "inj_on (rk ns) {..<length ns}"
    and small: "\<forall>u < length ns. rk ns u < length ns"
    and old: "\<forall>(u, v) \<in> edges ns - {(x, y)}. rk ns u < rk ns v"
    and x: "x < length ns" "x \<in> set db" and y: "y < length ns" "y \<in> set df"
    and df: "distinct df" "\<forall>u \<in> set df. u < length ns \<and> rk ns u < rk ns x"
      "\<forall>u \<in> set df. \<forall>w \<in> succs ns u. rk ns w \<noteq> rk ns x \<and> (rk ns w < rk ns x \<longrightarrow> w \<in> set df)"
    and db: "distinct db" "set db \<inter> set df = {}"
      "\<forall>u \<in> set db. u < length ns \<and> rk ns y < rk ns u \<and> rk ns u \<le> rk ns x"
      "\<forall>u \<in> set db. \<forall>w. (w, u) \<in> edges ns \<longrightarrow> rk ns y < rk ns w \<longrightarrow> w \<in> set df \<union> set db"
    and low: "\<forall>u \<in> set df. rk ns y \<le> rk ns u"
  shows "ranked (edges ns) (rerank (new_rank ns db df) ns)"
proof -
  let ?f = "new_rank ns db df" and ?L = "set (db @ df)"
  define new where "new u = rk (rerank ?f ns) u" for u
  have dist: "distinct (db @ df)" using df(1) db(1,2) by auto
  have L: "?L \<subseteq> {..<length ns}" using df(2) db(3) by auto
  have injL: "inj_on (rk ns) ?L" by (rule inj_on_subset [OF inj L])
  have keep: "new u = rk ns u" if "u < length ns" "u \<notin> ?L" for u
    using that new_rank_old [of u db df ns] by (simp add: new_def nth_rerank)
  have newI: "new u = m" if "u < length ns" "?f u = Some m" for u m
    using that by (simp add: new_def nth_rerank)
  have moved: "new u \<in> rk ns ` ?L" if u: "u \<in> ?L" for u
  proof -
    obtain m where m: "?f u = Some m"
      using u new_rank_backward [OF dist, of u ns] new_rank_forward [OF dist, of u ns] by auto
    moreover have "u < length ns" using that L by auto
    ultimately show ?thesis using new_rank_range [OF m] newI by simp
  qed
  have order: "new u < new v" if uv: "u \<in> set db \<and> v \<in> set db \<and> rk ns u < rk ns v \<or>
      u \<in> set df \<and> v \<in> set df \<and> rk ns u < rk ns v \<or> u \<in> set db \<and> v \<in> set df" for u v
  proof -
    have "u < length ns" "v < length ns" using that L by auto
    moreover obtain a b where "?f u = Some a" "?f v = Some b" "a < b"
      using new_rank_order [OF dist injL uv] by blast
    ultimately show ?thesis using newI by simp
  qed
  have down: "new u \<le> rk ns u" if "u \<in> set db" for u
    using new_rank_backward [OF dist that, of ns] newI [of u] L that by auto
  have up: "rk ns u \<le> new u" if "u \<in> set df" for u
    using new_rank_forward [OF dist that, of ns] newI [of u] L that by auto
  have between: "rk ns y \<le> new u \<and> new u \<le> rk ns x" if "u \<in> ?L" for u
    using moved [OF that] db(3) df(2) low by (auto simp: less_imp_le)
  have inj_moved: "new u \<noteq> new v" if "u \<in> ?L" "v \<in> ?L" "u \<noteq> v" for u v
  proof -
    have "rk ns u \<noteq> rk ns v" using that inj_onD [OF injL, of u v] by blast
    then consider "rk ns u < rk ns v" | "rk ns v < rk ns u" by linarith
    then have "new u < new v \<or> new v < new u"
      using that(1,2) order [of u v] order [of v u] by cases auto
    then show ?thesis by auto
  qed
  have inj_kept: "new u \<noteq> new v" if uv: "u \<in> ?L" "v \<notin> ?L" "v < length ns" for u v
  proof -
    obtain w where w: "w \<in> ?L" "new u = rk ns w" using moved [OF uv(1)] by blast
    then have "rk ns w \<noteq> rk ns v" using inj_onD [OF inj, of w v] uv L by auto
    with w keep [OF uv(3,2)] show ?thesis by simp
  qed
  have inj_new: "new u \<noteq> new v" if "u < length ns" "v < length ns" "u \<noteq> v" for u v
  proof (cases "u \<in> ?L \<or> v \<in> ?L")
    case True
    with that inj_moved [of u v] inj_kept [of u v] inj_kept [of v u] show ?thesis by metis
  next
    case False
    with that show ?thesis using keep [of u] keep [of v] inj_onD [OF inj, of u v] by auto
  qed
  have edge: "new u < new v" if e: "(u, v) \<in> edges ns" "(u, v) \<noteq> (x, y)" for u v
  proof -
    have lt: "u < length ns" "v < length ns" "v \<in> succs ns u"
      using edges_lessD [OF wl e(1)] e(1) by (auto simp: edges_def)
    have r: "rk ns u < rk ns v" using old e by auto
    consider (down) "u \<in> set db" | (up) "u \<in> set df" | (kept) "u \<notin> ?L" by auto
    then show ?thesis
    proof cases
      case down
      then show ?thesis
        using order [of u v] r \<open>\<And>u. u \<in> set db \<Longrightarrow> new u \<le> rk ns u\<close> [OF down] keep [OF lt(2)]
        by (cases "v \<in> ?L") auto
    next
      case up
      show ?thesis
      proof (cases "v \<in> set df")
        case True
        with up r order show ?thesis by blast
      next
        case False
        then have "rk ns x < rk ns v" using df(3) up lt(3) by (metis linorder_neqE_nat)
        then have "v \<notin> ?L" using db(3) df(2) by (auto dest: bspec)
        with \<open>rk ns x < rk ns v\<close> between [of u] up keep [OF lt(2)] show ?thesis by auto
      qed
    next
      case kept
      then have nu: "new u = rk ns u" using keep lt by simp
      consider "v \<in> set df" | "v \<in> set db" | "v \<notin> ?L" by auto
      then show ?thesis
      proof cases
        case 1
        with up [of v] r nu show ?thesis by simp
      next
        case 2
        then have "\<not> rk ns y < rk ns u" using db(4) e(1) kept by auto
        moreover have "rk ns u \<noteq> rk ns y" using inj_onD [OF inj, of u y] lt y kept by auto
        ultimately show ?thesis using between [of v] 2 nu by auto
      next
        case 3
        with keep [OF lt(2)] nu r show ?thesis by simp
      qed
    qed
  qed
  have "new u < new v" if "(u, v) \<in> edges ns" for u v
    using edge [OF that] order [of x y] x y by (cases "(u, v) = (x, y)") auto
  moreover have "new u < length ns" if "u < length ns" for u
    using keep [OF that] moved [of u] small L that by (cases "u \<in> ?L") auto
  moreover have "inj_on new {..<length ns}" by (rule inj_onI) (metis inj_new lessThan_iff)
  ultimately show ?thesis by (auto simp: ranked_def new_def [symmetric] inj_on_def)
qed

end
