(* ===== verification/GraphInsert.thy ===== *)
theory GraphInsert
  imports GraphInvariant
begin

text \<open>
  \<^verbatim>\<open>InsertEdge\<close>, \<^verbatim>\<open>RemoveEdge\<close> and \<^verbatim>\<open>IsReachableNonConst\<close> of \<^verbatim>\<open>GraphCycles\<close> as operations on the
  set of edges: every call returns, keeps the invariant, and does to the edges what its comment
  promises.
\<close>

section \<open>Node tables as sets of edges\<close>

definition represents :: "Node list \<Rightarrow> (nat \<times> nat) set \<Rightarrow> bool" where
  "represents ns E \<longleftrightarrow> E \<subseteq> {..<length ns} \<times> {..<length ns} \<and>
     (\<forall>x < length ns. OS_inv (n_in (ns ! x)) \<and> OS_inv (n_out (ns ! x)) \<and>
        succs ns x = E `` {x} \<and> preds ns x = E\<inverse> `` {x})"

definition attrs :: "Node \<Rightarrow> nat \<times> bool \<times> nat option" where
  "attrs n = (n_rank n, n_visited n, n_data n)"

abbreviation same_attrs :: "Node list \<Rightarrow> Node list \<Rightarrow> bool" where
  "same_attrs ns ns' \<equiv> map attrs ns' = map attrs ns"

lemma same_attrs_length: "same_attrs ns ns' \<Longrightarrow> length ns' = length ns"
  by (rule map_eq_imp_length_eq)

lemma same_attrs_nth:
  assumes "same_attrs ns ns'" "i < length ns"
  shows "n_rank (ns' ! i) = n_rank (ns ! i)" "n_visited (ns' ! i) = n_visited (ns ! i)"
    "n_data (ns' ! i) = n_data (ns ! i)"
proof -
  have "attrs (ns' ! i) = attrs (ns ! i)"
    using assms same_attrs_length [OF assms(1)] by (metis nth_map)
  then show "n_rank (ns' ! i) = n_rank (ns ! i)" "n_visited (ns' ! i) = n_visited (ns ! i)"
    "n_data (ns' ! i) = n_data (ns ! i)" by (simp_all add: attrs_def)
qed

lemma same_attrs_clean: "same_attrs ns ns' \<Longrightarrow> clean ns' = clean ns"
  using same_attrs_nth(2) [of ns ns'] same_attrs_length [of ns ns']
  by (auto simp: clean_def all_set_conv_all_nth)

lemma representsD:
  assumes "represents ns E"
  shows "(x, y) \<in> E \<Longrightarrow> x < length ns" "(x, y) \<in> E \<Longrightarrow> y < length ns"
    "x < length ns \<Longrightarrow> OS_inv (n_in (ns ! x))" "x < length ns \<Longrightarrow> OS_inv (n_out (ns ! x))"
    "x < length ns \<Longrightarrow> succs ns x = E `` {x}" "x < length ns \<Longrightarrow> preds ns x = E\<inverse> `` {x}"
  using assms unfolding represents_def by blast+

lemma represents_iff: "represents ns E \<longleftrightarrow> well_linked ns \<and> edges ns = E"
proof
  assume r: "represents ns E"
  note D = representsD [OF r]
  have "edges ns = E" using D(1,5) by (auto simp: edges_def)
  moreover have "well_linked ns"
    unfolding well_linked_def
  proof (intro allI impI conjI ballI)
    fix x assume x: "x < length ns"
    show "OS_inv (n_in (ns ! x))" "OS_inv (n_out (ns ! x))" using D(3,4) x by simp_all
    show y: "y < length ns" if "y \<in> succs ns x" for y using D(2,5) x that by blast
    show "x \<in> preds ns y" if "y \<in> succs ns x" for y using D(5) [OF x] D(6) [OF y [OF that]] that by blast
    show y': "y < length ns" if "y \<in> preds ns x" for y using D(1,6) x that by blast
    show "x \<in> succs ns y" if "y \<in> preds ns x" for y using D(6) [OF x] D(5) [OF y' [OF that]] that by blast
  qed
  ultimately show "well_linked ns \<and> edges ns = E" by simp
next
  assume a: "well_linked ns \<and> edges ns = E"
  show "represents ns E"
    unfolding represents_def
  proof (intro conjI allI impI)
    show "E \<subseteq> {..<length ns} \<times> {..<length ns}" using a edges_lessD [of ns] by auto
    fix x assume x: "x < length ns"
    show "OS_inv (n_in (ns ! x))" "OS_inv (n_out (ns ! x))" using a x well_linkedD by blast+
    show "succs ns x = E `` {x}" using a x by (auto simp: edges_def)
    show "preds ns x = E\<inverse> `` {x}" using a x pred_edge [of ns x] by auto
  qed
qed

lemma represents_links:
  assumes "represents ns E" "length ns' = length ns"
    and "\<And>x. x < length ns \<Longrightarrow> n_in (ns' ! x) = n_in (ns ! x) \<and> n_out (ns' ! x) = n_out (ns ! x)"
  shows "represents ns' E"
  using assms by (simp add: represents_def)

lemma represents_mark: "represents ns E \<Longrightarrow> represents (mark V ns) E"
  by (erule represents_links) simp_all

lemma represents_rerank: "represents ns E \<Longrightarrow> represents (rerank f ns) E"
  by (erule represents_links) (simp_all add: nth_rerank split: option.split)

section \<open>Changing one edge\<close>

lemma represents_insert:
  assumes r: "represents ns E" and xy: "x < length ns" "y < length ns" "x \<noteq> y"
  defines "ns1 \<equiv> ns[x := (ns ! x)\<lparr>n_out := snd (OS_Insert y (n_out (ns ! x)))\<rparr>]"
  defines "ns2 \<equiv> ns1[y := (ns1 ! y)\<lparr>n_in := snd (OS_Insert x (n_in (ns1 ! y)))\<rparr>]"
  shows "represents ns2 (insert (x, y) E)" "same_attrs ns ns2"
proof -
  note D = representsD [OF r]
  have nth: "ns2 ! i = (if i = x then (ns ! x)\<lparr>n_out := snd (OS_Insert y (n_out (ns ! x)))\<rparr>
      else if i = y then (ns ! y)\<lparr>n_in := snd (OS_Insert x (n_in (ns ! y)))\<rparr> else ns ! i)" if "i < length ns" for i
    using that xy by (simp add: ns2_def ns1_def nth_list_update)
  have len: "length ns2 = length ns" by (simp add: ns2_def ns1_def)
  show "same_attrs ns ns2" using nth len by (intro nth_equalityI) (simp_all add: attrs_def)
  show "represents ns2 (insert (x, y) E)"
    unfolding represents_def
  proof (intro conjI allI impI)
    show "insert (x, y) E \<subseteq> {..<length ns2} \<times> {..<length ns2}" using D(1,2) xy len by auto
    fix i assume "i < length ns2"
    then have i: "i < length ns" by (simp add: len)
    show "OS_inv (n_in (ns2 ! i))" "OS_inv (n_out (ns2 ! i))"
      using D(3,4) i xy by (simp_all add: nth os.inv_insert)
    show "succs ns2 i = insert (x, y) E `` {i}"
      using D(4,5) i xy by (auto simp: nth os.set_insert)
    show "preds ns2 i = (insert (x, y) E)\<inverse> `` {i}"
      using D(3,6) i xy by (auto simp: nth os.set_insert)
  qed
qed

lemma erase_out_in:
  assumes r: "represents ns E" and e: "(x, y) \<in> E" "x \<noteq> y"
  shows "\<exists>ns1 ns2. erase_out y x ns = Some ns1 \<and> erase_in x y ns1 = Some ns2 \<and>
    represents ns2 (E - {(x, y)}) \<and> same_attrs ns ns2"
proof -
  note D = representsD [OF r]
  have xy: "x < length ns" "y < length ns" using D(1,2) e by blast+
  obtain s where s: "OS_Erase y (n_out (ns ! x)) = Some s" "OS_inv s" "set (OS_GetSequence s) = succs ns x - {y}"
    using os.erase_some [OF D(4) [OF xy(1)], of y] D(5) [OF xy(1)] e by auto
  obtain t where t: "OS_Erase x (n_in (ns ! y)) = Some t" "OS_inv t" "set (OS_GetSequence t) = preds ns y - {x}"
    using os.erase_some [OF D(3) [OF xy(2)], of x] D(6) [OF xy(2)] e by auto
  define ns1 where "ns1 = ns[x := (ns ! x)\<lparr>n_out := s\<rparr>]"
  define ns2 where "ns2 = ns1[y := (ns1 ! y)\<lparr>n_in := t\<rparr>]"
  have nth: "ns2 ! i = (if i = x then (ns ! x)\<lparr>n_out := s\<rparr>
      else if i = y then (ns ! y)\<lparr>n_in := t\<rparr> else ns ! i)" if "i < length ns" for i
    using that xy e(2) by (simp add: ns2_def ns1_def nth_list_update)
  have len: "length ns2 = length ns" by (simp add: ns2_def ns1_def)
  have "erase_out y x ns = Some ns1"
    using xy s by (simp add: erase_out_def node_at_def modify_def ns1_def)
  moreover have "erase_in x y ns1 = Some ns2"
    using xy t e(2) by (simp add: erase_in_def node_at_def modify_def ns1_def ns2_def)
  moreover have "same_attrs ns ns2" using nth len by (intro nth_equalityI) (simp_all add: attrs_def)
  moreover have "represents ns2 (E - {(x, y)})"
    unfolding represents_def
  proof (intro conjI allI impI)
    show "E - {(x, y)} \<subseteq> {..<length ns2} \<times> {..<length ns2}" using D(1,2) len by auto
    fix i assume "i < length ns2"
    then have i: "i < length ns" by (simp add: len)
    show "OS_inv (n_in (ns2 ! i))" "OS_inv (n_out (ns2 ! i))" using D(3,4) i s(2) t(2) by (simp_all add: nth)
    show "succs ns2 i = (E - {(x, y)}) `` {i}" using D(5) [OF i] i s(3) e(2) D(5) [OF xy(2)] by (auto simp: nth)
    show "preds ns2 i = (E - {(x, y)})\<inverse> `` {i}" using D(6) [OF i] i t(3) e(2) D(6) [OF xy(1)] by (auto simp: nth)
  qed
  ultimately show ?thesis by blast
qed

section \<open>The invariant, by its set of edges\<close>

lemma gc_inv_iff:
  "gc_inv r \<longleftrightarrow> (\<exists>E. represents (nodes r) E \<and> ranked E (nodes r) \<and> clean (nodes r) \<and>
     distinct (free_nodes r) \<and> set (free_nodes r) \<subseteq> {..<length (nodes r)} \<and>
     Field E \<inter> set (free_nodes r) = {})" (is "_ \<longleftrightarrow> ?R")
proof
  assume g: "gc_inv r"
  let ?E = "edges (nodes r)"
  have r: "represents (nodes r) ?E" using g by (simp add: represents_iff gc_inv_def)
  have "Field ?E \<inter> set (free_nodes r) = {}"
  proof -
    have "n \<notin> Field ?E" if n: "n \<in> set (free_nodes r)" for n
    proof -
      have "n < length (nodes r)" "succs (nodes r) n = {}" "preds (nodes r) n = {}"
        using g n by (auto simp: gc_inv_def)
      then have "?E `` {n} = {}" "?E\<inverse> `` {n} = {}" using representsD(5,6) [OF r] by metis+
      then show ?thesis by (auto simp: Field_def)
    qed
    then show ?thesis by auto
  qed
  then show ?R using g r by (intro exI [of _ ?E]) (auto simp: gc_inv_def)
next
  assume ?R
  then obtain E where r: "represents (nodes r) E" and *: "ranked E (nodes r)" "clean (nodes r)"
    "distinct (free_nodes r)" "set (free_nodes r) \<subseteq> {..<length (nodes r)}" "Field E \<inter> set (free_nodes r) = {}"
    by blast
  have "n < length (nodes r) \<and> succs (nodes r) n = {} \<and> preds (nodes r) n = {}" if n: "n \<in> set (free_nodes r)" for n
  proof -
    have "n < length (nodes r)" "n \<notin> Field E" using n *(4,5) by auto
    then show ?thesis using representsD(5,6) [OF r, of n] by (auto simp: Field_def)
  qed
  then show "gc_inv r" using r * by (simp add: gc_inv_def represents_iff)
qed

lemma gc_invD:
  assumes "gc_inv r"
  shows "represents (nodes r) (edges (nodes r))" "ranked (edges (nodes r)) (nodes r)" "clean (nodes r)"
    "distinct (free_nodes r)" "set (free_nodes r) \<subseteq> {..<length (nodes r)}"
    "Field (edges (nodes r)) \<inter> set (free_nodes r) = {}"
  using assms by (auto simp: gc_inv_iff represents_iff)

lemma gc_invI:
  assumes "represents (nodes r) E" "ranked E (nodes r)" "clean (nodes r)" "distinct (free_nodes r)"
    "set (free_nodes r) \<subseteq> {..<length (nodes r)}" "Field E \<inter> set (free_nodes r) = {}"
  shows "gc_inv r \<and> edges (nodes r) = E"
  using assms by (auto simp: gc_inv_iff represents_iff)

lemma ranked_cong:
  assumes "length ns' = length ns" "\<And>i. i < length ns \<Longrightarrow> rk ns' i = rk ns i"
    "E \<subseteq> {..<length ns} \<times> {..<length ns}" "ranked E ns"
  shows "ranked E ns'"
proof -
  have "rk ns' x < rk ns' y" if "(x, y) \<in> E" for x y
  proof -
    have "x < length ns" "y < length ns" using assms(3) that by auto
    with assms(2,4) that show ?thesis by (auto simp: ranked_def)
  qed
  moreover have "inj_on (rk ns') {..<length ns}"
    using assms(2,4) inj_on_cong [of "{..<length ns}" "rk ns'" "rk ns"] by (simp add: ranked_def)
  ultimately show ?thesis using assms(1,2,4) by (auto simp: ranked_def)
qed

lemma ranked_subset: "ranked E ns \<Longrightarrow> F \<subseteq> E \<Longrightarrow> ranked F ns"
  by (auto simp: ranked_def)

lemma mark_same_attrs:
  assumes "same_attrs (mark V ns) ns'"
  shows "mark V ns' = ns'"
proof (rule nth_equalityI)
  fix i assume "i < length (mark V ns')"
  then have i: "i < length ns'" "i < length ns" using same_attrs_length [OF assms] by simp_all
  then have "n_visited (ns' ! i) = (i \<in> V)" using same_attrs_nth(2) [OF assms, of i] by simp
  with i show "mark V ns' ! i = ns' ! i" by simp
qed simp

lemma clean_rerank: "clean ns \<Longrightarrow> clean (rerank f ns)"
  by (auto simp: clean_def all_set_conv_all_nth nth_rerank split: option.split)

section \<open>Cycles and the forward search\<close>

text \<open>
  The table may already hold a new edge \<open>(x, y)\<close>, the ranks are those of the old edges \<open>E\<close>, and
  \<open>y\<close> is below \<open>x\<close>.
\<close>

lemma forward_search_exact:
  assumes ns: "represents ns E'" "clean ns" and rank: "ranked E ns"
    and xy: "x < length ns" "y < length ns" "rk ns y < rk ns x"
    and E': "E \<subseteq> E'" "E' \<subseteq> insert (x, y) E"
  shows "\<exists>b df st. ForwardLoop (rk ns x) ns [] [y] = Some (b, mark (set df) ns, df, st) \<and> distinct df \<and>
    (\<forall>u \<in> set df. u < length ns \<and> rk ns y \<le> rk ns u \<and> rk ns u < rk ns x) \<and>
    (b \<longleftrightarrow> (y, x) \<notin> E\<^sup>*) \<and>
    (b \<longrightarrow> y \<in> set df \<and>
      (\<forall>u \<in> set df. \<forall>w \<in> succs ns u. rk ns w \<noteq> rk ns x \<and> (rk ns w < rk ns x \<longrightarrow> w \<in> set df)))"
proof -
  let ?ub = "rk ns x" and ?R = "{(u, w) \<in> edges ns. rk ns u < rk ns x}"
  have edges: "edges ns = E'" and wl: "well_linked ns"
    using ns(1) by (simp_all add: represents_iff)
  obtain b df st where l: "ForwardLoop ?ub ns [] [y] = Some (b, mark (set df) ns, df, st)" "distinct df"
    and df: "\<forall>u \<in> set df. u < length ns \<and> rk ns u < ?ub \<and> (y, u) \<in> ?R\<^sup>*"
    and res: "if b then y \<in> set df \<and> (\<forall>u \<in> set df. \<forall>w \<in> succs ns u. rk ns w \<noteq> ?ub \<and> (rk ns w < ?ub \<longrightarrow> w \<in> set df))
     else \<exists>u \<in> set df. \<exists>w \<in> succs ns u. rk ns w = ?ub"
    using ForwardLoop_spec [OF wl ns(2) xy(2,3)] by blast
  have R: "?R \<subseteq> E" using edges E'(2) by auto
  have E: "(u, v) \<in> E" if "u \<in> set df" "v \<in> succs ns u" for u v
  proof -
    have "(u, v) \<in> edges ns" "u \<noteq> x" using that df by (auto simp: edges_def)
    then show ?thesis using E'(2) by (auto simp: edges)
  qed
  have succ: "v \<in> succs ns u" if "(u, v) \<in> E" for u v
  proof -
    have "(u, v) \<in> edges ns" using that E'(1) by (auto simp: edges)
    then show ?thesis by (simp add: edges_def)
  qed
  have reach: "(y, u) \<in> E\<^sup>*" if "u \<in> set df" for u
    using df that rtrancl_mono [OF R] by blast
  have low: "rk ns y \<le> rk ns u" if "u \<in> set df" for u
    using reach [OF that] ranked_trancl [OF rank, of y u] by (auto simp: rtrancl_eq_or_trancl)
  have "b \<longleftrightarrow> (y, x) \<notin> E\<^sup>*"
  proof (cases b)
    case True
    have "v \<in> set df" if "(y, v) \<in> E\<^sup>*" "rk ns v < ?ub" for v
      using that
    proof (induction rule: rtrancl_induct)
      case base
      then show ?case using res True by simp
    next
      case (step v z)
      have "rk ns v < rk ns z" using rank step(2) by (auto simp: ranked_def)
      with step have "v \<in> set df" by simp
      with res True succ [OF step(2)] step(4) show ?case by simp
    qed note inF = this
    have False if "(y, x) \<in> E\<^sup>*"
      using that
    proof (cases rule: rtranclE)
      case base
      then show False using xy by simp
    next
      case (step u)
      have "rk ns u < ?ub" using rank step(2) by (auto simp: ranked_def)
      with inF step have "u \<in> set df" by blast
      with res True succ [OF step(2)] show False by auto
    qed
    with True show ?thesis by blast
  next
    case False
    then obtain u w where u: "u \<in> set df" "w \<in> succs ns u" "rk ns w = ?ub" using res by auto
    then have "w < length ns" using well_linkedD(3) [OF wl] df by blast
    then have "w = x" using u(3) rank xy by (auto simp: ranked_def dest: inj_onD)
    with reach [OF u(1)] E [OF u(1,2)] False show ?thesis by (auto intro: rtrancl_into_rtrancl)
  qed
  moreover have "\<forall>u \<in> set df. u < length ns \<and> rk ns y \<le> rk ns u \<and> rk ns u < rk ns x" using df low by blast
  moreover have "b \<longrightarrow> y \<in> set df \<and>
      (\<forall>u \<in> set df. \<forall>w \<in> succs ns u. rk ns w \<noteq> rk ns x \<and> (rk ns w < rk ns x \<longrightarrow> w \<in> set df))"
    using res by (cases b) simp_all
  ultimately show ?thesis using l by blast
qed

section \<open>Inserting an edge\<close>

text \<open>What an insertion promises: an edge that closes a cycle is refused and changes nothing.\<close>

definition inserts :: "nat \<Rightarrow> nat \<Rightarrow> Rep \<Rightarrow> bool \<Rightarrow> Rep \<Rightarrow> bool" where
  "inserts x y r b r' \<longleftrightarrow> gc_inv r' \<and> free_nodes r' = free_nodes r \<and> length (nodes r') = length (nodes r) \<and>
     (\<forall>i < length (nodes r). n_data (nodes r' ! i) = n_data (nodes r ! i)) \<and>
     (b \<longleftrightarrow> x \<noteq> y \<and> (y, x) \<notin> (edges (nodes r))\<^sup>*) \<and>
     edges (nodes r') = (if b then insert (x, y) (edges (nodes r)) else edges (nodes r))"

text \<open>The table \<open>ns\<close> after a new edge was linked in and before the ranks are looked at.\<close>

definition linked :: "nat \<Rightarrow> nat \<Rightarrow> Rep \<Rightarrow> Node list \<Rightarrow> bool" where
  "linked x y r ns \<longleftrightarrow> gc_inv r \<and> x \<in> live r \<and> y \<in> live r \<and> x \<noteq> y \<and> (x, y) \<notin> edges (nodes r) \<and>
     represents ns (insert (x, y) (edges (nodes r))) \<and> same_attrs (nodes r) ns"

lemma linkedD:
  assumes "linked x y r ns"
  defines "E \<equiv> edges (nodes r)"
  shows "x < length ns" "y < length ns" "x \<noteq> y" "(x, y) \<notin> E" "represents ns (insert (x, y) E)"
    "length ns = length (nodes r)" "E \<subseteq> {..<length ns} \<times> {..<length ns}" "ranked E ns" "clean ns"
    "i < length ns \<Longrightarrow> n_data (ns ! i) = n_data (nodes r ! i)" "distinct (free_nodes r)"
    "set (free_nodes r) \<subseteq> {..<length ns}" "Field (insert (x, y) E) \<inter> set (free_nodes r) = {}"
proof -
  have l: "gc_inv r" "x \<in> live r" "y \<in> live r" and sa: "same_attrs (nodes r) ns"
    using assms(1) by (auto simp: linked_def)
  note D = gc_invD [OF l(1)]
  show len: "length ns = length (nodes r)" by (rule same_attrs_length [OF sa])
  show xy: "x < length ns" "y < length ns" using l by (auto simp: live_def len)
  show "x \<noteq> y" "(x, y) \<notin> E" "represents ns (insert (x, y) E)"
    using assms(1) by (auto simp: linked_def E_def)
  show E: "E \<subseteq> {..<length ns} \<times> {..<length ns}" using representsD(1,2) [OF D(1)] by (auto simp: E_def len)
  show "ranked E ns"
    by (rule ranked_cong [OF len same_attrs_nth(1) [OF sa] _ D(2) [folded E_def]]) (use E len in simp_all)
  show "clean ns" using D(3) same_attrs_clean [OF sa] by simp
  show "n_data (ns ! i) = n_data (nodes r ! i)" if "i < length ns" for i
    using same_attrs_nth(3) [OF sa, of i] that len by simp
  show "distinct (free_nodes r)" "set (free_nodes r) \<subseteq> {..<length ns}" using D(4,5) len by simp_all
  show "Field (insert (x, y) E) \<inter> set (free_nodes r) = {}"
    using D(6) l by (auto simp: E_def live_def)
qed

lemma insert_upwards:
  assumes l: "linked x y r ns" and le: "rk ns x \<le> rk ns y"
  shows "inserts x y r True (r\<lparr>nodes := ns\<rparr>)"
proof -
  let ?E = "edges (nodes r)"
  note L = linkedD [OF l]
  have "rk ns x \<noteq> rk ns y" using L(1,2,3,8) by (auto simp: ranked_def dest: inj_onD)
  then have "ranked (insert (x, y) ?E) ns" using L(8) le by (auto simp: ranked_def)
  moreover have "(y, x) \<notin> ?E\<^sup>*"
    using ranked_trancl [OF L(8), of y x] le L(3) by (auto simp: rtrancl_eq_or_trancl)
  ultimately show ?thesis
    using gc_invI [of "r\<lparr>nodes := ns\<rparr>" "insert (x, y) ?E"] L by (simp add: inserts_def)
qed

lemma insert_cycle:
  assumes l: "linked x y r ns" and df: "\<forall>u \<in> set df. u < length ns" and cycle: "(y, x) \<in> (edges (nodes r))\<^sup>*"
  shows "\<exists>ns4 ns5 ns6. erase_out y x (mark (set df) ns) = Some ns4 \<and> erase_in x y ns4 = Some ns5 \<and>
    ClearVisitedBits df ns5 = Some ns6 \<and> inserts x y r False (r\<lparr>nodes := ns6, deltaf := df, dfs_stack := st\<rparr>)"
proof -
  let ?E = "edges (nodes r)"
  note L = linkedD [OF l]
  have E0: "insert (x, y) ?E - {(x, y)} = ?E" using L(4) by auto
  obtain ns4 ns5 where e: "erase_out y x (mark (set df) ns) = Some ns4" "erase_in x y ns4 = Some ns5"
      "represents ns5 ?E" "same_attrs (mark (set df) ns) ns5"
    using erase_out_in [OF represents_mark [OF L(5)] _ L(3), of "set df"] by (auto simp: E0)
  have len5: "length ns5 = length ns" using same_attrs_length [OF e(4)] by simp
  have ns5: "mark (set df) ns5 = ns5" by (rule mark_same_attrs [OF e(4)])
  have "ClearVisitedBits df (mark (set df) ns5) = Some (mark (set df - set df) ns5)"
    using df len5 by (intro ClearVisitedBits_mark) auto
  then have cl: "ClearVisitedBits df ns5 = Some (mark {} ns5)" by (simp add: ns5)
  have attr: "rk (mark {} ns5) i = rk ns i \<and> n_data (mark {} ns5 ! i) = n_data (ns ! i)" if "i < length ns" for i
    using same_attrs_nth(1,3) [OF e(4), of i] that len5 by simp
  have "ranked ?E (mark {} ns5)"
  proof (rule ranked_cong [OF _ _ L(7,8)])
    show "length (mark {} ns5) = length ns" by (simp add: len5)
  qed (use attr in blast)
  moreover have "Field ?E \<inter> set (free_nodes r) = {}" using L(13) by auto
  ultimately have "inserts x y r False (r\<lparr>nodes := mark {} ns5, deltaf := df, dfs_stack := st\<rparr>)"
    using gc_invI [of "r\<lparr>nodes := mark {} ns5, deltaf := df, dfs_stack := st\<rparr>" ?E]
      represents_mark [OF e(3), of "{}"] len5 attr L(6,10,11,12) cycle by (simp add: inserts_def)
  with e cl show ?thesis by blast
qed

lemma insert_reorder:
  assumes l: "linked x y r ns" and lt: "rk ns y < rk ns x"
    and df: "distinct df" "\<forall>u \<in> set df. u < length ns \<and> rk ns y \<le> rk ns u \<and> rk ns u < rk ns x" "y \<in> set df"
      "\<forall>u \<in> set df. \<forall>w \<in> succs ns u. rk ns w \<noteq> rk ns x \<and> (rk ns w < rk ns x \<longrightarrow> w \<in> set df)"
    and r3: "r3 = r\<lparr>nodes := mark (set df) ns, deltaf := df, dfs_stack := st\<rparr>"
    and acyc: "(y, x) \<notin> (edges (nodes r))\<^sup>*"
  shows "\<exists>ny r4 r5. node_at (nodes r3) y = Some ny \<and> BackwardDFS x (n_rank ny) r3 = Some r4 \<and>
    Reorder r4 = Some r5 \<and> inserts x y r True r5"
proof -
  let ?E = "edges (nodes r)"
  note L = linkedD [OF l]
  have edges: "edges ns = insert (x, y) ?E" and wl: "well_linked ns" using L(5) by (auto simp: represents_iff)
  have old: "rk ns u < rk ns v" if "(u, v) \<in> edges ns" "(u, v) \<noteq> (x, y)" for u v
    using that L(8) by (auto simp: edges ranked_def)
  have "x \<notin> set df" using df(2) by blast
  have mono: "rk ns w < rk ns u" if "(w, u) \<in> edges ns" "rk ns y < rk ns u" for u w
    using old [of w u] that by auto
  obtain db where bw: "BackwardLoop (rk ns y) (mark (set df) ns) [] [x] = Some (mark (set df \<union> set db) ns, db)"
      "distinct db" "set db \<inter> set df = {}" "x \<in> set db"
    and db: "\<forall>u \<in> set db. u < length ns \<and> rk ns y < rk ns u \<and> rk ns u \<le> rk ns x"
      "\<forall>u \<in> set db. \<forall>w. (w, u) \<in> edges ns \<longrightarrow> rk ns y < rk ns w \<longrightarrow> w \<in> set df \<union> set db"
    using BackwardLoop_spec [OF wl L(1) \<open>x \<notin> set df\<close> lt mono] by blast
  let ?r4 = "r3\<lparr>nodes := mark (set df \<union> set db) ns, deltab := db, dfs_stack := []\<rparr>"
  have at: "node_at (nodes r3) y = Some ((ns ! y)\<lparr>n_visited := y \<in> set df\<rparr>)"
    using L(2) by (simp add: r3 node_at_mark)
  have r4: "BackwardDFS x (rk ns y) r3 = Some ?r4" by (simp add: BackwardDFS_def r3 bw(1))
  have "nodes ?r4 = mark (set (deltab ?r4) \<union> set (deltaf ?r4)) ns" by (simp add: r3 Un_commute)
  moreover have "\<forall>n \<in> set (deltab ?r4 @ deltaf ?r4). n < length ns" using db(1) df(2) by (auto simp: r3)
  moreover have "distinct (deltab ?r4 @ deltaf ?r4)" using bw(2,3) df(1) by (simp add: r3)
  ultimately obtain r5 where "Reorder ?r4 = Some r5"
      "nodes r5 = rerank (new_rank ns (deltab ?r4) (deltaf ?r4)) (mark {} ns)" "free_nodes r5 = free_nodes ?r4"
    using Reorder_rerank [of ?r4 ns] by blast
  then have r5: "Reorder ?r4 = Some r5" "nodes r5 = rerank (new_rank ns db df) ns" "free_nodes r5 = free_nodes r"
    using L(9) by (simp_all add: r3 mark_clean)
  have small: "\<forall>u < length ns. rk ns u < length ns" and inj: "inj_on (rk ns) {..<length ns}"
    using L(8) by (simp_all add: ranked_def)
  have "ranked (edges ns) (rerank (new_rank ns db df) ns)"
    using reorder_valid [OF wl inj small _ L(1) bw(4) L(2) df(3,1) _ df(4) bw(2,3) db] old df(2) by auto
  moreover have "n_data (rerank f ns ! i) = n_data (ns ! i)" if "i < length ns" for f i
    using that by (simp add: nth_rerank split: option.split)
  ultimately have "inserts x y r True r5"
    using gc_invI [of r5 "insert (x, y) ?E"] represents_rerank [OF L(5)] L acyc clean_rerank [OF L(9)]
    by (simp add: inserts_def r5 edges)
  with at r4 r5(1) show ?thesis by auto
qed

end
