(* ===== verification/GraphOps.thy ===== *)
theory GraphOps
  imports GraphInsert
begin

text \<open>
  The public operations of \<^verbatim>\<open>GraphCycles\<close>, each as a function on the set of live nodes and the set
  of edges: inserting, removing and contracting edges, allocating and removing nodes.
\<close>

section \<open>Inserting and removing edges\<close>

text \<open>What follows the linking of a new edge: nothing, or a search, and then either the old table
  again or a new order.\<close>

lemma insert_linked:
  assumes l: "linked x y r ns"
  shows "\<exists>b r'. (if rk ns x \<le> rk ns y then Some (True, r\<lparr>nodes := ns\<rparr>)
       else do {
         (ok, r3) \<leftarrow> ForwardDFS y (rk ns x) (r\<lparr>nodes := ns\<rparr>);
         if \<not> ok then do {
           ns4 \<leftarrow> erase_out y x (nodes r3);
           ns5 \<leftarrow> erase_in x y ns4;
           ns6 \<leftarrow> ClearVisitedBits (deltaf r3) ns5;
           Some (False, r3\<lparr>nodes := ns6\<rparr>) }
         else do {
           ny3 \<leftarrow> node_at (nodes r3) y;
           r4 \<leftarrow> BackwardDFS x (n_rank ny3) r3;
           r5 \<leftarrow> Reorder r4;
           Some (True, r5) } }) = Some (b, r') \<and> inserts x y r b r'" (is "\<exists>b r'. ?step = _ \<and> _")
proof (cases "rk ns x \<le> rk ns y")
  case True
  with insert_upwards [OF l] show ?thesis by auto
next
  case False
  then have less: "rk ns y < rk ns x" by simp
  obtain b df st where fw: "ForwardLoop (rk ns x) ns [] [y] = Some (b, mark (set df) ns, df, st)" "distinct df"
    and df: "\<forall>u \<in> set df. u < length ns \<and> rk ns y \<le> rk ns u \<and> rk ns u < rk ns x"
    and b: "b \<longleftrightarrow> (y, x) \<notin> (edges (nodes r))\<^sup>*"
    and closed: "b \<longrightarrow> y \<in> set df \<and>
      (\<forall>u \<in> set df. \<forall>w \<in> succs ns u. rk ns w \<noteq> rk ns x \<and> (rk ns w < rk ns x \<longrightarrow> w \<in> set df))"
    using forward_search_exact [OF linkedD(5,9,8,1,2) [OF l] less subset_insertI subset_refl] by blast
  let ?r3 = "r\<lparr>nodes := mark (set df) ns, deltaf := df, dfs_stack := st\<rparr>"
  have dfs: "ForwardDFS y (rk ns x) (r\<lparr>nodes := ns\<rparr>) = Some (b, ?r3)"
    by (simp add: ForwardDFS_def fw)
  show ?thesis
  proof (cases b)
    case True
    obtain ny r4 r5 where "node_at (nodes ?r3) y = Some ny" "BackwardDFS x (n_rank ny) ?r3 = Some r4"
        "Reorder r4 = Some r5" "inserts x y r True r5"
      using insert_reorder [OF l less fw(2) df _ _ refl, of st] closed b True by blast
    moreover from this(1-3) True dfs False have "?step = Some (True, r5)" by simp
    ultimately show ?thesis by blast
  next
    case no: False
    have "\<forall>u \<in> set df. u < length ns" using df by blast
    then obtain ns4 ns5 ns6 where "erase_out y x (mark (set df) ns) = Some ns4" "erase_in x y ns4 = Some ns5"
        "ClearVisitedBits df ns5 = Some ns6" "inserts x y r False (r\<lparr>nodes := ns6, deltaf := df, dfs_stack := st\<rparr>)"
      using insert_cycle [OF l, of df st] no b by blast
    moreover from this(1-3) no dfs False
    have "?step = Some (False, r\<lparr>nodes := ns6, deltaf := df, dfs_stack := st\<rparr>)" by simp
    ultimately show ?thesis by blast
  qed
qed

lemma InsertEdge_spec:
  assumes inv: "gc_inv r" and xy: "x \<in> live r" "y \<in> live r"
  shows "\<exists>b r'. InsertEdge x y r = Some (b, r') \<and> inserts x y r b r'"
proof (cases "x = y")
  case True
  with inv show ?thesis by (auto simp: InsertEdge_def inserts_def)
next
  case False
  let ?ns = "nodes r" and ?E = "edges (nodes r)"
  have lt: "x < length ?ns" "y < length ?ns" using xy by (auto simp: live_def)
  note D = gc_invD [OF inv] and R = representsD [OF gc_invD(1) [OF inv]]
  let ?out = "OS_Insert y (n_out (?ns ! x))"
  have new: "fst ?out \<longleftrightarrow> (x, y) \<notin> ?E"
    using os.insert_result [OF R(4) [OF lt(1)], of y] R(5) [OF lt(1)] by auto
  show ?thesis
  proof (cases "fst ?out")
    case old: False
    then have "?out = (False, n_out (?ns ! x))" by (auto simp: OS_Insert_def split: if_splits)
    then have "InsertEdge x y r = Some (True, r)"
      using False lt by (simp add: InsertEdge_def node_at_def modify_def)
    moreover have "(x, y) \<in> ?E" using new old by simp
    moreover from this have "(y, x) \<notin> ?E\<^sup>*"
      using ranked_acyclic [OF D(2)] by (metis acyclic_def rtrancl_into_trancl2)
    ultimately show ?thesis using inv False by (auto simp: inserts_def insert_absorb)
  next
    case True
    then obtain s where out: "OS_Insert y (n_out (?ns ! x)) = (True, s)" by (cases ?out) auto
    define ns2 where
      "ns2 = ?ns[x := (?ns ! x)\<lparr>n_out := s\<rparr>, y := (?ns ! y)\<lparr>n_in := snd (OS_Insert x (n_in (?ns ! y)))\<rparr>]"
    have l: "linked x y r ns2"
      using represents_insert [OF D(1) lt False] inv xy False True new by (simp add: linked_def ns2_def out)
    have rk: "rk ns2 x = rk ?ns x" "rk ns2 y = rk ?ns y" using lt False by (simp_all add: ns2_def)
    show ?thesis
      using insert_linked [OF l, unfolded rk, unfolded ns2_def] False lt
      by (simp add: InsertEdge_def node_at_def modify_def out split del: if_split)
  qed
qed

lemma HasEdge_spec: "gc_inv r \<Longrightarrow> x < length (nodes r) \<Longrightarrow> HasEdge x y r = Some ((x, y) \<in> edges (nodes r))"
  using gc_invD(1) [THEN representsD(4), of r x] os.contains_iff [of "n_out (nodes r ! x)" y]
  by (auto simp: HasEdge_def node_at_def edges_def)

text \<open>What is kept by every operation on the edges.\<close>

definition same_nodes :: "Rep \<Rightarrow> Rep \<Rightarrow> bool" where
  "same_nodes r r' \<longleftrightarrow> free_nodes r' = free_nodes r \<and> length (nodes r') = length (nodes r) \<and>
     (\<forall>i < length (nodes r). n_data (nodes r' ! i) = n_data (nodes r ! i))"

lemma same_nodes_live: "same_nodes r r' \<Longrightarrow> live r' = live r"
  by (simp add: same_nodes_def live_def)

lemma same_nodes_trans: "same_nodes r r' \<Longrightarrow> same_nodes r' r'' \<Longrightarrow> same_nodes r r''"
  by (simp add: same_nodes_def)

lemma inserts_iff:
  "inserts x y r b r' \<longleftrightarrow> gc_inv r' \<and> same_nodes r r' \<and> (b \<longleftrightarrow> x \<noteq> y \<and> (y, x) \<notin> (edges (nodes r))\<^sup>*) \<and>
     edges (nodes r') = (if b then insert (x, y) (edges (nodes r)) else edges (nodes r))"
  by (auto simp: inserts_def same_nodes_def)

lemma edge_irrefl: "gc_inv r \<Longrightarrow> (x, x) \<notin> edges (nodes r)"
  using gc_invD(2) [of r] by (auto simp: ranked_def)

lemma RemoveEdge_spec:
  assumes inv: "gc_inv r" and e: "(x, y) \<in> edges (nodes r)"
  shows "\<exists>r'. RemoveEdge x y r = Some r' \<and> gc_inv r' \<and> same_nodes r r' \<and>
    edges (nodes r') = edges (nodes r) - {(x, y)}"
proof -
  let ?E = "edges (nodes r)"
  note D = gc_invD [OF inv]
  have "x \<noteq> y" using e edge_irrefl [OF inv] by auto
  then obtain ns1 ns2 where ns: "erase_out y x (nodes r) = Some ns1" "erase_in x y ns1 = Some ns2"
      "represents ns2 (?E - {(x, y)})" "same_attrs (nodes r) ns2"
    using erase_out_in [OF D(1) e] by blast
  have len: "length ns2 = length (nodes r)" by (rule same_attrs_length [OF ns(4)])
  have E: "?E - {(x, y)} \<subseteq> {..<length (nodes r)} \<times> {..<length (nodes r)}"
    using representsD(1,2) [OF D(1)] by auto
  have "ranked (?E - {(x, y)}) ns2"
    by (rule ranked_cong [OF len same_attrs_nth(1) [OF ns(4)] E]) (auto intro: ranked_subset [OF D(2)])
  then have "gc_inv (r\<lparr>nodes := ns2\<rparr>) \<and> edges (nodes (r\<lparr>nodes := ns2\<rparr>)) = ?E - {(x, y)}"
    using ns(3,4) D(3-6) len same_attrs_clean [OF ns(4)]
    by (intro gc_invI) (auto simp: Field_def Domain_iff Range_iff)
  moreover have "same_nodes r (r\<lparr>nodes := ns2\<rparr>)"
    using len same_attrs_nth(3) [OF ns(4)] by (simp add: same_nodes_def)
  ultimately show ?thesis using ns by (auto simp: RemoveEdge_def)
qed

section \<open>Reachability by a bounded search\<close>

lemma IsReachableNonConst_spec:
  assumes inv: "gc_inv r" and xy: "x < length (nodes r)" "y < length (nodes r)"
  shows "\<exists>r'. IsReachableNonConst x y r = Some ((x, y) \<in> (edges (nodes r))\<^sup>*, r') \<and>
    nodes r' = nodes r \<and> free_nodes r' = free_nodes r"
proof (cases "x = y")
  case True
  then show ?thesis by (simp add: IsReachableNonConst_def)
next
  case False
  let ?ns = "nodes r" and ?E = "edges (nodes r)"
  note D = gc_invD [OF inv]
  show ?thesis
  proof (cases "rk ?ns x \<ge> rk ?ns y")
    case True
    then have "(x, y) \<notin> ?E\<^sup>*" using ranked_trancl [OF D(2), of x y] False by (auto simp: rtrancl_eq_or_trancl)
    with True False xy show ?thesis by (simp add: IsReachableNonConst_def node_at_def)
  next
    case less: False
    then have lt: "rk ?ns x < rk ?ns y" by simp
    obtain b df st where fw: "ForwardLoop (rk ?ns y) ?ns [] [x] = Some (b, mark (set df) ?ns, df, st)"
      and df: "\<forall>u \<in> set df. u < length ?ns \<and> rk ?ns x \<le> rk ?ns u \<and> rk ?ns u < rk ?ns y"
      and b: "b \<longleftrightarrow> (x, y) \<notin> ?E\<^sup>*"
      using forward_search_exact [OF D(1,3,2) xy(2,1) lt subset_refl subset_insertI] by blast
    have "ClearVisitedBits df (mark (set df) ?ns) = Some (mark (set df - set df) ?ns)"
      using df by (intro ClearVisitedBits_mark) blast
    then have "ClearVisitedBits df (mark (set df) ?ns) = Some ?ns" using D(3) by (simp add: mark_clean)
    with fw b less False xy show ?thesis
      by (simp add: IsReachableNonConst_def ForwardDFS_def node_at_def)
  qed
qed

section \<open>Nodes\<close>

abbreviation fresh_node :: "nat \<Rightarrow> Node" where
  "fresh_node n \<equiv> \<lparr>n_rank = n, n_visited = False, n_data = None, n_in = OrderedSet_empty, n_out = OrderedSet_empty\<rparr>"

lemma represents_snoc:
  assumes "represents ns E"
  shows "represents (ns @ [fresh_node k]) E"
proof -
  note R = representsD [OF assms]
  have out: "E `` {length ns} = {}" "E\<inverse> `` {length ns} = {}" using R(1,2) by auto
  show ?thesis
    unfolding represents_def
  proof (intro conjI allI impI)
    show "E \<subseteq> {..<length (ns @ [fresh_node k])} \<times> {..<length (ns @ [fresh_node k])}"
      using R(1,2) by (auto intro: less_SucI)
    fix x assume "x < length (ns @ [fresh_node k])"
    then consider "x < length ns" | "x = length ns" by fastforce
    then show "OS_inv (n_in ((ns @ [fresh_node k]) ! x))" "OS_inv (n_out ((ns @ [fresh_node k]) ! x))"
      "succs (ns @ [fresh_node k]) x = E `` {x}" "preds (ns @ [fresh_node k]) x = E\<inverse> `` {x}"
      using R(3-6) out os.inv_empty os.sequence_empty by (cases; simp add: nth_append)+
  qed
qed

lemma ranked_snoc:
  assumes "represents ns E" "ranked E ns"
  shows "ranked E (ns @ [fresh_node (length ns)])" (is "ranked E ?ns")
proof -
  have small: "\<forall>i < length ns. rk ns i < length ns" and inj: "inj_on (rk ns) {..<length ns}"
    using assms(2) by (simp_all add: ranked_def)
  have rk: "rk ?ns i = (if i < length ns then rk ns i else length ns)" if "i < Suc (length ns)" for i
    using that by (auto simp: nth_append)
  have "inj_on (rk ?ns) {..<Suc (length ns)}"
  proof (rule inj_onI)
    fix a b assume ab: "a \<in> {..<Suc (length ns)}" "b \<in> {..<Suc (length ns)}" "rk ?ns a = rk ?ns b"
    then show "a = b"
      using rk [of a] rk [of b] small inj_onD [OF inj, of a b]
      by (cases "a < length ns"; cases "b < length ns") auto
  qed
  moreover have "rk ?ns x < rk ?ns y" if "(x, y) \<in> E" for x y
    using representsD(1,2) [OF assms(1) that] assms(2) that by (auto simp: nth_append ranked_def)
  moreover have "\<forall>i < Suc (length ns). rk ?ns i < Suc (length ns)" using rk small by (auto intro: less_SucI)
  ultimately show ?thesis unfolding ranked_def by auto
qed

lemma NewNode_spec:
  assumes inv: "gc_inv r" and r': "NewNode r = (n, r')"
  shows "gc_inv r' \<and> n \<notin> live r \<and> live r' = insert n (live r) \<and> edges (nodes r') = edges (nodes r) \<and>
    n_data (nodes r' ! n) = None \<and> (\<forall>i \<in> live r. n_data (nodes r' ! i) = n_data (nodes r ! i))"
proof (cases "free_nodes r = []")
  case True
  let ?ns = "nodes r"
  note D = gc_invD [OF inv]
  have r': "r' = r\<lparr>nodes := ?ns @ [fresh_node (length ?ns)]\<rparr>" "n = length ?ns"
    using r' True by (auto simp: NewNode_def)
  have "gc_inv r' \<and> edges (nodes r') = edges ?ns"
    using D(3-6) True represents_snoc [OF D(1)] ranked_snoc [OF D(1,2)]
    by (intro gc_invI) (auto simp: r' clean_def)
  then show ?thesis using True by (auto simp: r' live_def nth_append)
next
  case False
  then obtain fs m where fs: "free_nodes r = fs @ [m]" by (cases "free_nodes r" rule: rev_cases) auto
  let ?ns = "nodes r" and ?E = "edges (nodes r)"
  let ?ns' = "?ns[m := (?ns ! m)\<lparr>n_data := None\<rparr>]"
  note D = gc_invD [OF inv]
  have r': "r' = r\<lparr>nodes := ?ns', free_nodes := fs\<rparr>" "n = m" using r' by (auto simp: NewNode_def fs)
  have m: "m < length ?ns" "m \<notin> set fs" using D(4,5) by (auto simp: fs)
  have "represents ?ns' ?E" by (rule represents_links [OF D(1)]) (auto simp: nth_list_update m)
  moreover have "ranked ?E ?ns'"
    by (rule ranked_cong [OF _ _ _ D(2)]) (use representsD(1,2) [OF D(1)] in \<open>auto simp: nth_list_update m\<close>)
  moreover have "clean ?ns'"
    using D(3) m by (auto simp: clean_def dest!: set_update_subset_insert [THEN subsetD])
  ultimately have "gc_inv r' \<and> edges (nodes r') = ?E"
    using D(4-6) by (intro gc_invI) (auto simp: r' fs)
  then show ?thesis using m by (auto simp: r' live_def fs nth_list_update)
qed

text \<open>Erasing one node from the sets of its neighbours.\<close>

lemma for_each_erase_in:
  assumes "distinct ws" "\<forall>w \<in> set ws. w < length ns \<and> OS_inv (n_in (ns ! w)) \<and> b \<in> preds ns w"
  shows "\<exists>ns'. for_each (erase_in b) ws ns = Some ns' \<and> length ns' = length ns \<and>
    (\<forall>i < length ns. attrs (ns' ! i) = attrs (ns ! i) \<and> n_out (ns' ! i) = n_out (ns ! i) \<and>
      (if i \<in> set ws then OS_inv (n_in (ns' ! i)) \<and> preds ns' i = preds ns i - {b}
       else n_in (ns' ! i) = n_in (ns ! i)))"
  using assms
proof (induction ws arbitrary: ns)
  case (Cons w ws)
  then have w: "w < length ns" "OS_inv (n_in (ns ! w))" "b \<in> preds ns w" by auto
  obtain s where s: "OS_Erase b (n_in (ns ! w)) = Some s" "OS_inv s" "set (OS_GetSequence s) = preds ns w - {b}"
    using os.erase_some [OF w(2,3)] by blast
  let ?ns = "ns[w := (ns ! w)\<lparr>n_in := s\<rparr>]"
  have e: "erase_in b w ns = Some ?ns" using w(1) s(1) by (simp add: erase_in_def node_at_def modify_def)
  have "\<forall>v \<in> set ws. v < length ?ns \<and> OS_inv (n_in (?ns ! v)) \<and> b \<in> preds ?ns v"
    using Cons.prems by (auto simp: nth_list_update)
  then obtain ns' where ns': "for_each (erase_in b) ws ?ns = Some ns'" "length ns' = length ?ns"
    and at: "\<forall>i < length ?ns. attrs (ns' ! i) = attrs (?ns ! i) \<and> n_out (ns' ! i) = n_out (?ns ! i) \<and>
      (if i \<in> set ws then OS_inv (n_in (ns' ! i)) \<and> preds ns' i = preds ?ns i - {b}
       else n_in (ns' ! i) = n_in (?ns ! i))"
    using Cons.IH [of ?ns] Cons.prems by auto
  have "w \<notin> set ws" using Cons.prems by simp
  have "attrs (ns' ! i) = attrs (ns ! i) \<and> n_out (ns' ! i) = n_out (ns ! i) \<and>
      (if i \<in> set (w # ws) then OS_inv (n_in (ns' ! i)) \<and> preds ns' i = preds ns i - {b}
       else n_in (ns' ! i) = n_in (ns ! i))" if "i < length ns" for i
    using at [rule_format, of i] that s(2,3) \<open>w \<notin> set ws\<close> by (cases "i = w") (auto simp: attrs_def)
  then show ?case using e ns' by simp
qed simp

lemma for_each_erase_out:
  assumes "distinct ws" "\<forall>w \<in> set ws. w < length ns \<and> OS_inv (n_out (ns ! w)) \<and> b \<in> succs ns w"
  shows "\<exists>ns'. for_each (erase_out b) ws ns = Some ns' \<and> length ns' = length ns \<and>
    (\<forall>i < length ns. attrs (ns' ! i) = attrs (ns ! i) \<and> n_in (ns' ! i) = n_in (ns ! i) \<and>
      (if i \<in> set ws then OS_inv (n_out (ns' ! i)) \<and> succs ns' i = succs ns i - {b}
       else n_out (ns' ! i) = n_out (ns ! i)))"
  using assms
proof (induction ws arbitrary: ns)
  case (Cons w ws)
  then have w: "w < length ns" "OS_inv (n_out (ns ! w))" "b \<in> succs ns w" by auto
  obtain s where s: "OS_Erase b (n_out (ns ! w)) = Some s" "OS_inv s" "set (OS_GetSequence s) = succs ns w - {b}"
    using os.erase_some [OF w(2,3)] by blast
  let ?ns = "ns[w := (ns ! w)\<lparr>n_out := s\<rparr>]"
  have e: "erase_out b w ns = Some ?ns" using w(1) s(1) by (simp add: erase_out_def node_at_def modify_def)
  have "\<forall>v \<in> set ws. v < length ?ns \<and> OS_inv (n_out (?ns ! v)) \<and> b \<in> succs ?ns v"
    using Cons.prems by (auto simp: nth_list_update)
  then obtain ns' where ns': "for_each (erase_out b) ws ?ns = Some ns'" "length ns' = length ?ns"
    and at: "\<forall>i < length ?ns. attrs (ns' ! i) = attrs (?ns ! i) \<and> n_in (ns' ! i) = n_in (?ns ! i) \<and>
      (if i \<in> set ws then OS_inv (n_out (ns' ! i)) \<and> succs ns' i = succs ?ns i - {b}
       else n_out (ns' ! i) = n_out (?ns ! i))"
    using Cons.IH [of ?ns] Cons.prems by auto
  have "w \<notin> set ws" using Cons.prems by simp
  have "attrs (ns' ! i) = attrs (ns ! i) \<and> n_in (ns' ! i) = n_in (ns ! i) \<and>
      (if i \<in> set (w # ws) then OS_inv (n_out (ns' ! i)) \<and> succs ns' i = succs ns i - {b}
       else n_out (ns' ! i) = n_out (ns ! i))" if "i < length ns" for i
    using at [rule_format, of i] that s(2,3) \<open>w \<notin> set ws\<close> by (cases "i = w") (auto simp: attrs_def)
  then show ?case using e ns' by simp
qed simp

text \<open>
  The table may differ from the edges \<open>E\<close> at the node \<open>n\<close> itself, whose sets may have been moved
  away already.
\<close>

definition represents_except :: "nat \<Rightarrow> Node list \<Rightarrow> (nat \<times> nat) set \<Rightarrow> bool" where
  "represents_except n ns E \<longleftrightarrow> E \<subseteq> {..<length ns} \<times> {..<length ns} \<and>
     (\<forall>x < length ns. x \<noteq> n \<longrightarrow> OS_inv (n_in (ns ! x)) \<and> OS_inv (n_out (ns ! x)) \<and>
        succs ns x = E `` {x} \<and> preds ns x = E\<inverse> `` {x})"

abbreviation without :: "nat \<Rightarrow> (nat \<times> nat) set \<Rightarrow> (nat \<times> nat) set" where
  "without n E \<equiv> {(u, v) \<in> E. u \<noteq> n \<and> v \<noteq> n}"

lemma unlink_neighbours:
  assumes r: "represents_except n ns E" and irr: "(n, n) \<notin> E"
    and outs: "distinct outs" "set outs = E `` {n}" and ins: "distinct ins" "set ins = E\<inverse> `` {n}"
  shows "\<exists>ns1 ns2. for_each (erase_in n) outs ns = Some ns1 \<and> for_each (erase_out n) ins ns1 = Some ns2 \<and>
    same_attrs ns ns2 \<and> length ns1 = length ns \<and>
    (n < length ns \<longrightarrow> n_in (ns1 ! n) = n_in (ns ! n) \<and> n_in (ns2 ! n) = n_in (ns ! n) \<and> n_out (ns2 ! n) = n_out (ns ! n)) \<and>
    represents_except n ns2 (without n E)"
proof -
  have R: "(x, y) \<in> E \<Longrightarrow> x < length ns \<and> y < length ns" for x y using r by (auto simp: represents_except_def)
  have at: "OS_inv (n_in (ns ! x)) \<and> OS_inv (n_out (ns ! x)) \<and> succs ns x = E `` {x} \<and> preds ns x = E\<inverse> `` {x}"
    if "x < length ns" "x \<noteq> n" for x using r that by (auto simp: represents_except_def)
  have "\<forall>w \<in> set outs. w < length ns \<and> OS_inv (n_in (ns ! w)) \<and> n \<in> preds ns w"
  proof
    fix w assume "w \<in> set outs"
    then have "(n, w) \<in> E" using outs by auto
    then have "w < length ns" "w \<noteq> n" using R irr by auto
    with at [of w] \<open>(n, w) \<in> E\<close> show "w < length ns \<and> OS_inv (n_in (ns ! w)) \<and> n \<in> preds ns w" by simp
  qed
  then obtain ns1 where ns1: "for_each (erase_in n) outs ns = Some ns1" "length ns1 = length ns"
    and at1: "\<forall>i < length ns. attrs (ns1 ! i) = attrs (ns ! i) \<and> n_out (ns1 ! i) = n_out (ns ! i) \<and>
      (if i \<in> set outs then OS_inv (n_in (ns1 ! i)) \<and> preds ns1 i = preds ns i - {n}
       else n_in (ns1 ! i) = n_in (ns ! i))"
    using for_each_erase_in [OF outs(1)] by blast
  have "\<forall>w \<in> set ins. w < length ns1 \<and> OS_inv (n_out (ns1 ! w)) \<and> n \<in> succs ns1 w"
  proof
    fix w assume "w \<in> set ins"
    then have "(w, n) \<in> E" using ins by auto
    then have "w < length ns" "w \<noteq> n" using R irr by auto
    with at [of w] at1 \<open>(w, n) \<in> E\<close> ns1(2)
    show "w < length ns1 \<and> OS_inv (n_out (ns1 ! w)) \<and> n \<in> succs ns1 w" by simp
  qed
  then obtain ns2 where ns2: "for_each (erase_out n) ins ns1 = Some ns2" "length ns2 = length ns1"
    and at2: "\<forall>i < length ns1. attrs (ns2 ! i) = attrs (ns1 ! i) \<and> n_in (ns2 ! i) = n_in (ns1 ! i) \<and>
      (if i \<in> set ins then OS_inv (n_out (ns2 ! i)) \<and> succs ns2 i = succs ns1 i - {n}
       else n_out (ns2 ! i) = n_out (ns1 ! i))"
    using for_each_erase_out [OF ins(1)] by blast
  have n: "n \<notin> set outs" "n \<notin> set ins" using outs ins irr by auto
  have "represents_except n ns2 (without n E)"
    unfolding represents_except_def
  proof (intro conjI allI impI)
    show "without n E \<subseteq> {..<length ns2} \<times> {..<length ns2}" using R ns1(2) ns2(2) by auto
    fix i assume i: "i < length ns2" "i \<noteq> n"
    then have l: "i < length ns" "i < length ns1" using ns1(2) ns2(2) by simp_all
    note a = at [OF l(1) i(2)] and b = at1 [rule_format, OF l(1)] and c = at2 [rule_format, OF l(2)]
    show "OS_inv (n_in (ns2 ! i))" using a b c by (auto split: if_splits)
    show "OS_inv (n_out (ns2 ! i))" using a b c by (auto split: if_splits)
    show "succs ns2 i = without n E `` {i}"
      using a b c ins(2) i(2) by (cases "i \<in> set ins") auto
    show "preds ns2 i = (without n E)\<inverse> `` {i}"
      using a b c outs(2) i(2) by (cases "i \<in> set outs") auto
  qed
  moreover have "same_attrs ns ns2"
    using at1 at2 ns1(2) ns2(2) by (intro nth_equalityI) auto
  moreover have "n < length ns \<longrightarrow> n_in (ns1 ! n) = n_in (ns ! n) \<and> n_in (ns2 ! n) = n_in (ns ! n) \<and> n_out (ns2 ! n) = n_out (ns ! n)"
    using at1 [rule_format, of n] at2 [rule_format, of n] n ns1(2) by auto
  ultimately show ?thesis using ns1 ns2(1) by blast
qed

end
