(* ===== verification/GraphContract.thy ===== *)
theory GraphContract
  imports GraphOps
begin

text \<open>
  Removing nodes and contracting edges in \<^verbatim>\<open>GraphCycles\<close>: the merged graph is acyclic exactly when
  there is no second path along the contracted edge, and then none of the insertions that
  \<^verbatim>\<open>ContractEdge\<close> makes without looking at their result can fail.
\<close>

section \<open>Removing a node\<close>

lemma represents_clear:
  assumes "represents_except n ns (without n E)" "n < length ns"
  shows "represents (ns[n := (ns ! n)\<lparr>n_in := OrderedSet_empty, n_out := OrderedSet_empty\<rparr>]) (without n E)"
  using assms os.inv_empty os.sequence_empty
  by (auto simp: represents_def represents_except_def nth_list_update)

lemma same_attrs_update:
  assumes "attrs x = attrs (ns ! n)"
  shows "same_attrs ns (ns[n := x])"
proof (cases "n < length ns")
  case True
  with assms show ?thesis by (intro nth_equalityI) (simp_all add: nth_list_update)
qed (simp add: list_update_beyond)

lemma remove_inv:
  assumes inv: "gc_inv r" and n: "n \<in> live r" and E: "F \<subseteq> edges (nodes r)"
    and ns: "represents ns F" "same_attrs (nodes r) ns" "n \<notin> Field F"
  shows "gc_inv (r\<lparr>nodes := ns, free_nodes := free_nodes r @ [n]\<rparr>)" (is "gc_inv ?r")
    and "live (r\<lparr>nodes := ns, free_nodes := free_nodes r @ [n]\<rparr>) = live r - {n}"
    and "edges ns = F"
proof -
  note D = gc_invD [OF inv]
  have len: "length ns = length (nodes r)" by (rule same_attrs_length [OF ns(2)])
  have F: "F \<subseteq> {..<length (nodes r)} \<times> {..<length (nodes r)}" using E representsD(1,2) [OF D(1)] by auto
  have "ranked F ns"
    by (rule ranked_cong [OF len same_attrs_nth(1) [OF ns(2)] F ranked_subset [OF D(2) E]])
  moreover have "Field F \<subseteq> Field (edges (nodes r))" using E by (rule mono_Field)
  ultimately show "gc_inv ?r"
    using D(3-6) n ns(1,3) len same_attrs_clean [OF ns(2)] gc_invI [of ?r F] by (auto simp: live_def)
  show "live ?r = live r - {n}" by (auto simp: live_def len)
  show "edges ns = F" using ns(1) by (simp add: represents_iff)
qed

lemma RemoveNode_spec:
  assumes inv: "gc_inv r" and n: "n \<in> live r"
  shows "\<exists>r'. RemoveNode n r = Some r' \<and> gc_inv r' \<and> live r' = live r - {n} \<and>
    edges (nodes r') = without n (edges (nodes r)) \<and> free_nodes r' = free_nodes r @ [n] \<and>
    (\<forall>i < length (nodes r). n_data (nodes r' ! i) = n_data (nodes r ! i))"
proof -
  let ?ns = "nodes r" and ?E = "edges (nodes r)"
  note D = gc_invD [OF inv] and R = representsD [OF gc_invD(1) [OF inv]]
  have lt: "n < length ?ns" using n by (simp add: live_def)
  have "represents_except n ?ns ?E" using D(1) by (simp add: represents_def represents_except_def)
  moreover have "distinct (OS_GetSequence (n_out (?ns ! n)))" "distinct (OS_GetSequence (n_in (?ns ! n)))"
    using R(3,4) lt os.distinct_sequence by blast+
  ultimately obtain ns1 ns2 where e: "for_each (erase_in n) (OS_GetSequence (n_out (?ns ! n))) ?ns = Some ns1"
      "for_each (erase_out n) (OS_GetSequence (n_in (?ns ! n))) ns1 = Some ns2" "same_attrs ?ns ns2"
      "n_in (ns1 ! n) = n_in (?ns ! n)" "represents_except n ns2 (without n ?E)" "length ns1 = length ?ns"
    using unlink_neighbours [OF _ edge_irrefl [OF inv] _ R(5) [OF lt] _ R(6) [OF lt]] lt by blast
  have len: "length ns2 = length ?ns" by (rule same_attrs_length [OF e(3)])
  let ?ns3 = "ns2[n := (ns2 ! n)\<lparr>n_in := OrderedSet_empty, n_out := OrderedSet_empty\<rparr>]"
  have sa: "same_attrs ?ns ?ns3"
    using same_attrs_update [of _ ns2 n] e(3) by (simp add: attrs_def)
  have rp: "represents ?ns3 (without n ?E)" using represents_clear [OF e(5)] lt len by simp
  have "RemoveNode n r = Some (r\<lparr>nodes := ?ns3, free_nodes := free_nodes r @ [n]\<rparr>)"
    using e lt len by (simp add: RemoveNode_def node_at_def modify_def OS_Clear_def)
  moreover have "without n ?E \<subseteq> ?E" "n \<notin> Field (without n ?E)" by (auto simp: Field_def)
  note remove_inv [OF inv n this(1) rp sa this(2)]
  moreover have "\<forall>i < length ?ns. n_data (?ns3 ! i) = n_data (?ns ! i)" using same_attrs_nth(3) [OF sa] by blast
  ultimately show ?thesis by (intro exI [of _ "r\<lparr>nodes := ?ns3, free_nodes := free_nodes r @ [n]\<rparr>"]) simp
qed

section \<open>Merging two nodes\<close>

definition merge_edges :: "nat \<Rightarrow> nat \<Rightarrow> (nat \<times> nat) set \<Rightarrow> (nat \<times> nat) set" where
  "merge_edges s t E = without t E \<union> {s} \<times> (E `` {t}) \<union> (E\<inverse> `` {t}) \<times> {s}"

text \<open>No path of the merged graph returns to the merged node.\<close>

lemma merge_no_return:
  assumes acyc: "acyclic E" and no: "(s, t) \<notin> E\<^sup>+" "(t, s) \<notin> E\<^sup>+"
    and p: "(s, v) \<in> (merge_edges s t E)\<^sup>+"
  shows "v \<noteq> s \<and> ((s, v) \<in> E\<^sup>+ \<or> (t, v) \<in> E\<^sup>+)"
  using p
proof (induction rule: trancl_induct)
  case (base v)
  have ir: "(s, s) \<notin> E\<^sup>+" "(t, t) \<notin> E\<^sup>+" using acyc by (auto simp: acyclic_def)
  from base consider "(s, v) \<in> E" | "(t, v) \<in> E" | "(s, t) \<in> E" by (auto simp: merge_edges_def)
  then show ?case using ir no by cases auto
next
  case (step v w)
  have ir: "(s, s) \<notin> E\<^sup>+" "(t, t) \<notin> E\<^sup>+" using acyc by (auto simp: acyclic_def)
  from step(2,3) consider "(v, w) \<in> E" "w \<noteq> t" | "(v, t) \<in> E" "w = s" by (auto simp: merge_edges_def)
  then show ?case
  proof cases
    case 1
    with step.IH have "(s, w) \<in> E\<^sup>+ \<or> (t, w) \<in> E\<^sup>+" by (auto intro: trancl_into_trancl)
    with ir no show ?thesis by auto
  next
    case 2
    with step.IH have "(s, t) \<in> E\<^sup>+ \<or> (t, t) \<in> E\<^sup>+" by (auto intro: trancl_into_trancl)
    with ir no show ?thesis by auto
  qed
qed

lemma merge_acyclic:
  assumes acyc: "acyclic E" and no: "(s, t) \<notin> E\<^sup>+" "(t, s) \<notin> E\<^sup>+"
  shows "acyclic (merge_edges s t E)"
proof -
  let ?Q = "merge_edges s t E"
  have path: "(u, s) \<in> ?Q\<^sup>* \<and> (s, v) \<in> ?Q\<^sup>* \<or> (u, v) \<in> E\<^sup>+" if "(u, v) \<in> ?Q\<^sup>+" for u v
    using that
  proof (induction rule: trancl_induct)
    case (base v)
    then show ?case by (auto simp: merge_edges_def)
  next
    case (step v w)
    have vw: "(v, w) \<in> E \<or> v = s \<or> w = s" using step(2) by (auto simp: merge_edges_def)
    have uw: "(u, w) \<in> ?Q\<^sup>*" "(u, v) \<in> ?Q\<^sup>*" "(v, w) \<in> ?Q\<^sup>*" using step(1,2) by auto
    from step.IH show ?case
    proof
      assume "(u, s) \<in> ?Q\<^sup>* \<and> (s, v) \<in> ?Q\<^sup>*"
      with uw(3) show ?thesis by (auto intro: rtrancl_trans)
    next
      assume "(u, v) \<in> E\<^sup>+"
      with vw uw show ?thesis by (auto intro: trancl_into_trancl)
    qed
  qed
  have "(u, u) \<notin> ?Q\<^sup>+" for u
  proof
    assume c: "(u, u) \<in> ?Q\<^sup>+"
    have "(u, u) \<notin> E\<^sup>+" using acyc by (auto simp: acyclic_def)
    with path [OF c] have "(u, s) \<in> ?Q\<^sup>*" "(s, u) \<in> ?Q\<^sup>*" by auto
    with c have "(s, s) \<in> ?Q\<^sup>+" by (meson rtrancl_trancl_trancl trancl_rtrancl_trancl)
    with merge_no_return [OF acyc no] show False by blast
  qed
  then show ?thesis by (simp add: acyclic_def)
qed

section \<open>Inserting a batch of edges\<close>

lemma acyclic_insertable: "acyclic F \<Longrightarrow> (x, y) \<in> F \<Longrightarrow> E \<subseteq> F \<Longrightarrow> x \<noteq> y \<and> (y, x) \<notin> E\<^sup>*"
  using rtrancl_mono [of E F] rtrancl_into_trancl2 [of x y F x] by (auto simp: acyclic_def)

lemma insert_batch:
  assumes "gc_inv r" "\<forall>p \<in> set ps. fst (h p) \<in> live r \<and> snd (h p) \<in> live r"
    "acyclic (edges (nodes r) \<union> h ` set ps)"
  shows "\<exists>r'. for_each (\<lambda>p. insert_ignoring (fst (h p)) (snd (h p))) ps r = Some r' \<and> gc_inv r' \<and>
    same_nodes r r' \<and> edges (nodes r') = edges (nodes r) \<union> h ` set ps"
  using assms
proof (induction ps arbitrary: r)
  case Nil
  then show ?case by (simp add: same_nodes_def)
next
  case (Cons p ps)
  obtain x y where h: "h p = (x, y)" by (cases "h p")
  let ?E = "edges (nodes r)"
  have "x \<in> live r" "y \<in> live r" using Cons.prems(2) h by auto
  then obtain b r1 where r1: "InsertEdge x y r = Some (b, r1)" "inserts x y r b r1"
    using InsertEdge_spec [OF Cons.prems(1)] by blast
  have "(x, y) \<in> ?E \<union> h ` set (p # ps)" using h by (auto simp: image_iff)
  then have "x \<noteq> y" "(y, x) \<notin> ?E\<^sup>*" using acyclic_insertable [OF Cons.prems(3) _ Un_upper1] by auto
  then have r1': "gc_inv r1" "same_nodes r r1" "edges (nodes r1) = insert (x, y) ?E"
    using r1(2) by (auto simp: inserts_iff)
  moreover have "insert (x, y) ?E \<union> h ` set ps = ?E \<union> h ` set (p # ps)" using h by auto
  ultimately obtain r2 where r2: "for_each (\<lambda>p. insert_ignoring (fst (h p)) (snd (h p))) ps r1 = Some r2"
      "gc_inv r2" "same_nodes r1 r2" "edges (nodes r2) = ?E \<union> h ` set (p # ps)"
    using Cons.IH [of r1] Cons.prems same_nodes_live [of r r1] by auto
  moreover have "for_each (\<lambda>p. insert_ignoring (fst (h p)) (snd (h p))) (p # ps) r = Some r2"
    using r1(1) r2(1) h by (simp add: insert_ignoring_def)
  ultimately show ?case using r1'(2) same_nodes_trans by blast
qed

lemma insert_batch_from:
  assumes "gc_inv r" "a \<in> live r" "set ys \<subseteq> live r" "acyclic (edges (nodes r) \<union> {a} \<times> set ys)"
  shows "\<exists>r'. for_each (\<lambda>y. insert_ignoring a y) ys r = Some r' \<and> gc_inv r' \<and> same_nodes r r' \<and>
    edges (nodes r') = edges (nodes r) \<union> {a} \<times> set ys"
proof -
  have "Pair a ` set ys = {a} \<times> set ys" by auto
  with insert_batch [of r ys "Pair a"] assms show ?thesis by auto
qed

lemma insert_batch_to:
  assumes "gc_inv r" "a \<in> live r" "set ys \<subseteq> live r" "acyclic (edges (nodes r) \<union> set ys \<times> {a})"
  shows "\<exists>r'. for_each (\<lambda>y. insert_ignoring y a) ys r = Some r' \<and> gc_inv r' \<and> same_nodes r r' \<and>
    edges (nodes r') = edges (nodes r) \<union> set ys \<times> {a}"
proof -
  have "(\<lambda>y. (y, a)) ` set ys = set ys \<times> {a}" by auto
  with insert_batch [of r ys "\<lambda>y. (y, a)"] assms show ?thesis by auto
qed

section \<open>Contracting an edge\<close>

lemma edges_live: "gc_inv r \<Longrightarrow> (x, y) \<in> edges (nodes r) \<Longrightarrow> x \<in> live r \<and> y \<in> live r"
  using gc_invD(6) [of r] representsD(1,2) [OF gc_invD(1), of r x y] by (auto simp: live_def Field_def)

lemma merge_nodes:
  assumes inv: "gc_inv r" and st: "s \<in> live r" "t \<in> live r" "s \<noteq> t"
    and no: "(s, t) \<notin> (edges (nodes r))\<^sup>+" "(t, s) \<notin> (edges (nodes r))\<^sup>+"
  defines "outs \<equiv> OS_GetSequence (n_out (nodes r ! t))" and "ins \<equiv> OS_GetSequence (n_in (nodes r ! t))"
  shows "\<exists>ns4 ns5 r6 r7.
    for_each (erase_in t) outs ((nodes r)[t := (nodes r ! t)\<lparr>n_out := OrderedSet_empty, n_in := OrderedSet_empty\<rparr>]) = Some ns4 \<and>
    for_each (erase_out t) ins ns4 = Some ns5 \<and>
    for_each (\<lambda>y. insert_ignoring s y) outs (r\<lparr>nodes := ns5, free_nodes := free_nodes r @ [t]\<rparr>) = Some r6 \<and>
    for_each (\<lambda>y. insert_ignoring y s) ins r6 = Some r7 \<and>
    gc_inv r7 \<and> live r7 = live r - {t} \<and> edges (nodes r7) = merge_edges s t (edges (nodes r))"
proof -
  let ?ns = "nodes r" and ?E = "edges (nodes r)"
  note D = gc_invD [OF inv] and R = representsD [OF gc_invD(1) [OF inv]]
  have lt: "t < length ?ns" using st by (simp add: live_def)
  let ?ns3 = "?ns[t := (?ns ! t)\<lparr>n_out := OrderedSet_empty, n_in := OrderedSet_empty\<rparr>]"
  have irr: "(t, t) \<notin> ?E" by (rule edge_irrefl [OF inv])
  have o: "distinct outs" "set outs = ?E `` {t}" and i: "distinct ins" "set ins = ?E\<inverse> `` {t}"
    using os.distinct_sequence [OF R(4) [OF lt]] os.distinct_sequence [OF R(3) [OF lt]] R(5,6) [OF lt]
    by (simp_all add: outs_def ins_def)
  have "represents_except t ?ns3 ?E"
    using D(1) by (auto simp: represents_def represents_except_def nth_list_update lt)
  from unlink_neighbours [OF this irr o i] obtain ns4 ns5
    where e: "for_each (erase_in t) outs ?ns3 = Some ns4" "for_each (erase_out t) ins ns4 = Some ns5"
      "same_attrs ?ns3 ns5" "n_in (ns5 ! t) = OrderedSet_empty" "n_out (ns5 ! t) = OrderedSet_empty"
      "represents_except t ns5 (without t ?E)"
    using lt by auto
  have sa: "same_attrs ?ns ns5"
    using e(3) same_attrs_update [of "(?ns ! t)\<lparr>n_out := OrderedSet_empty, n_in := OrderedSet_empty\<rparr>" ?ns t]
    by (simp add: attrs_def)
  have len: "length ns5 = length ?ns" by (rule same_attrs_length [OF sa])
  have "(ns5 ! t)\<lparr>n_in := OrderedSet_empty, n_out := OrderedSet_empty\<rparr> = ns5 ! t"
    using e(4,5) by (cases "ns5 ! t") simp
  then have rp: "represents ns5 (without t ?E)" using represents_clear [OF e(6)] lt len by simp
  let ?r5 = "r\<lparr>nodes := ns5, free_nodes := free_nodes r @ [t]\<rparr>"
  have "without t ?E \<subseteq> ?E" "t \<notin> Field (without t ?E)" by (auto simp: Field_def)
  note r5 = remove_inv [OF inv st(2) this(1) rp sa this(2)]
  have acyc: "acyclic (merge_edges s t ?E)" by (rule merge_acyclic [OF ranked_acyclic [OF D(2)] no])
  have live: "s \<in> live ?r5" "set outs \<subseteq> live ?r5" "set ins \<subseteq> live ?r5"
    using st edges_live [OF inv] irr o(2) i(2) by (auto simp: r5(2))
  have "acyclic (edges ns5 \<union> {s} \<times> set outs)"
    by (rule acyclic_subset [OF acyc]) (auto simp: r5(3) merge_edges_def o(2))
  then obtain r6 where r6: "for_each (\<lambda>y. insert_ignoring s y) outs ?r5 = Some r6" "gc_inv r6" "same_nodes ?r5 r6"
      "edges (nodes r6) = without t ?E \<union> {s} \<times> set outs"
    using insert_batch_from [OF r5(1) live(1,2)] by (auto simp: r5(3))
  have l6: "live r6 = live ?r5" by (rule same_nodes_live [OF r6(3)])
  have m: "edges (nodes r6) \<union> set ins \<times> {s} = merge_edges s t ?E" by (auto simp: r6(4) merge_edges_def o(2) i(2))
  then obtain r7 where r7: "for_each (\<lambda>y. insert_ignoring y s) ins r6 = Some r7" "gc_inv r7" "same_nodes r6 r7"
      "edges (nodes r7) = merge_edges s t ?E"
    using insert_batch_to [OF r6(2), of s ins] live acyc by (auto simp: l6)
  have "live r7 = live r - {t}" using same_nodes_live [OF r7(3)] l6 r5(2) by simp
  then show ?thesis using e(1,2) r6(1) r7 by blast
qed

lemma trancl_minus_edge:
  assumes "acyclic E" "(a, b) \<in> E"
  shows "(b, a) \<notin> (E - {(a, b)})\<^sup>*" "(b, a) \<notin> (E - {(a, b)})\<^sup>+"
proof -
  have "(b, a) \<notin> E\<^sup>*" using acyclic_insertable [OF assms subset_refl] by simp
  then show "(b, a) \<notin> (E - {(a, b)})\<^sup>*" using rtrancl_mono [of "E - {(a, b)}" E] by blast
  then show "(b, a) \<notin> (E - {(a, b)})\<^sup>+" by (auto dest: trancl_into_rtrancl)
qed

lemma removed_then_reachable:
  assumes inv: "gc_inv r" and e: "(a, b) \<in> edges (nodes r)"
  shows "\<exists>r1 r2. RemoveEdge a b r = Some r1 \<and>
    IsReachableNonConst a b r1 = Some ((a, b) \<in> (edges (nodes r) - {(a, b)})\<^sup>+, r2) \<and>
    gc_inv r2 \<and> same_nodes r r2 \<and> edges (nodes r2) = edges (nodes r) - {(a, b)}"
proof -
  let ?E = "edges (nodes r)"
  obtain r1 where r1: "RemoveEdge a b r = Some r1" "gc_inv r1" "same_nodes r r1" "edges (nodes r1) = ?E - {(a, b)}"
    using RemoveEdge_spec [OF inv e] by blast
  have "a < length (nodes r1)" "b < length (nodes r1)"
    using edges_live [OF inv e] r1(3) by (auto simp: live_def same_nodes_def)
  then obtain r2 where r2: "IsReachableNonConst a b r1 = Some ((a, b) \<in> (edges (nodes r1))\<^sup>*, r2)"
      "nodes r2 = nodes r1" "free_nodes r2 = free_nodes r1"
    using IsReachableNonConst_spec [OF r1(2)] by blast
  have "a \<noteq> b" using e edge_irrefl [OF inv] by auto
  then have "(a, b) \<in> (edges (nodes r1))\<^sup>* \<longleftrightarrow> (a, b) \<in> (?E - {(a, b)})\<^sup>+" by (auto simp: r1(4) rtrancl_eq_or_trancl)
  moreover have "gc_inv r2" using r1(2) r2(2,3) by (simp add: gc_inv_def)
  moreover have "same_nodes r r2" using r1(3) r2(2,3) by (simp add: same_nodes_def)
  ultimately show ?thesis using r1(1,4) r2(1,2) by auto
qed

lemma reinsert_edge:
  assumes inv: "gc_inv r" and e: "(a, b) \<in> edges (nodes r)"
    and r2: "gc_inv r2" "same_nodes r r2" "edges (nodes r2) = edges (nodes r) - {(a, b)}"
  shows "\<exists>r3. InsertEdge a b r2 = Some (True, r3) \<and> gc_inv r3 \<and> same_nodes r r3 \<and> edges (nodes r3) = edges (nodes r)"
proof -
  have "a \<in> live r2" "b \<in> live r2" using edges_live [OF inv e] same_nodes_live [OF r2(2)] by auto
  then obtain c r3 where r3: "InsertEdge a b r2 = Some (c, r3)" "inserts a b r2 c r3"
    using InsertEdge_spec [OF r2(1)] by blast
  have "a \<noteq> b" using e edge_irrefl [OF inv] by auto
  with r3(2) have "c" "gc_inv r3" "same_nodes r2 r3" "edges (nodes r3) = insert (a, b) (edges (nodes r2))"
    using trancl_minus_edge(1) [OF ranked_acyclic [OF gc_invD(2) [OF inv]] e] by (auto simp: inserts_iff r2(3))
  then show ?thesis using r3(1) r2(2,3) e same_nodes_trans by auto
qed

lemma CanContractEdge_spec:
  assumes inv: "gc_inv r" and e: "(a, b) \<in> edges (nodes r)"
  shows "\<exists>r'. CanContractEdge a b r = Some ((a, b) \<notin> (edges (nodes r) - {(a, b)})\<^sup>+, r') \<and> gc_inv r' \<and>
    same_nodes r r' \<and> edges (nodes r') = edges (nodes r)"
proof -
  have "a < length (nodes r)" using edges_live [OF inv e] by (simp add: live_def)
  then have "HasEdge a b r = Some True" using HasEdge_spec [OF inv] e by simp
  moreover obtain r1 r2 where r2: "RemoveEdge a b r = Some r1"
      "IsReachableNonConst a b r1 = Some ((a, b) \<in> (edges (nodes r) - {(a, b)})\<^sup>+, r2)"
      "gc_inv r2" "same_nodes r r2" "edges (nodes r2) = edges (nodes r) - {(a, b)}"
    using removed_then_reachable [OF inv e] by blast
  moreover obtain r3 where "InsertEdge a b r2 = Some (True, r3)" "gc_inv r3" "same_nodes r r3"
      "edges (nodes r3) = edges (nodes r)"
    using reinsert_edge [OF inv e r2(3-5)] by blast
  ultimately show ?thesis by (simp add: CanContractEdge_def)
qed

text \<open>
  Which of the two nodes stays is decided by their number of edges; the other one is freed.
\<close>

lemma ContractEdge_spec:
  assumes inv: "gc_inv r" and e: "(a, b) \<in> edges (nodes r)"
  defines "E \<equiv> edges (nodes r) - {(a, b)}"
  shows "\<exists>res r'. ContractEdge a b r = Some (res, r') \<and> gc_inv r' \<and>
    (if (a, b) \<in> E\<^sup>+ then res = None \<and> live r' = live r \<and> edges (nodes r') = edges (nodes r)
     else \<exists>s t. {s, t} = {a, b} \<and> res = Some s \<and> live r' = live r - {t} \<and> edges (nodes r') = merge_edges s t E)"
proof -
  have ab: "a < length (nodes r)" "b < length (nodes r)" "a \<noteq> b" using edges_live [OF inv e] e edge_irrefl [OF inv]
    by (auto simp: live_def)
  then have has: "HasEdge a b r = Some True" using HasEdge_spec [OF inv] e by simp
  obtain r1 r2 where r2: "RemoveEdge a b r = Some r1" "IsReachableNonConst a b r1 = Some ((a, b) \<in> E\<^sup>+, r2)"
      "gc_inv r2" "same_nodes r r2" "edges (nodes r2) = E"
    using removed_then_reachable [OF inv e] by (auto simp: E_def)
  have live: "live r2 = live r" "a \<in> live r2" "b \<in> live r2"
    using edges_live [OF inv e] same_nodes_live [OF r2(4)] by auto
  show ?thesis
  proof (cases "(a, b) \<in> E\<^sup>+")
    case True
    obtain r3 where r3: "InsertEdge a b r2 = Some (True, r3)" "gc_inv r3" "same_nodes r r3" "edges (nodes r3) = edges (nodes r)"
      using reinsert_edge [OF inv e r2(3,4)] r2(5) by (auto simp: E_def)
    then have "ContractEdge a b r = Some (None, r3)" using True has r2(1,2) by (simp add: ContractEdge_def)
    with True r3 same_nodes_live [OF r3(3)] show ?thesis by auto
  next
    case False
    have no: "(b, a) \<notin> E\<^sup>+"
      using trancl_minus_edge(2) [OF ranked_acyclic [OF gc_invD(2) [OF inv]] e] by (simp add: E_def)
    have lt: "a < length (nodes r2)" "b < length (nodes r2)" using ab r2(4) by (simp_all add: same_nodes_def)
    define swap where "swap \<longleftrightarrow> OS_Size (n_in (nodes r2 ! b)) + OS_Size (n_out (nodes r2 ! b)) >
      OS_Size (n_in (nodes r2 ! a)) + OS_Size (n_out (nodes r2 ! a))"
    define s t where "s = (if swap then b else a)" and "t = (if swap then a else b)"
    have st: "s \<in> live r2" "t \<in> live r2" "s \<noteq> t" "(s, t) \<notin> (edges (nodes r2))\<^sup>+" "(t, s) \<notin> (edges (nodes r2))\<^sup>+"
        "{s, t} = {a, b}" "t < length (nodes r2)"
      using live(2,3) ab(3) False no r2(5) lt by (auto simp: s_def t_def)
    obtain ns4 ns5 r6 r7 where m:
        "for_each (erase_in t) (OS_GetSequence (n_out (nodes r2 ! t)))
           ((nodes r2)[t := (nodes r2 ! t)\<lparr>n_out := OrderedSet_empty, n_in := OrderedSet_empty\<rparr>]) = Some ns4"
        "for_each (erase_out t) (OS_GetSequence (n_in (nodes r2 ! t))) ns4 = Some ns5"
        "for_each (\<lambda>y. insert_ignoring s y) (OS_GetSequence (n_out (nodes r2 ! t)))
           (r2\<lparr>nodes := ns5, free_nodes := free_nodes r2 @ [t]\<rparr>) = Some r6"
        "for_each (\<lambda>y. insert_ignoring y s) (OS_GetSequence (n_in (nodes r2 ! t))) r6 = Some r7"
        "gc_inv r7" "live r7 = live r2 - {t}" "edges (nodes r7) = merge_edges s t (edges (nodes r2))"
      using merge_nodes [OF r2(3) st(1-5)] by blast
    have "(if swap then (b, a) else (a, b)) = (s, t)" by (simp add: s_def t_def)
    then have "ContractEdge a b r = Some (Some s, r7)"
      using False has r2(1,2) lt st(7) m(1-4)
      by (simp add: ContractEdge_def node_at_def modify_def swap_def Let_def)
    with False m(5-7) st(6) live(1) r2(5) show ?thesis by auto
  qed
qed

end
