(* ===== verification/GraphPaths.thy ===== *)
theory GraphPaths
  imports GraphContract
begin

text \<open>
  \<^verbatim>\<open>FindPath\<close> and \<^verbatim>\<open>AllNodesInPostOrder\<close> of \<^verbatim>\<open>GraphCycles\<close>: the search with markers on its stack
  finds a path exactly when there is one and writes it, as far as it fits, into the array of
  the caller.
\<close>

section \<open>Paths and the stack with markers\<close>

text \<open>The path under construction is kept with its end first.\<close>

definition path_from :: "(nat \<times> nat) set \<Rightarrow> nat \<Rightarrow> nat list \<Rightarrow> bool" where
  "path_from E x cur \<longleftrightarrow> successively (\<lambda>v u. (u, v) \<in> E) cur \<and> (cur \<noteq> [] \<longrightarrow> last cur = x)"

text \<open>
  Between two markers stand the nodes that can follow the same node of the path; a marker
  takes the last node off the path.
\<close>

fun path_stack :: "(nat \<times> nat) set \<Rightarrow> nat \<Rightarrow> nat list \<Rightarrow> int list \<Rightarrow> bool" where
  "path_stack E x cur [] \<longleftrightarrow> cur = []"
| "path_stack E x cur (n # st) \<longleftrightarrow>
     (if n < 0 then cur \<noteq> [] \<and> path_stack E x (tl cur) st
      else (if cur = [] then nat n = x else (hd cur, nat n) \<in> E) \<and> path_stack E x cur st)"

lemma path_stack_push:
  "cur \<noteq> [] \<Longrightarrow> \<forall>w \<in> set ws. (hd cur, w) \<in> E \<Longrightarrow> path_stack E x cur st \<Longrightarrow> path_stack E x cur (map int ws @ st)"
  by (induction ws) auto

lemma path_from_Cons: "path_from E x (n # cur) \<longleftrightarrow> path_from E x cur \<and> (if cur = [] then n = x else (hd cur, n) \<in> E)"
  by (cases cur) (auto simp: path_from_def)

lemma path_from_tl: "path_from E x cur \<Longrightarrow> path_from E x (tl cur)"
  by (cases cur) (simp_all add: path_from_Cons)

lemma path_from_rtrancl: "path_from E x (n # cur) \<Longrightarrow> (x, n) \<in> E\<^sup>*"
proof (induction cur arbitrary: n)
  case (Cons m cur)
  then have "(x, m) \<in> E\<^sup>*" "(m, n) \<in> E" by (auto simp: path_from_Cons)
  then show ?case by (rule rtrancl_into_rtrancl)
qed (simp add: path_from_def)

lemma PushUnseen_eq:
  "\<exists>new. PushUnseen ws seen st = (seen \<union> set ws, map int new @ st) \<and> set new = set ws - seen"
proof (induction ws arbitrary: seen st)
  case (Cons w ws)
  show ?case
  proof (cases "w \<in> seen")
    case True
    with Cons.IH [of seen st] show ?thesis by (auto simp: insert_absorb)
  next
    case False
    obtain new where "PushUnseen ws (insert w seen) (int w # st) = (insert w seen \<union> set ws, map int new @ int w # st)"
        "set new = set ws - insert w seen"
      using Cons.IH by blast
    with False show ?thesis by (intro exI [of _ "new @ [w]"]) auto
  qed
qed simp

text \<open>
  The state of the search: \<open>D\<close> are the nodes whose successors were looked at, \<open>cur\<close> is the path,
  of which the caller's array holds as much as fits.
\<close>

definition search_state ::
  "Node list \<Rightarrow> nat \<Rightarrow> nat \<Rightarrow> nat \<Rightarrow> nat set \<Rightarrow> int list \<Rightarrow> nat list \<Rightarrow> nat \<Rightarrow> nat set \<Rightarrow> nat list \<Rightarrow> bool" where
  "search_state ns x y m seen st path len D cur \<longleftrightarrow>
     path_from (edges ns) x cur \<and> path_stack (edges ns) x cur st \<and> length cur = len \<and> m \<le> length path \<and>
     take (min len m) path = take (min len m) (rev cur) \<and>
     (\<forall>n \<in> set st. 0 \<le> n \<longrightarrow> nat n < length ns) \<and>
     y \<notin> D \<and> D \<subseteq> {..<length ns} \<and> (\<forall>u \<in> D. succs ns u \<subseteq> seen) \<and>
     insert x seen \<subseteq> D \<union> nat ` {n \<in> set st. 0 \<le> n}"

lemma closed_unreachable:
  assumes "\<And>u v. u \<in> D \<Longrightarrow> (u, v) \<in> E \<Longrightarrow> v \<in> D" "x \<in> D" "y \<notin> D"
  shows "(x, y) \<notin> E\<^sup>*"
proof
  assume "(x, y) \<in> E\<^sup>*"
  then have "y \<in> D" by (induction rule: rtrancl_induct) (use assms in auto)
  with assms(3) show False by simp
qed

text \<open>Writing the next node of the path into the array.\<close>

lemma path_write:
  assumes "length cur = len" "m \<le> length path" "take (min len m) path = take (min len m) (rev cur)"
  shows "take (min (Suc len) m) (if len < m then path[len := n] else path) = take (min (Suc len) m) (rev (n # cur))"
proof (cases "len < m")
  case True
  then have "take (Suc len) (path[len := n]) = take len path @ [n]"
    using assms(2) by (simp add: take_Suc_conv_app_nth)
  moreover have "take len path = rev cur" using assms True by (simp add: min_def split: if_splits)
  ultimately show ?thesis using True assms(1) by (simp add: min_def)
next
  case False
  then show ?thesis using assms by (auto simp: min_def split: if_splits)
qed

lemma search_leave:
  assumes "search_state ns x y m seen (n # st) path len D cur" "n < 0"
  shows "search_state ns x y m seen st path (len - 1) D (tl cur)"
proof -
  note S = assms(1) [unfolded search_state_def]
  have "cur \<noteq> []" using S assms(2) by simp
  then obtain c cur' where c: "cur = c # cur'" by (cases cur) auto
  then have l: "length cur' = len - 1" "min (len - 1) m \<le> min len m" using S by auto
  have "take (min (len - 1) m) path = take (min (len - 1) m) (take (min len m) path)" using l(2) by (simp add: min_absorb1)
  also have "\<dots> = take (min (len - 1) m) (rev cur)" using S l(2) by (simp add: min_absorb1)
  also have "\<dots> = take (min (len - 1) m) (rev cur')" using l(1) by (simp add: c)
  finally have "take (min (len - 1) m) path = take (min (len - 1) m) (rev cur')" .
  moreover have "{k \<in> set (n # st). 0 \<le> k} = {k \<in> set st. 0 \<le> k}" using assms(2) by auto
  ultimately show ?thesis using S assms(2) l(1) unfolding search_state_def by (simp add: c path_from_Cons)
qed

lemma search_enter:
  assumes wl: "well_linked ns" and "search_state ns x y m seen (n # st) path len D cur" "0 \<le> n" "nat n \<noteq> y"
    and push: "PushUnseen (OS_GetSequence (n_out (ns ! nat n))) seen (- 1 # st) = (seen', st')"
  shows "search_state ns x y m seen' st' (if len < m then path[len := nat n] else path) (Suc len) (insert (nat n) D) (nat n # cur)"
proof -
  note S = assms(2) [unfolded search_state_def]
  have n: "nat n < length ns" using S assms(3) by simp
  obtain new where new: "seen' = seen \<union> succs ns (nat n)" "st' = map int new @ - 1 # st"
      "set new = succs ns (nat n) - seen"
    using PushUnseen_eq [of "OS_GetSequence (n_out (ns ! nat n))" seen "- 1 # st"] push by auto
  have "path_stack (edges ns) x (nat n # cur) st'"
    unfolding new(2) by (rule path_stack_push) (use S assms(3) n new(3) in \<open>auto simp: edges_def\<close>)
  moreover have "path_from (edges ns) x (nat n # cur)" using S assms(3) by (simp add: path_from_Cons)
  moreover have "take (min (Suc len) m) (if len < m then path[len := nat n] else path) = take (min (Suc len) m) (rev (nat n # cur))"
    by (rule path_write) (use S in simp_all)
  moreover have "\<forall>k \<in> set st'. 0 \<le> k \<longrightarrow> nat k < length ns"
    using S n new(2,3) well_linkedD(3) [OF wl n] by auto
  moreover have "insert x seen' \<subseteq> insert (nat n) D \<union> nat ` {k \<in> set st'. 0 \<le> k}"
  proof -
    have "w \<in> nat ` {k \<in> set st'. 0 \<le> k}" if "w \<in> set new" for w
      by (rule image_eqI [of _ _ "int w"]) (use that new(2) in auto)
    then have "succs ns (nat n) - seen \<subseteq> nat ` {k \<in> set st'. 0 \<le> k}" using new(3) by blast
    moreover have "insert x seen \<subseteq> insert (nat n) D \<union> nat ` {k \<in> set st'. 0 \<le> k}"
    proof -
      have "nat ` {k \<in> set (n # st). 0 \<le> k} \<subseteq> insert (nat n) (nat ` {k \<in> set st'. 0 \<le> k})" using new(2) by auto
      then show ?thesis using S by blast
    qed
    ultimately show ?thesis using new(1) by blast
  qed
  ultimately show ?thesis using S n assms(4) new(1) unfolding search_state_def by auto
qed

lemma FindPathLoop_spec:
  assumes "well_linked ns" "search_state ns x y m seen st path len D cur"
  shows "\<exists>k path'. FindPathLoop ns y m seen st path len = Some (k, path') \<and> length path' = length path \<and>
    (if k = 0 then (x, y) \<notin> (edges ns)\<^sup>*
     else \<exists>P. path_from (edges ns) x (y # P) \<and> length (y # P) = k \<and>
       take (min k m) path' = take (min k m) (rev (y # P)))"
  using assms
proof (induction ns y m seen st path len arbitrary: D cur rule: FindPathLoop.induct)
  case (1 ns y m seen path len)
  then have *: "x \<in> D" "y \<notin> D" "\<forall>u \<in> D. succs ns u \<subseteq> seen" "seen \<subseteq> D" by (auto simp: search_state_def)
  then have "(x, y) \<notin> (edges ns)\<^sup>*" by (intro closed_unreachable [of D]) (auto simp: edges_def)
  then show ?case by simp
next
  case (2 ns y m seen n st path len)
  let ?path = "if len < m then path[len := nat n] else path"
  note wl = 2(3) and S = 2(4) [unfolded search_state_def]
  consider (leave) "n < 0" | (found) "0 \<le> n" "nat n = y" | (enter) "0 \<le> n" "nat n \<noteq> y" by linarith
  then show ?case
  proof cases
    case leave
    with 2(1) [OF leave wl search_leave [OF 2(4) leave]] show ?thesis by simp
  next
    case found
    have len: "length cur = len" "m \<le> length path" "take (min len m) path = take (min len m) (rev cur)"
      and "path_from (edges ns) x (y # cur)"
      using S found by (auto simp: path_from_Cons)
    moreover have "take (min (Suc len) m) ?path = take (min (Suc len) m) (rev (y # cur))"
      using path_write [OF len, of "nat n"] found(2) by (simp only:)
    moreover have "FindPathLoop ns y m seen (n # st) path len = Some (Suc len, ?path)"
      using found by (simp add: Let_def)
    ultimately show ?thesis by (intro exI [of _ "Suc len"] exI [of _ ?path]) (auto simp del: rev.simps)
  next
    case enter
    obtain seen' st' where push: "PushUnseen (OS_GetSequence (n_out (ns ! nat n))) seen (- 1 # st) = (seen', st')"
      by (cases "PushUnseen (OS_GetSequence (n_out (ns ! nat n))) seen (- 1 # st)")
    have "nat n < length ns" using S enter by simp
    then have "FindPathLoop ns y m seen (n # st) path len = FindPathLoop ns y m seen' st' ?path (len + 1)"
      using enter push by (simp add: Let_def)
    moreover have "search_state ns x y m seen' st' ?path (len + 1) (insert (nat n) D) (nat n # cur)"
      using search_enter [OF wl 2(4) enter push] by simp
    moreover have "\<not> n < 0" "length ?path = length path" using enter(1) by simp_all
    ultimately show ?thesis
      using 2(2) [OF _ refl enter(2) \<open>nat n < length ns\<close> push [symmetric] wl] by metis
  qed
qed

text \<open>The path that the caller sees has its start first and no node twice.\<close>

definition is_path :: "(nat \<times> nat) set \<Rightarrow> nat \<Rightarrow> nat \<Rightarrow> nat list \<Rightarrow> bool" where
  "is_path E x y p \<longleftrightarrow> p \<noteq> [] \<and> hd p = x \<and> last p = y \<and> (\<forall>i. Suc i < length p \<longrightarrow> (p ! i, p ! Suc i) \<in> E)"

lemma path_from_is_path:
  assumes "path_from E x (y # cur)"
  shows "is_path E x y (rev (y # cur))"
proof -
  have "successively (\<lambda>u v. (u, v) \<in> E) (rev (y # cur))"
    using assms unfolding successively_rev path_from_def by simp
  then have "(rev (y # cur) ! i, rev (y # cur) ! Suc i) \<in> E" if "Suc i < length (rev (y # cur))" for i
    using that unfolding successively_conv_nth by blast
  moreover have "hd (rev (y # cur)) = x" using assms by (simp only: hd_rev) (simp add: path_from_def)
  ultimately show ?thesis unfolding is_path_def by (simp del: rev.simps add: last_rev)
qed

lemma FindPath_spec:
  assumes "gc_inv r" "x < length (nodes r)" "m \<le> length path"
  shows "\<exists>k path'. FindPath x y m path r = Some (k, path') \<and> length path' = length path \<and>
    (if k = 0 then (x, y) \<notin> (edges (nodes r))\<^sup>*
     else \<exists>p. is_path (edges (nodes r)) x y p \<and> length p = k \<and> take (min k m) path' = take (min k m) p)"
proof -
  have wl: "well_linked (nodes r)" using assms(1) by (simp add: gc_inv_def)
  have "search_state (nodes r) x y m {} [int x] path 0 {} []"
    using assms by (simp add: search_state_def path_from_def del: set_simps) (simp add: image_iff)
  from FindPathLoop_spec [OF wl this] obtain k path' where *: "FindPath x y m path r = Some (k, path')" "length path' = length path"
    "if k = 0 then (x, y) \<notin> (edges (nodes r))\<^sup>*
     else \<exists>P. path_from (edges (nodes r)) x (y # P) \<and> length (y # P) = k \<and>
       take (min k m) path' = take (min k m) (rev (y # P))"
    unfolding FindPath_def by blast
  show ?thesis
  proof (cases "k = 0")
    case False
    then obtain P where "path_from (edges (nodes r)) x (y # P)" "length (y # P) = k"
        "take (min k m) path' = take (min k m) (rev (y # P))" using *(3) by auto
    with False * path_from_is_path [of "edges (nodes r)" x y P] show ?thesis
      by (intro exI [of _ k] exI [of _ path']) (auto simp del: rev.simps intro!: exI [of _ "rev (y # P)"])
  qed (use * in auto)
qed

lemma is_path_rtrancl:
  assumes "is_path E x y p"
  shows "(x, y) \<in> E\<^sup>*"
proof -
  have "(hd p, p ! i) \<in> E\<^sup>*" if "i < length p" for i
    using that
  proof (induction i)
    case (Suc i)
    then have "(p ! i, p ! Suc i) \<in> E" using assms by (simp add: is_path_def)
    with Suc show ?case by (meson Suc_lessD rtrancl.rtrancl_into_rtrancl)
  qed (use assms in \<open>simp add: is_path_def hd_conv_nth\<close>)
  from this [of "length p - 1"] assms show ?thesis by (auto simp: is_path_def last_conv_nth)
qed

lemma IsReachable_spec:
  assumes "gc_inv r" "x < length (nodes r)"
  shows "IsReachable x y r = Some ((x, y) \<in> (edges (nodes r))\<^sup>*)"
proof -
  obtain k path' where k: "FindPath x y 0 [] r = Some (k, path')"
    "if k = 0 then (x, y) \<notin> (edges (nodes r))\<^sup>*
     else \<exists>p. is_path (edges (nodes r)) x y p \<and> length p = k \<and> take (min k 0) path' = take (min k 0) p"
    using FindPath_spec [OF assms, of 0 "[]" y] by fastforce
  then have "0 < k \<longleftrightarrow> (x, y) \<in> (edges (nodes r))\<^sup>*" by (cases "k = 0") (auto dest: is_path_rtrancl)
  with k(1) show ?thesis by (simp add: IsReachable_def)
qed

section \<open>Post order and the self check\<close>

lemma SortInPostOrder_sorted: "sorted_wrt (\<lambda>a b. rk ns b \<le> rk ns a) (SortInPostOrder ns xs)"
proof -
  have "sorted (map (\<lambda>n. - int (rk ns n)) (SortInPostOrder ns xs))" by (simp add: SortInPostOrder_def)
  then show ?thesis by (simp add: sorted_map)
qed

lemma AllNodesInPostOrder_set: "set (AllNodesInPostOrder r) = live r" "distinct (AllNodesInPostOrder r)"
  by (auto simp: AllNodesInPostOrder_def SortInPostOrder_def live_def)

lemma AllNodesInPostOrder_edge:
  assumes inv: "gc_inv r" and e: "(x, y) \<in> (edges (nodes r))\<^sup>+"
    and i: "i < length (AllNodesInPostOrder r)" "AllNodesInPostOrder r ! i = x"
    and j: "j < length (AllNodesInPostOrder r)" "AllNodesInPostOrder r ! j = y"
  shows "j < i"
proof (rule ccontr)
  let ?p = "AllNodesInPostOrder r"
  assume "\<not> j < i"
  then consider "i = j" | "i < j" by linarith
  then have "rk (nodes r) y \<le> rk (nodes r) x"
  proof cases
    case 2
    have "sorted_wrt (\<lambda>a b. rk (nodes r) b \<le> rk (nodes r) a) ?p"
      by (simp add: AllNodesInPostOrder_def SortInPostOrder_sorted)
    from sorted_wrt_nth_less [OF this 2 j(1)] show ?thesis by (simp add: i j)
  qed (use i j in simp)
  moreover have "rk (nodes r) x < rk (nodes r) y" using ranked_trancl [OF gc_invD(2) [OF inv] e] .
  ultimately show False by simp
qed

lemma CheckNodes_suffix:
  assumes "ranked (edges ns) ns" "well_linked ns" "clean ns" "k \<le> length ns"
  shows "CheckNodes ns (rk ns ` {..<k}) (drop k ns) = Some True"
  using assms(4)
proof (induction k rule: inc_induct)
  case (step k)
  then have k: "drop k ns = ns ! k # drop (Suc k) ns" by (simp add: Cons_nth_drop_Suc)
  have "rk ns k \<notin> rk ns ` {..<k}" 
  proof
    assume "rk ns k \<in> rk ns ` {..<k}"
    then obtain i where "i < k" "rk ns k = rk ns i" by auto
    then show False using assms(1) step(2) inj_onD [of "rk ns" "{..<length ns}" k i] by (simp add: ranked_def)
  qed
  moreover have "\<not> n_visited (ns ! k)" using assms(3) step(2) by (auto simp: clean_def)
  moreover have "y < length ns \<and> rk ns k < rk ns y" if "y \<in> succs ns k" for y
    using that assms(1) well_linkedD(3) [OF assms(2) step(2) that] step(2) by (auto simp: ranked_def edges_def)
  ultimately show ?case using step(3) by (auto simp: k lessThan_Suc not_le)
qed simp

lemma CheckInvariants_inv: "gc_inv r \<Longrightarrow> CheckInvariants r = Some True"
  using CheckNodes_suffix [of "nodes r" 0] by (simp add: CheckInvariants_def gc_inv_def)

end
