(* ===== verification/GraphClient.thy ===== *)
theory GraphClient
  imports GraphPaths
begin

text \<open>
  \<^verbatim>\<open>GraphCycles\<close> as its clients see it: the calls that its contract allows as a step relation, the
  states that they reach from the empty graph, an abstract graph that every state refines, and
  what each operation returns in a reachable state.
\<close>

section \<open>The calls of a client\<close>

datatype gc_op =
    New_Node
  | Remove_Node nat
  | Insert_Edge nat nat
  | Remove_Edge nat nat
  | Contract_Edge nat nat
  | Set_Data nat "nat option"

definition is_live :: "Rep \<Rightarrow> nat \<Rightarrow> bool" where
  "is_live r n \<longleftrightarrow> n < length (nodes r) \<and> \<not> List.member (free_nodes r) n"

text \<open>
  The contract of the header: nodes were allocated and not removed, and an edge that is removed
  or contracted is there.
\<close>

fun allowed :: "gc_op \<Rightarrow> Rep \<Rightarrow> bool" where
  "allowed New_Node r \<longleftrightarrow> True"
| "allowed (Remove_Node n) r \<longleftrightarrow> is_live r n"
| "allowed (Insert_Edge x y) r \<longleftrightarrow> is_live r x \<and> is_live r y"
| "allowed (Remove_Edge x y) r \<longleftrightarrow> is_live r x \<and> HasEdge x y r = Some True"
| "allowed (Contract_Edge x y) r \<longleftrightarrow> is_live r x \<and> HasEdge x y r = Some True"
| "allowed (Set_Data n d) r \<longleftrightarrow> is_live r n"

fun perform :: "gc_op \<Rightarrow> Rep \<Rightarrow> Rep option" where
  "perform New_Node r = Some (snd (NewNode r))"
| "perform (Remove_Node n) r = RemoveNode n r"
| "perform (Insert_Edge x y) r = map_option snd (InsertEdge x y r)"
| "perform (Remove_Edge x y) r = RemoveEdge x y r"
| "perform (Contract_Edge x y) r = map_option snd (ContractEdge x y r)"
| "perform (Set_Data n d) r = SetNodeData n d r"

inductive gc_step :: "Rep \<Rightarrow> gc_op \<Rightarrow> Rep \<Rightarrow> bool" where
  step: "allowed op r \<Longrightarrow> perform op r = Some r' \<Longrightarrow> gc_step r op r'"

inductive gc_reachable :: "Rep \<Rightarrow> bool" where
  start: "gc_reachable GraphCycles_new"
| call: "gc_reachable r \<Longrightarrow> gc_step r op r' \<Longrightarrow> gc_reachable r'"

inductive_cases gc_stepE [elim]: "gc_step r op r'"

fun run_calls :: "gc_op list \<Rightarrow> Rep \<Rightarrow> Rep option" where
  "run_calls [] r = Some r"
| "run_calls (op # ops) r = (if allowed op r then perform op r \<bind> run_calls ops else None)"

lemma run_calls_reachable: "gc_reachable r \<Longrightarrow> run_calls ops r = Some r' \<Longrightarrow> gc_reachable r'"
proof (induction ops arbitrary: r)
  case (Cons op ops)
  then obtain r1 where "allowed op r" "perform op r = Some r1" "run_calls ops r1 = Some r'"
    by (auto simp: bind_eq_Some_conv split: if_splits)
  with Cons show ?case by (blast intro: gc_step.step gc_reachable.call)
qed simp

section \<open>The abstract graph\<close>

record agraph =
  verts :: "nat set"
  arcs :: "(nat \<times> nat) set"

definition abs_graph :: "Rep \<Rightarrow> agraph" where
  "abs_graph r = \<lparr>verts = live r, arcs = edges (nodes r)\<rparr>"

text \<open>What a call may do to a graph, with no ranks, no searches and no free list.\<close>

fun spec_step :: "agraph \<Rightarrow> gc_op \<Rightarrow> agraph \<Rightarrow> bool" where
  "spec_step g New_Node g' \<longleftrightarrow> (\<exists>n. n \<notin> verts g \<and> g' = g\<lparr>verts := insert n (verts g)\<rparr>)"
| "spec_step g (Remove_Node n) g' \<longleftrightarrow> n \<in> verts g \<and> g' = \<lparr>verts = verts g - {n}, arcs = without n (arcs g)\<rparr>"
| "spec_step g (Insert_Edge x y) g' \<longleftrightarrow> {x, y} \<subseteq> verts g \<and>
     g' = (if (y, x) \<in> (arcs g)\<^sup>* then g else g\<lparr>arcs := insert (x, y) (arcs g)\<rparr>)"
| "spec_step g (Remove_Edge x y) g' \<longleftrightarrow> (x, y) \<in> arcs g \<and> g' = g\<lparr>arcs := arcs g - {(x, y)}\<rparr>"
| "spec_step g (Contract_Edge a b) g' \<longleftrightarrow> (a, b) \<in> arcs g \<and>
     (if (a, b) \<in> (arcs g - {(a, b)})\<^sup>+ then g' = g
      else \<exists>s t. {s, t} = {a, b} \<and> g' = \<lparr>verts = verts g - {t}, arcs = merge_edges s t (arcs g - {(a, b)})\<rparr>)"
| "spec_step g (Set_Data n d) g' \<longleftrightarrow> n \<in> verts g \<and> g' = g"

section \<open>Every call keeps the invariant and refines its specification\<close>

lemma is_live_iff: "is_live r n \<longleftrightarrow> n \<in> live r"
  by (auto simp: is_live_def live_def)

lemma gc_inv_new: "gc_inv GraphCycles_new"
  by (simp add: gc_inv_def GraphCycles_new_def well_linked_def ranked_def edges_def clean_def)

lemma SetNodeData_spec:
  assumes inv: "gc_inv r" and n: "n < length (nodes r)"
  shows "\<exists>r'. SetNodeData n d r = Some r' \<and> gc_inv r' \<and> live r' = live r \<and> edges (nodes r') = edges (nodes r) \<and>
    (\<forall>i < length (nodes r). n_data (nodes r' ! i) = (if i = n then d else n_data (nodes r ! i)))"
proof -
  define ns where "ns = (nodes r)[n := n_data_update (\<lambda>_. d) (nodes r ! n)]"
  have r': "SetNodeData n d r = Some (r\<lparr>nodes := ns\<rparr>)" using n by (simp add: SetNodeData_def modify_def ns_def)
  have same: "n_in (ns ! i) = n_in (nodes r ! i)" "n_out (ns ! i) = n_out (nodes r ! i)" "rk ns i = rk (nodes r) i"
      "n_visited (ns ! i) = n_visited (nodes r ! i)" for i
    using n by (auto simp: ns_def nth_list_update)
  have len: "length ns = length (nodes r)" by (simp add: ns_def)
  have e: "edges ns = edges (nodes r)" unfolding edges_def same len by simp
  have c: "clean ns" using gc_invD(3) [OF inv] same(4) len by (simp add: clean_def all_set_conv_all_nth)
  have "gc_inv (r\<lparr>nodes := ns\<rparr>)"
  proof -
    have "well_linked ns"
      using inv [unfolded gc_inv_def well_linked_def] unfolding well_linked_def same len by blast
    moreover have "ranked (edges (nodes r)) ns"
      by (rule ranked_cong [OF _ _ _ gc_invD(2) [OF inv]]) (use same len representsD(1,2) [OF gc_invD(1) [OF inv]] in auto)
    moreover have "\<forall>i \<in> set (free_nodes r). i < length ns \<and> succs ns i = {} \<and> preds ns i = {}"
      using inv [unfolded gc_inv_def] unfolding same len by blast
    ultimately show ?thesis using c gc_invD(4) [OF inv] by (simp add: gc_inv_def e)
  qed
  with r' e n show ?thesis by (auto simp: live_def len) (auto simp: ns_def nth_list_update)
qed

lemma HasEdge_True: "gc_inv r \<Longrightarrow> is_live r x \<and> HasEdge x y r = Some True \<longleftrightarrow> (x, y) \<in> edges (nodes r)"
  using edges_live [of r x y] HasEdge_spec [of r x y] by (auto simp: is_live_iff live_def)

lemma perform_spec:
  assumes inv: "gc_inv r" and ok: "allowed op r"
  shows "\<exists>r'. perform op r = Some r' \<and> gc_inv r' \<and> spec_step (abs_graph r) op (abs_graph r')"
proof (cases op)
  case New_Node
  obtain n r' where r': "NewNode r = (n, r')" by (cases "NewNode r")
  with NewNode_spec [OF inv r'] New_Node show ?thesis by (auto simp: abs_graph_def intro!: exI [of _ n])
next
  case (Remove_Node n)
  then show ?thesis using RemoveNode_spec [OF inv, of n] ok by (auto simp: abs_graph_def is_live_iff)
next
  case (Insert_Edge x y)
  then obtain b r' where r': "InsertEdge x y r = Some (b, r')" "inserts x y r b r'"
    using InsertEdge_spec [OF inv, of x y] ok by (auto simp: is_live_iff)
  moreover have "b \<longleftrightarrow> (y, x) \<notin> (edges (nodes r))\<^sup>*" using r'(2) by (auto simp: inserts_def)
  ultimately show ?thesis using Insert_Edge ok by (auto simp: inserts_def abs_graph_def is_live_iff live_def)
next
  case (Remove_Edge x y)
  then have e: "(x, y) \<in> edges (nodes r)" using ok HasEdge_True [OF inv] by simp
  with RemoveEdge_spec [OF inv e] Remove_Edge show ?thesis by (auto simp: abs_graph_def same_nodes_live)
next
  case (Contract_Edge x y)
  then have e: "(x, y) \<in> edges (nodes r)" using ok HasEdge_True [OF inv] by simp
  with ContractEdge_spec [OF inv e] Contract_Edge show ?thesis by (auto simp: abs_graph_def split: if_splits)
next
  case (Set_Data n d)
  then have "n < length (nodes r)" using ok by (simp add: is_live_def)
  with SetNodeData_spec [OF inv this, of d] Set_Data ok show ?thesis by (auto simp: abs_graph_def is_live_iff)
qed

lemma gc_reachable_inv: "gc_reachable r \<Longrightarrow> gc_inv r"
proof (induction rule: gc_reachable.induct)
  case (call r op r')
  then show ?case using perform_spec by fastforce
qed (rule gc_inv_new)

lemma is_path_increasing:
  assumes "ranked E ns" "is_path E x y p" "j < length p" "i < j"
  shows "rk ns (p ! i) < rk ns (p ! j)"
  using assms(3,4)
proof (induction j)
  case (Suc j)
  have "rk ns (p ! j) < rk ns (p ! Suc j)" using assms(1,2) Suc(2) by (auto simp: ranked_def is_path_def)
  with Suc show ?case by (cases "i = j") auto
qed simp

lemma is_path_distinct:
  assumes "ranked E ns" "is_path E x y p"
  shows "distinct p"
  unfolding distinct_conv_nth
proof (intro allI impI)
  fix i j assume "i < length p" "j < length p" "i \<noteq> j"
  then show "p ! i \<noteq> p ! j"
    using is_path_increasing [OF assms, of i j] is_path_increasing [OF assms, of j i] by (cases "i < j") force+
qed

section \<open>Properties\<close>

text \<open>
  A graph for the witnesses: five nodes, of which one was removed, and edges that force the
  ranks to be reassigned.
\<close>

definition sample_calls :: "gc_op list" where
  "sample_calls = [New_Node, New_Node, New_Node, New_Node, New_Node, Insert_Edge 2 1, Insert_Edge 1 0,
     Insert_Edge 0 2, Insert_Edge 2 3, Insert_Edge 3 0, Insert_Edge 4 2, Remove_Node 4]"

definition sample :: Rep where
  "sample = (case run_calls sample_calls GraphCycles_new of Some r \<Rightarrow> r | None \<Rightarrow> GraphCycles_new)"

lemma sample_reachable: "gc_reachable sample"
  using run_calls_reachable [OF gc_reachable.start] gc_reachable.start
  by (auto simp: sample_def split: option.splits)

text \<open>C20: In every state that a client can reach, the self check of \<^verbatim>\<open>CheckInvariants\<close> passes, the edges
  form no cycle and join nodes that are allocated.
\<close>

theorem gc_reachable_acyclic:
  assumes "gc_reachable r"
  shows "CheckInvariants r = Some True \<and> acyclic (edges (nodes r)) \<and> Field (edges (nodes r)) \<subseteq> live r"
proof -
  note inv = gc_reachable_inv [OF assms]
  have "Field (edges (nodes r)) \<subseteq> live r" using edges_live [OF inv] by (auto simp: Field_def)
  with CheckInvariants_inv [OF inv] ranked_acyclic [OF gc_invD(2) [OF inv]] show ?thesis by simp
qed

theorem gc_reachable_acyclic_witness:
  "CheckInvariants sample = Some True \<and> acyclic (edges (nodes sample)) \<and> Field (edges (nodes sample)) \<subseteq> live sample"
  by (rule gc_reachable_acyclic [OF sample_reachable])

text \<open>C19: No call that the contract allows indexes out of range, erases a missing edge or fails a
  check, and what it does to the ranked representation is what the abstract graph prescribes:
  insertion adds the edge unless it closes a cycle, contraction merges two nodes unless there is
  another path between them.
\<close>

theorem gc_refines_graph:
  assumes "gc_reachable r" "allowed op r"
  shows "\<exists>r'. gc_step r op r' \<and> spec_step (abs_graph r) op (abs_graph r')"
  using perform_spec [OF gc_reachable_inv [OF assms(1)] assms(2)] assms(2) by (auto intro: gc_step.step)

theorem gc_refines_graph_witness:
  "\<exists>r'. gc_step sample (Contract_Edge 2 3) r' \<and> spec_step (abs_graph sample) (Contract_Edge 2 3) (abs_graph r')"
proof (rule gc_refines_graph [OF sample_reachable])
  show "allowed (Contract_Edge 2 3) sample" by code_simp
qed

text \<open>C21: \<^verbatim>\<open>InsertEdge\<close> returns true exactly if the destination does not reach the source; it then
  adds the edge, and otherwise leaves the edges as they were. No node appears or disappears, and
  no node data changes.
\<close>

theorem InsertEdge_iff_no_cycle:
  assumes "gc_reachable r" "x \<in> live r" "y \<in> live r"
  shows "\<exists>r'. InsertEdge x y r = Some ((y, x) \<notin> (edges (nodes r))\<^sup>*, r') \<and> live r' = live r \<and>
    edges (nodes r') = (if (y, x) \<in> (edges (nodes r))\<^sup>* then edges (nodes r) else insert (x, y) (edges (nodes r))) \<and>
    (\<forall>n. n \<in> live r \<longrightarrow> GetNodeData n r' = GetNodeData n r)"
proof -
  obtain b r' where r': "InsertEdge x y r = Some (b, r')" "inserts x y r b r'"
    using InsertEdge_spec [OF gc_reachable_inv [OF assms(1)] assms(2,3)] by blast
  have b: "b \<longleftrightarrow> (y, x) \<notin> (edges (nodes r))\<^sup>*" using r'(2) by (auto simp: inserts_def)
  have "GetNodeData n r' = GetNodeData n r" if "n \<in> live r" for n
    using r'(2) that by (auto simp: inserts_def GetNodeData_def node_at_def live_def)
  moreover have "live r' = live r" using r'(2) by (simp add: inserts_def live_def)
  ultimately show ?thesis using r' b by (auto simp: inserts_def)
qed

theorem InsertEdge_iff_no_cycle_witness:
  "\<exists>r'. InsertEdge 0 3 sample = Some ((3, 0) \<notin> (edges (nodes sample))\<^sup>*, r') \<and> live r' = live sample \<and>
    edges (nodes r') = (if (3, 0) \<in> (edges (nodes sample))\<^sup>* then edges (nodes sample)
      else insert (0, 3) (edges (nodes sample))) \<and>
    (\<forall>n. n \<in> live sample \<longrightarrow> GetNodeData n r' = GetNodeData n sample)"
proof (rule InsertEdge_iff_no_cycle [OF sample_reachable])
  have "is_live sample 0 \<and> is_live sample 3" by code_simp
  then show "0 \<in> live sample" "3 \<in> live sample" by (simp_all add: is_live_iff)
qed

text \<open>C22: \<^verbatim>\<open>FindPath\<close> always returns. It returns 0 exactly if there is no path, and otherwise the
  number of nodes of a path from the source to the destination on which no node appears twice
  and whose first \<^verbatim>\<open>max_path_len\<close> nodes it stored.
\<close>

theorem FindPath_finds:
  assumes "gc_reachable r" "x \<in> live r" "m \<le> length path"
  shows "\<exists>k path'. FindPath x y m path r = Some (k, path') \<and> length path' = length path \<and>
    (k = 0 \<longleftrightarrow> (x, y) \<notin> (edges (nodes r))\<^sup>*) \<and>
    (k = 0 \<or> (\<exists>p. is_path (edges (nodes r)) x y p \<and> distinct p \<and> length p = k \<and>
       take (min k m) path' = take (min k m) p))"
proof -
  note inv = gc_reachable_inv [OF assms(1)]
  have "x < length (nodes r)" using assms(2) by (simp add: live_def)
  from FindPath_spec [OF inv this assms(3), of y]
  obtain k path' where *: "FindPath x y m path r = Some (k, path')" "length path' = length path"
    "if k = 0 then (x, y) \<notin> (edges (nodes r))\<^sup>*
     else \<exists>p. is_path (edges (nodes r)) x y p \<and> length p = k \<and> take (min k m) path' = take (min k m) p"
    by blast
  then show ?thesis
    by (cases "k = 0") (auto dest: is_path_rtrancl is_path_distinct [OF gc_invD(2) [OF inv]])
qed

theorem FindPath_finds_witness:
  "\<exists>k path'. FindPath 2 0 2 [9, 9, 9] sample = Some (k, path') \<and> length path' = length [9, 9, 9 :: nat] \<and>
    (k = 0 \<longleftrightarrow> (2, 0) \<notin> (edges (nodes sample))\<^sup>*) \<and>
    (k = 0 \<or> (\<exists>p. is_path (edges (nodes sample)) 2 0 p \<and> distinct p \<and> length p = k \<and>
       take (min k 2) path' = take (min k 2) p))"
proof (rule FindPath_finds [OF sample_reachable])
  have "is_live sample 2" by code_simp
  then show "2 \<in> live sample" by (simp add: is_live_iff)
qed simp

text \<open>C23: The search of \<^verbatim>\<open>IsReachable\<close> and the search of \<^verbatim>\<open>IsReachableNonConst\<close>, which the ranks
  bound, give the same answer, and the second leaves the graph as it was.
\<close>

theorem IsReachable_agree:
  assumes "gc_reachable r" "x \<in> live r" "y \<in> live r"
  shows "\<exists>b r'. IsReachable x y r = Some b \<and> IsReachableNonConst x y r = Some (b, r') \<and>
    nodes r' = nodes r \<and> free_nodes r' = free_nodes r"
  using IsReachable_spec [OF gc_reachable_inv [OF assms(1)]] IsReachableNonConst_spec [OF gc_reachable_inv [OF assms(1)]]
    assms(2,3) by (auto simp: live_def)

theorem IsReachable_agree_witness:
  "\<exists>b r'. IsReachable 1 3 sample = Some b \<and> IsReachableNonConst 1 3 sample = Some (b, r') \<and>
    nodes r' = nodes sample \<and> free_nodes r' = free_nodes sample"
proof (rule IsReachable_agree [OF sample_reachable])
  have "is_live sample 1 \<and> is_live sample 3" by code_simp
  then show "1 \<in> live sample" "3 \<in> live sample" by (simp_all add: is_live_iff)
qed

text \<open>C24: \<^verbatim>\<open>AllNodesInPostOrder\<close> lists every allocated node once, and a node after all nodes that it
  reaches.
\<close>

theorem AllNodesInPostOrder_post_order:
  assumes "gc_reachable r"
  shows "set (AllNodesInPostOrder r) = live r \<and> distinct (AllNodesInPostOrder r) \<and>
    (\<forall>i j. i < length (AllNodesInPostOrder r) \<and> j < length (AllNodesInPostOrder r) \<and>
       (AllNodesInPostOrder r ! i, AllNodesInPostOrder r ! j) \<in> (edges (nodes r))\<^sup>+ \<longrightarrow> j < i)"
  using AllNodesInPostOrder_set [of r] AllNodesInPostOrder_edge [OF gc_reachable_inv [OF assms]] by blast

theorem AllNodesInPostOrder_post_order_witness:
  "AllNodesInPostOrder sample = [0, 3, 1, 2] \<and> set (AllNodesInPostOrder sample) = live sample"
proof
  show "AllNodesInPostOrder sample = [0, 3, 1, 2]" by code_simp
  show "set (AllNodesInPostOrder sample) = live sample" using AllNodesInPostOrder_post_order [OF sample_reachable] by blast
qed

text \<open>
  The header promises that \<^verbatim>\<open>RemoveEdge\<close> removes any edge that exists; on a pair of nodes with no
  edge between them it erases a missing element, which has no defined result.
\<close>

lemma RemoveEdge_missing:
  assumes "gc_reachable r" "x \<in> live r" "(x, y) \<notin> edges (nodes r)"
  shows "RemoveEdge x y r = None"
proof -
  have "x < length (nodes r)" "y \<notin> succs (nodes r) x" using assms(2,3) by (auto simp: live_def edges_def)
  moreover have "OS_inv (n_out (nodes r ! x))"
    using representsD(4) [OF gc_invD(1) [OF gc_reachable_inv [OF assms(1)]]] \<open>x < length (nodes r)\<close> by simp
  ultimately have "OS_Erase y (n_out (nodes r ! x)) = None" by (simp add: os.erase_none)
  then show ?thesis by (simp add: RemoveEdge_def erase_out_def node_at_def)
qed

end
