(* ===== verification/TableFormat.thy ===== *)
theory TableFormat
  imports RecordIO "HOL-Library.Monad_Syntax"
begin

unbundle bit_operations_syntax

text \<open>
  The pieces of a sorted string table file: options, block handles, the footer and reading a
  stored block with its checksum (\<^verbatim>\<open>core/lib/io/table_options.h\<close>, \<^verbatim>\<open>format.h\<close>, \<^verbatim>\<open>format.cc\<close>).

  The snappy library is third-party code: it is a record of functions that the definitions
  take, and \<open>snappy_ok\<close> is what its documentation promises, that decompression inverts
  compression.
\<close>

section \<open>Options and compression\<close>

datatype TableCompression = kNoCompression | kSnappyCompression

record Options =
  block_size :: nat
  block_restart_interval :: int
  compression :: TableCompression

text \<open>
  \<^verbatim>\<open>Snappy_Compress\<close>, \<^verbatim>\<open>Snappy_GetUncompressedLength\<close> and \<^verbatim>\<open>Snappy_Uncompress\<close>; \<open>None\<close> is the
  return value false.
\<close>

record Snappy =
  Snappy_Compress :: "bytes \<Rightarrow> bytes option"
  Snappy_GetUncompressedLength :: "bytes \<Rightarrow> nat option"
  Snappy_Uncompress :: "bytes \<Rightarrow> bytes option"

definition snappy_ok :: "Snappy \<Rightarrow> bool" where
  "snappy_ok z \<longleftrightarrow> (\<forall>raw c. Snappy_Compress z raw = Some c \<longrightarrow>
     Snappy_GetUncompressedLength z c = Some (length raw) \<and> Snappy_Uncompress z c = Some raw)"

section \<open>Block handles\<close>

record BlockHandle =
  bh_offset :: u64
  bh_size :: u64

definition BlockHandle_new :: BlockHandle where
  "BlockHandle_new = \<lparr>bh_offset = NOT 0, bh_size = NOT 0\<rparr>"

definition kMaxEncodedLength :: nat where
  "kMaxEncodedLength = 10 + 10"

definition BlockHandle_EncodeTo :: "BlockHandle \<Rightarrow> bytes \<Rightarrow> bytes" where
  "BlockHandle_EncodeTo h dst = PutVarint64 (PutVarint64 dst (bh_offset h)) (bh_size h)"

definition BlockHandle_DecodeFrom :: "bytes \<Rightarrow> (BlockHandle \<times> bytes) result" where
  "BlockHandle_DecodeFrom input =
     (case GetVarint64 input of
        None \<Rightarrow> Inl (DataLoss ''bad block handle'')
      | Some (offset, input1) \<Rightarrow>
          (case GetVarint64 input1 of
             None \<Rightarrow> Inl (DataLoss ''bad block handle'')
           | Some (sz, input2) \<Rightarrow> Inr (\<lparr>bh_offset = offset, bh_size = sz\<rparr>, input2)))"

section \<open>The footer\<close>

record Footer =
  metaindex_handle :: BlockHandle
  index_handle :: BlockHandle

definition kEncodedLength :: nat where
  "kEncodedLength = 2 * kMaxEncodedLength + 8"

definition kTableMagicNumber :: u64 where
  "kTableMagicNumber = 0xdb4775248b80fb57"

text \<open>\<^verbatim>\<open>string::resize\<close>.\<close>

definition resize :: "nat \<Rightarrow> bytes \<Rightarrow> bytes" where
  "resize n s = take n s @ replicate (n - length s) 0"

definition Footer_EncodeTo :: "Footer \<Rightarrow> bytes \<Rightarrow> bytes" where
  "Footer_EncodeTo f dst =
     (let dst1 = BlockHandle_EncodeTo (metaindex_handle f) dst;
          dst2 = BlockHandle_EncodeTo (index_handle f) dst1;
          dst3 = resize (2 * kMaxEncodedLength) dst2;
          dst4 = PutFixed32 dst3 (ucast (kTableMagicNumber AND 0xffffffff))
      in PutFixed32 dst4 (ucast (drop_bit 32 kTableMagicNumber)))"

definition Footer_DecodeFrom :: "bytes \<Rightarrow> (Footer \<times> bytes) result" where
  "Footer_DecodeFrom input =
     (let magic_ptr = kEncodedLength - 8 in
      case (DecodeFixed32 kLittleEndian (drop magic_ptr input), DecodeFixed32 kLittleEndian (drop (magic_ptr + 4) input)) of
        (Some magic_lo, Some magic_hi) \<Rightarrow>
          (let magic = push_bit 32 (ucast magic_hi) OR ucast magic_lo :: u64 in
           if magic \<noteq> kTableMagicNumber then Inl (DataLoss ''not an sstable (bad magic number)'')
           else
             (case BlockHandle_DecodeFrom input of
                Inl e \<Rightarrow> Inl e
              | Inr (mh, input1) \<Rightarrow>
                  (case BlockHandle_DecodeFrom input1 of
                     Inl e \<Rightarrow> Inl e
                   | Inr (ih, input2) \<Rightarrow>
                       Inr (\<lparr>metaindex_handle = mh, index_handle = ih\<rparr>, drop (magic_ptr + 8) input))))
      | _ \<Rightarrow> Inl MemFault)"

section \<open>Reading a block\<close>

definition kBlockTrailerSize :: nat where
  "kBlockTrailerSize = 5"

record BlockContents =
  bc_data :: bytes
  cacheable :: bool
  heap_allocated :: bool

text \<open>
  \<open>in_place\<close> says that the file returns a pointer to memory of its own (\<^verbatim>\<open>data != buf\<close>), as a
  memory-mapped file does.
\<close>

definition ReadBlock :: "Snappy \<Rightarrow> bool \<Rightarrow> bytes \<Rightarrow> BlockHandle \<Rightarrow> BlockContents result" where
  "ReadBlock z in_place file handle =
     (let n = unat (bh_size handle) in
      if kBlockTrailerSize > (2 ^ 64 - 1) - n then Inl (DataLoss ''handle.size() too big'')
      else
        (let (s, contents) = RandomAccessFile_Read file (int (unat (bh_offset handle))) (int (n + kBlockTrailerSize)) in
         case s of
           Some e \<Rightarrow> Inl e
         | None \<Rightarrow>
             if length contents \<noteq> n + kBlockTrailerSize then Inl (DataLoss ''truncated block read'')
             else
               (case DecodeFixed32 kLittleEndian (drop (n + 1) contents) of
                  None \<Rightarrow> Inl MemFault
                | Some masked \<Rightarrow>
                    if Value None 0 (take (n + 1) contents) \<noteq> Unmask masked
                    then Inl (DataLoss ''block checksum mismatch'')
                    else if contents ! n = 0 then
                      Inr \<lparr>bc_data = take n contents, cacheable = \<not> in_place, heap_allocated = \<not> in_place\<rparr>
                    else if contents ! n = 1 then
                      (case Snappy_GetUncompressedLength z (take n contents) of
                         None \<Rightarrow> Inl (DataLoss ''corrupted compressed block contents'')
                       | Some ulength \<Rightarrow>
                           (case Snappy_Uncompress z (take n contents) of
                              None \<Rightarrow> Inl (DataLoss ''corrupted compressed block contents'')
                            | Some ubuf \<Rightarrow>
                                if length ubuf \<noteq> ulength then Inl MemFault
                                else Inr \<lparr>bc_data = ubuf, cacheable = True, heap_allocated = True\<rparr>))
                    else Inl (DataLoss ''bad block type''))))"

section \<open>Round trips\<close>

lemma BlockHandle_roundtrip:
  "BlockHandle_DecodeFrom (BlockHandle_EncodeTo h [] @ rest) = Inr (h, rest)"
  by (simp add: BlockHandle_DecodeFrom_def BlockHandle_EncodeTo_def PutVarint64_def GetVarint64_EncodeVarint64)

lemma BlockHandle_EncodeTo_dst: "BlockHandle_EncodeTo h dst = dst @ BlockHandle_EncodeTo h []"
  by (simp add: BlockHandle_EncodeTo_def PutVarint64_def)

lemma length_BlockHandle_EncodeTo: "length (BlockHandle_EncodeTo h []) \<le> kMaxEncodedLength"
proof -
  have "VarintLength v \<le> 10" for v
    using VarintLength_bound [of v 9] unsigned_less [of v, where ?'a = nat] by simp
  from this [of "bh_offset h"] this [of "bh_size h"] show ?thesis
    by (simp add: BlockHandle_EncodeTo_def PutVarint64_def length_EncodeVarint64 kMaxEncodedLength_def)
qed

lemma Footer_encoding:
  obtains pad where
    "Footer_EncodeTo f [] = BlockHandle_EncodeTo (metaindex_handle f) [] @ BlockHandle_EncodeTo (index_handle f) [] @ pad @
       EncodeFixed32 kLittleEndian (ucast (kTableMagicNumber AND 0xffffffff)) @
       EncodeFixed32 kLittleEndian (ucast (drop_bit 32 kTableMagicNumber))"
    "length (BlockHandle_EncodeTo (metaindex_handle f) [] @ BlockHandle_EncodeTo (index_handle f) [] @ pad) = 40"
proof -
  let ?m = "BlockHandle_EncodeTo (metaindex_handle f) []" and ?i = "BlockHandle_EncodeTo (index_handle f) []"
  have "length (?m @ ?i) \<le> 40"
    using length_BlockHandle_EncodeTo [of "metaindex_handle f"] length_BlockHandle_EncodeTo [of "index_handle f"]
    by (simp add: kMaxEncodedLength_def)
  then show ?thesis
    by (intro that [of "replicate (40 - length (?m @ ?i)) 0"])
      (simp_all add: Footer_EncodeTo_def Let_def BlockHandle_EncodeTo_dst [of "index_handle f" ?m] resize_def
        kMaxEncodedLength_def PutFixed32_def)
qed

lemma length_Footer: "length (Footer_EncodeTo f []) = kEncodedLength"
proof -
  obtain pad where "Footer_EncodeTo f [] = BlockHandle_EncodeTo (metaindex_handle f) [] @ BlockHandle_EncodeTo (index_handle f) [] @ pad @
       EncodeFixed32 kLittleEndian (ucast (kTableMagicNumber AND 0xffffffff)) @
       EncodeFixed32 kLittleEndian (ucast (drop_bit 32 kTableMagicNumber))"
    "length (BlockHandle_EncodeTo (metaindex_handle f) [] @ BlockHandle_EncodeTo (index_handle f) [] @ pad) = 40"
    by (rule Footer_encoding)
  then show ?thesis by (simp add: kEncodedLength_def kMaxEncodedLength_def)
qed

lemma Footer_roundtrip: "Footer_DecodeFrom (Footer_EncodeTo f [] @ rest) = Inr (f, rest)"
proof -
  let ?lo = "EncodeFixed32 kLittleEndian (ucast (kTableMagicNumber AND 0xffffffff))"
  let ?hi = "EncodeFixed32 kLittleEndian (ucast (drop_bit 32 kTableMagicNumber))"
  obtain pad where pad: "Footer_EncodeTo f [] = BlockHandle_EncodeTo (metaindex_handle f) [] @ BlockHandle_EncodeTo (index_handle f) [] @ pad @ ?lo @ ?hi"
    "length (BlockHandle_EncodeTo (metaindex_handle f) [] @ BlockHandle_EncodeTo (index_handle f) [] @ pad) = 40"
    by (rule Footer_encoding)
  define hs where "hs = BlockHandle_EncodeTo (metaindex_handle f) [] @ BlockHandle_EncodeTo (index_handle f) [] @ pad"
  have e: "Footer_EncodeTo f [] @ rest = hs @ ?lo @ ?hi @ rest" "length hs = 40" using pad by (simp_all add: hs_def)
  have d: "drop 40 (hs @ ?lo @ ?hi @ rest) = ?lo @ ?hi @ rest" "drop 44 (hs @ ?lo @ ?hi @ rest) = ?hi @ rest"
      "drop 48 (hs @ ?lo @ ?hi @ rest) = rest"
    using e(2) by simp_all
  have magic: "push_bit 32 (ucast (ucast (drop_bit 32 kTableMagicNumber) :: u32)) OR
      ucast (ucast (kTableMagicNumber AND 0xffffffff) :: u32) = kTableMagicNumber"
    by (simp add: kTableMagicNumber_def)
  have h: "BlockHandle_DecodeFrom (hs @ r) = Inr (metaindex_handle f, BlockHandle_EncodeTo (index_handle f) [] @ pad @ r)" for r
    unfolding hs_def append_assoc by (rule BlockHandle_roundtrip)
  show ?thesis
  proof -
    have k: "kEncodedLength - 8 = 40" "40 + 4 = (44 :: nat)" "40 + 8 = (48 :: nat)"
      by (simp_all add: kEncodedLength_def kMaxEncodedLength_def)
    show ?thesis
      unfolding e(1) Footer_DecodeFrom_def Let_def k d DecodeFixed32_EncodeFixed32 h
      by (simp add: magic BlockHandle_roundtrip)
  qed
qed

text \<open>A block is stored with its type and the masked checksum of both.\<close>

definition stored_block :: "bytes \<Rightarrow> byte \<Rightarrow> bytes" where
  "stored_block contents t = contents @ [t] @ EncodeFixed32 kLittleEndian (Mask (Extend None 0 (Value None 0 contents) [t]))"

end
