(* ===== verification/TableBlock.thy ===== *)
theory TableBlock
  imports TableFormat
begin

text \<open>
  Blocks of a sorted string table: \<^verbatim>\<open>BlockBuilder\<close> (\<^verbatim>\<open>core/lib/io/block_builder.cc\<close>) writes entries
  with shared key prefixes and restart points, \<^verbatim>\<open>Block::Iter\<close> (\<^verbatim>\<open>core/lib/io/block.cc\<close>) walks and
  searches them.

  Offsets into a block are \<^verbatim>\<open>uint32\<close> in the source; they are natural numbers here, and every
  conversion to 32 bits is written as \<open>to_uint32\<close>. A loop that the source does not bound is a
  \<open>partial_function (option)\<close>; \<open>None\<close> is a loop that does not end, a read outside the block or a
  failed \<^verbatim>\<open>CHECK\<close>.
\<close>

definition to_uint32 :: "nat \<Rightarrow> nat" where
  "to_uint32 n = n mod 2 ^ 32"

section \<open>BlockBuilder\<close>

record BlockBuilder =
  buffer :: bytes
  bb_restarts :: "nat list"
  counter :: int
  finished :: bool
  bb_last_key :: bytes

definition BlockBuilder_new :: BlockBuilder where
  "BlockBuilder_new = \<lparr>buffer = [], bb_restarts = [0], counter = 0, finished = False, bb_last_key = []\<rparr>"

definition BlockBuilder_Reset :: "BlockBuilder \<Rightarrow> BlockBuilder" where
  "BlockBuilder_Reset b = b\<lparr>buffer := [], bb_restarts := [0], counter := 0, finished := False, bb_last_key := []\<rparr>"

definition CurrentSizeEstimate :: "BlockBuilder \<Rightarrow> nat" where
  "CurrentSizeEstimate b = length (buffer b) + length (bb_restarts b) * 4 + 4"

definition BlockBuilder_empty :: "BlockBuilder \<Rightarrow> bool" where
  "BlockBuilder_empty b \<longleftrightarrow> buffer b = []"

definition BlockBuilder_Finish :: "BlockBuilder \<Rightarrow> (bytes \<times> BlockBuilder) option" where
  "BlockBuilder_Finish b =
     (if 2 ^ 32 \<le> length (bb_restarts b) then None
      else
        (let buf1 = foldl (\<lambda>buf r. PutFixed32 buf (of_nat r)) (buffer b) (bb_restarts b);
             buf2 = PutFixed32 buf1 (of_nat (length (bb_restarts b)))
         in Some (buf2, b\<lparr>buffer := buf2, finished := True\<rparr>)))"

text \<open>The loop that counts the bytes two strings share, from \<open>shared\<close> on.\<close>

function SharedLoop :: "bytes \<Rightarrow> bytes \<Rightarrow> nat \<Rightarrow> nat" where
  "SharedLoop a b shared =
     (if shared < min (length a) (length b) \<and> a ! shared = b ! shared then SharedLoop a b (shared + 1) else shared)"
  by pat_completeness auto
termination by (relation "measure (\<lambda>(a, b, shared). length a - shared)") auto

declare SharedLoop.simps [simp del]

definition BlockBuilder_Add :: "Options \<Rightarrow> bytes \<Rightarrow> bytes \<Rightarrow> BlockBuilder \<Rightarrow> BlockBuilder option" where
  "BlockBuilder_Add opt key value b =
     (let restart = \<not> counter b < block_restart_interval opt;
          shared = (if restart then 0 else SharedLoop (bb_last_key b) key 0);
          non_shared = length key - shared
      in if restart \<and> 2 ^ 32 \<le> length (buffer b) then None
         else if 2 ^ 32 \<le> shared \<or> 2 ^ 32 \<le> non_shared \<or> 2 ^ 32 \<le> length value then None
         else
           (let buf1 = PutVarint32 (buffer b) (of_nat shared);
                buf2 = PutVarint32 buf1 (of_nat non_shared);
                buf3 = PutVarint32 buf2 (of_nat (length value))
            in Some (b\<lparr>buffer := buf3 @ drop shared key @ value,
                       bb_restarts := (if restart then bb_restarts b @ [length (buffer b)] else bb_restarts b),
                       counter := (if restart then 0 else counter b) + 1,
                       bb_last_key := take shared (bb_last_key b) @ drop shared key\<rparr>)))"

section \<open>Block\<close>

record Block =
  blk_data :: bytes
  blk_size :: nat
  restart_offset :: nat

definition NumRestarts :: "bytes \<Rightarrow> nat \<Rightarrow> nat option" where
  "NumRestarts data sz = map_option unat (DecodeFixed32 kLittleEndian (drop (sz - 4) data))"

definition Block_new :: "BlockContents \<Rightarrow> Block option" where
  "Block_new contents =
     (let data = bc_data contents; sz = length data in
      if sz < 4 then Some \<lparr>blk_data = data, blk_size = 0, restart_offset = 0\<rparr>
      else do {
        n \<leftarrow> NumRestarts data sz;
        if (sz - 4) div 4 < n then Some \<lparr>blk_data = data, blk_size = 0, restart_offset = 0\<rparr>
        else Some \<lparr>blk_data = data, blk_size = sz, restart_offset = to_uint32 (sz - to_uint32 (1 + n) * 4)\<rparr> })"

text \<open>
  The argument of \<^verbatim>\<open>DecodeEntry\<close> is the bytes from \<^verbatim>\<open>p\<close> to \<^verbatim>\<open>limit\<close>; the last component of the
  result is the bytes from the returned pointer on.
\<close>

definition DecodeEntry :: "bytes \<Rightarrow> (u32 \<times> u32 \<times> u32 \<times> bytes) option" where
  "DecodeEntry p =
     (if length p < 3 then None
      else do {
        (shared, non_shared, value_length, q) \<leftarrow>
          (let s = ucast (p ! 0) :: u32; n = ucast (p ! 1) :: u32; v = ucast (p ! 2) :: u32 in
           if (s OR n OR v) < 128 then Some (s, n, v, drop 3 p)
           else do {
             (s, p1) \<leftarrow> GetVarint32Ptr p;
             (n, p2) \<leftarrow> GetVarint32Ptr p1;
             (v, p3) \<leftarrow> GetVarint32Ptr p2;
             Some (s, n, v, p3) });
        if (of_nat (length q) :: u32) < non_shared + value_length then None
        else Some (shared, non_shared, value_length, q) })"

text \<open>
  The iterator. \<^verbatim>\<open>value_\<close> is a piece of the block, an offset and a length, or the null string.
\<close>

record Iter =
  it_data :: bytes
  it_restarts :: nat
  it_num_restarts :: nat
  it_current :: nat
  it_restart_index :: nat
  it_key :: bytes
  it_value :: "(nat \<times> nat) option"
  it_status :: status

definition Iter_new :: "bytes \<Rightarrow> nat \<Rightarrow> nat \<Rightarrow> Iter" where
  "Iter_new data restarts num_restarts =
     \<lparr>it_data = data, it_restarts = restarts, it_num_restarts = num_restarts, it_current = restarts,
      it_restart_index = num_restarts, it_key = [], it_value = None, it_status = OK\<rparr>"

definition NextEntryOffset :: "Iter \<Rightarrow> nat option" where
  "NextEntryOffset it = map_option (\<lambda>(off, len). to_uint32 (off + len)) (it_value it)"

definition GetRestartPoint :: "nat \<Rightarrow> Iter \<Rightarrow> nat option" where
  "GetRestartPoint index it =
     (if index < it_num_restarts it
      then map_option unat (DecodeFixed32 kLittleEndian (drop (it_restarts it + index * 4) (it_data it)))
      else None)"

definition SeekToRestartPoint :: "nat \<Rightarrow> Iter \<Rightarrow> Iter option" where
  "SeekToRestartPoint index it = do {
     offset \<leftarrow> GetRestartPoint index it;
     Some (it\<lparr>it_key := [], it_restart_index := index, it_value := Some (offset, 0)\<rparr>) }"

definition CorruptionError :: "Iter \<Rightarrow> Iter" where
  "CorruptionError it =
     it\<lparr>it_current := it_restarts it, it_restart_index := it_num_restarts it,
        it_status := Some (DataLoss ''bad entry in block''), it_key := [], it_value := None\<rparr>"

text \<open>The bytes between the offset \<open>p\<close> and the restart array.\<close>

definition entry_region :: "Iter \<Rightarrow> nat \<Rightarrow> bytes" where
  "entry_region it p = take (it_restarts it - p) (drop p (it_data it))"

partial_function (option) AdvanceRestartIndex :: "Iter \<Rightarrow> Iter option" where
  "AdvanceRestartIndex it =
     (if to_uint32 (it_restart_index it + 1) < it_num_restarts it then do {
        p \<leftarrow> GetRestartPoint (to_uint32 (it_restart_index it + 1)) it;
        if p < it_current it
        then AdvanceRestartIndex (it\<lparr>it_restart_index := to_uint32 (it_restart_index it + 1)\<rparr>)
        else Some it }
      else Some it)"

definition ParseNextKey :: "Iter \<Rightarrow> (bool \<times> Iter) option" where
  "ParseNextKey it = do {
     cur \<leftarrow> NextEntryOffset it;
     if it_restarts it \<le> cur
     then Some (False, it\<lparr>it_current := it_restarts it, it_restart_index := it_num_restarts it\<rparr>)
     else
       (case DecodeEntry (entry_region it cur) of
          None \<Rightarrow> Some (False, CorruptionError (it\<lparr>it_current := cur\<rparr>))
        | Some (shared, non_shared, value_length, q) \<Rightarrow>
            if length (it_key it) < unat shared then Some (False, CorruptionError (it\<lparr>it_current := cur\<rparr>))
            else
              (let p = it_restarts it - length q in
               if length (it_data it) < p + unat non_shared + unat value_length then None
               else do {
                 it' \<leftarrow> AdvanceRestartIndex (it\<lparr>it_current := cur,
                   it_key := take (unat shared) (it_key it) @ take (unat non_shared) (drop p (it_data it)),
                   it_value := Some (p + unat non_shared, unat value_length)\<rparr>);
                 Some (True, it') })) }"

definition Iter_Valid :: "Iter \<Rightarrow> bool" where
  "Iter_Valid it \<longleftrightarrow> it_current it < it_restarts it"

definition Iter_value :: "Iter \<Rightarrow> bytes" where
  "Iter_value it = (case it_value it of None \<Rightarrow> [] | Some (off, len) \<Rightarrow> take len (drop off (it_data it)))"

definition Iter_Next :: "Iter \<Rightarrow> Iter option" where
  "Iter_Next it = map_option snd (ParseNextKey it)"

definition Iter_SeekToFirst :: "Iter \<Rightarrow> Iter option" where
  "Iter_SeekToFirst it = do { it1 \<leftarrow> SeekToRestartPoint 0 it; map_option snd (ParseNextKey it1) }"

text \<open>The binary search of \<^verbatim>\<open>Seek\<close>; \<open>Some None\<close> is a corrupted entry.\<close>

partial_function (option) SeekSearch :: "bytes \<Rightarrow> Iter \<Rightarrow> nat \<Rightarrow> nat \<Rightarrow> nat option option" where
  "SeekSearch target it left right =
     (if left < right then
        (let mid = to_uint32 (left + right + 1) div 2 in do {
           region_offset \<leftarrow> GetRestartPoint mid it;
           (case DecodeEntry (entry_region it region_offset) of
              None \<Rightarrow> Some None
            | Some (shared, non_shared, value_length, q) \<Rightarrow>
                if shared \<noteq> 0 then Some None
                else if length (it_data it) < (it_restarts it - length q) + unat non_shared then None
                else if take (unat non_shared) (drop (it_restarts it - length q) (it_data it)) < target
                then SeekSearch target it mid right
                else SeekSearch target it left (mid - 1)) })
      else Some (Some left))"

partial_function (option) SeekScan :: "bytes \<Rightarrow> Iter \<Rightarrow> Iter option" where
  "SeekScan target it = do {
     (more, it') \<leftarrow> ParseNextKey it;
     if \<not> more then Some it'
     else if it_key it' < target then SeekScan target it'
     else Some it' }"

definition Iter_Seek :: "bytes \<Rightarrow> Iter \<Rightarrow> Iter option" where
  "Iter_Seek target it = do {
     found \<leftarrow> SeekSearch target it 0 (it_num_restarts it - 1);
     (case found of
        None \<Rightarrow> Some (CorruptionError it)
      | Some left \<Rightarrow> do { it1 \<leftarrow> SeekToRestartPoint left it; SeekScan target it1 }) }"

section \<open>Iterators\<close>

text \<open>The virtual functions of \<^verbatim>\<open>Iterator\<close>.\<close>

record 'i Iterator =
  op_Valid :: "'i \<Rightarrow> bool"
  op_SeekToFirst :: "'i \<Rightarrow> 'i option"
  op_Seek :: "bytes \<Rightarrow> 'i \<Rightarrow> 'i option"
  op_Next :: "'i \<Rightarrow> 'i option"
  op_key :: "'i \<Rightarrow> bytes"
  op_value :: "'i \<Rightarrow> bytes"
  op_status :: "'i \<Rightarrow> status"

text \<open>What \<^verbatim>\<open>Block::NewIterator\<close> returns: an iterator of the block, or one with no entries.\<close>

datatype BlockIterator = BlockIter Iter | EmptyIterator status

fun BI_Valid :: "BlockIterator \<Rightarrow> bool" where
  "BI_Valid (BlockIter it) = Iter_Valid it"
| "BI_Valid (EmptyIterator s) = False"

fun BI_SeekToFirst :: "BlockIterator \<Rightarrow> BlockIterator option" where
  "BI_SeekToFirst (BlockIter it) = map_option BlockIter (Iter_SeekToFirst it)"
| "BI_SeekToFirst (EmptyIterator s) = Some (EmptyIterator s)"

fun BI_Seek :: "bytes \<Rightarrow> BlockIterator \<Rightarrow> BlockIterator option" where
  "BI_Seek target (BlockIter it) = map_option BlockIter (Iter_Seek target it)"
| "BI_Seek target (EmptyIterator s) = Some (EmptyIterator s)"

fun BI_Next :: "BlockIterator \<Rightarrow> BlockIterator option" where
  "BI_Next (BlockIter it) = map_option BlockIter (Iter_Next it)"
| "BI_Next (EmptyIterator s) = None"

fun BI_key :: "BlockIterator \<Rightarrow> bytes" where
  "BI_key (BlockIter it) = it_key it"
| "BI_key (EmptyIterator s) = []"

fun BI_value :: "BlockIterator \<Rightarrow> bytes" where
  "BI_value (BlockIter it) = Iter_value it"
| "BI_value (EmptyIterator s) = []"

fun BI_status :: "BlockIterator \<Rightarrow> status" where
  "BI_status (BlockIter it) = it_status it"
| "BI_status (EmptyIterator s) = s"

definition block_iterator :: "BlockIterator Iterator" where
  "block_iterator = \<lparr>op_Valid = BI_Valid, op_SeekToFirst = BI_SeekToFirst, op_Seek = BI_Seek, op_Next = BI_Next,
     op_key = BI_key, op_value = BI_value, op_status = BI_status\<rparr>"

definition Block_NewIterator :: "Block \<Rightarrow> BlockIterator option" where
  "Block_NewIterator b =
     (if blk_size b < 4 then Some (EmptyIterator (Some (DataLoss ''bad block contents'')))
      else do {
        n \<leftarrow> NumRestarts (blk_data b) (blk_size b);
        if n = 0 then Some (EmptyIterator OK) else Some (BlockIter (Iter_new (blk_data b) (restart_offset b) n)) })"

end
