(* ===== verification/TableBlockRead.thy ===== *)
theory TableBlockRead
  imports TableBlock
begin

unbundle bit_operations_syntax

text \<open>
  Reading blocks: the contract of iterators, and a proof that \<^verbatim>\<open>Block::Iter\<close> keeps it on every
  block that is laid out as \<^verbatim>\<open>BlockBuilder\<close> lays it out.
\<close>

section \<open>Decoding an entry\<close>

lemma less_128_iff: "(w :: u32) < 128 \<longleftrightarrow> drop_bit 7 w = 0"
proof -
  have "w < 128 \<longleftrightarrow> unat w < 128" by (simp add: word_less_nat_alt)
  also have "\<dots> \<longleftrightarrow> unat (drop_bit 7 w) = 0" by (simp add: unat_drop_bit_word div_eq_0_iff)
  finally show ?thesis by (simp add: unsigned_eq_0_iff)
qed

lemma or_less_128: "(a OR b :: u32) < 128 \<longleftrightarrow> a < 128 \<and> b < 128"
  by (simp add: less_128_iff drop_bit_or or_eq_0_iff)

lemma and_128_zero: "(w :: u32) < 128 \<Longrightarrow> w AND 128 = 0"
proof -
  assume "w < 128"
  then have "\<not> bit (drop_bit 7 w) 0" by (simp add: less_128_iff)
  then have "\<not> bit w 7" by (simp only: bit_drop_bit_eq comp_apply add_0_right) simp
  then show ?thesis by (intro bit_word_eqI) (auto simp: bit_simps word_bits)
qed

lemma GetVarint32Ptr_small: "(ucast b :: u32) < 128 \<Longrightarrow> GetVarint32Ptr (b # q) = Some (ucast b, q)"
  by (simp add: GetVarint32Ptr_def Let_def and_128_zero)

text \<open>The path for three one-byte values agrees with the general path.\<close>

lemma DecodeEntry_eq:
  assumes "3 \<le> length p"
  shows "DecodeEntry p = do {
    (s, p1) \<leftarrow> GetVarint32Ptr p;
    (n, p2) \<leftarrow> GetVarint32Ptr p1;
    (v, p3) \<leftarrow> GetVarint32Ptr p2;
    if (of_nat (length p3) :: u32) < n + v then None else Some (s, n, v, p3) }"
proof -
  obtain a b c q where p: "p = a # b # c # q" using assms by (metis Suc_le_length_iff numeral_3_eq_3)
  show ?thesis
  proof (cases "(ucast a OR ucast b OR ucast c :: u32) < 128")
    case True
    then have "(ucast a :: u32) < 128" "(ucast b :: u32) < 128" "(ucast c :: u32) < 128" by (simp_all add: or_less_128)
    with True show ?thesis by (simp add: DecodeEntry_def p GetVarint32Ptr_small)
  next
    case False
    then show ?thesis by (auto simp: DecodeEntry_def p split: Option.bind_splits)
  qed
qed

definition entry_bytes :: "nat \<Rightarrow> bytes \<Rightarrow> bytes \<Rightarrow> bytes" where
  "entry_bytes sh k v = EncodeVarint32 (of_nat sh) @ EncodeVarint32 (of_nat (length k - sh)) @
     EncodeVarint32 (of_nat (length v)) @ drop sh k @ v"

lemma length_EncodeVarint32_pos: "1 \<le> length (EncodeVarint32 v)"
  by (simp add: EncodeVarint32_eq_EncodeVarint64 length_EncodeVarint64 del: One_nat_def)

lemma length_entry_bytes: "3 + (length k - sh) + length v \<le> length (entry_bytes sh k v)"
  using length_EncodeVarint32_pos [of "of_nat sh"] length_EncodeVarint32_pos [of "of_nat (length k - sh)"]
    length_EncodeVarint32_pos [of "of_nat (length v)"] by (simp add: entry_bytes_def)

lemma GetVarint32Ptr_Encode: "GetVarint32Ptr (EncodeVarint32 v @ rest) = Some (v, rest)"
  by (simp add: GetVarint32Ptr_eq_Fallback GetVarint32PtrFallback_EncodeVarint32)

lemma DecodeEntry_entry_bytes:
  assumes "sh \<le> length k" "length (entry_bytes sh k v @ rest) < 2 ^ 32" "sh < 2 ^ 32"
  shows "DecodeEntry (entry_bytes sh k v @ rest) =
    Some (of_nat sh, of_nat (length k - sh), of_nat (length v), drop sh k @ v @ rest)"
proof -
  have len: "3 \<le> length (entry_bytes sh k v @ rest)" "length k - sh + length v + length rest < 2 ^ 32"
    using length_entry_bytes [of k sh v] assms(2) by simp_all
  have "(of_nat (length (drop sh k @ v @ rest)) :: u32) = of_nat (length k - sh + length v + length rest)"
    by (simp add: add.assoc)
  moreover have "unat (of_nat (length k - sh) + of_nat (length v) :: u32) = length k - sh + length v"
    using len(2) unat_of_nat_small [of "length k - sh + length v", where ?'a = 32] by (simp flip: of_nat_add)
  ultimately have "\<not> (of_nat (length (drop sh k @ v @ rest)) :: u32) < of_nat (length k - sh) + of_nat (length v)"
    using len(2) unat_of_nat_small [of "length k - sh + length v + length rest", where ?'a = 32]
    by (simp add: word_less_nat_alt add.assoc)
  then show ?thesis
    unfolding DecodeEntry_eq [OF len(1)] by (simp add: entry_bytes_def GetVarint32Ptr_Encode)
qed

section \<open>The layout of a block\<close>

text \<open>
  A block holds a list of entries, each with the number of bytes its key shares with the key
  before it, and the indices of the entries that are restart points.
\<close>

type_synonym entry = "nat \<times> bytes \<times> bytes"

abbreviation shared_of :: "entry \<Rightarrow> nat" where
  "shared_of e \<equiv> fst e"

abbreviation key_of :: "entry \<Rightarrow> bytes" where
  "key_of e \<equiv> fst (snd e)"

abbreviation value_of :: "entry \<Rightarrow> bytes" where
  "value_of e \<equiv> snd (snd e)"

definition enc_entry :: "entry \<Rightarrow> bytes" where
  "enc_entry e = entry_bytes (shared_of e) (key_of e) (value_of e)"

definition enc_entries :: "entry list \<Rightarrow> bytes" where
  "enc_entries xs = concat (map enc_entry xs)"

definition entry_offset :: "entry list \<Rightarrow> nat \<Rightarrow> nat" where
  "entry_offset xs i = length (enc_entries (take i xs))"

definition key_before :: "entry list \<Rightarrow> nat \<Rightarrow> bytes" where
  "key_before xs i = (if i = 0 then [] else key_of (xs ! (i - 1)))"

definition shares :: "bytes \<Rightarrow> entry \<Rightarrow> bool" where
  "shares prev e \<longleftrightarrow> shared_of e \<le> length (key_of e) \<and> shared_of e \<le> length prev \<and>
     take (shared_of e) prev = take (shared_of e) (key_of e)"

definition enc_fixed32 :: "nat \<Rightarrow> bytes" where
  "enc_fixed32 n = EncodeFixed32 kLittleEndian (of_nat n)"

definition enc_block :: "entry list \<Rightarrow> nat list \<Rightarrow> bytes" where
  "enc_block xs rs = enc_entries xs @ concat (map (\<lambda>i. enc_fixed32 (entry_offset xs i)) rs) @ enc_fixed32 (length rs)"

definition block_layout :: "entry list \<Rightarrow> nat list \<Rightarrow> bool" where
  "block_layout xs rs \<longleftrightarrow> length (enc_block xs rs) < 2 ^ 32 \<and> (\<forall>i < length xs. shares (key_before xs i) (xs ! i)) \<and>
     rs \<noteq> [] \<and> hd rs = 0 \<and> (\<forall>i \<in> set rs. if i < length xs then shared_of (xs ! i) = 0 else i = 0) \<and>
     (xs = [] \<longrightarrow> rs = [0])"

lemma length_enc_fixed32 [simp]: "length (enc_fixed32 n) = 4"
  by (simp add: enc_fixed32_def)

lemma drop_fixed_width:
  "(\<And>x. x \<in> set xs \<Longrightarrow> length (f x) = w) \<Longrightarrow> j \<le> length xs \<Longrightarrow>
     drop (j * w) (concat (map f xs) @ ys) = concat (map f (drop j xs)) @ ys"
proof (induction xs arbitrary: j)
  case (Cons x xs)
  then show ?case by (cases j) (simp_all add: Cons.IH [symmetric])
qed simp

lemma length_fixed_width: "(\<And>x. x \<in> set xs \<Longrightarrow> length (f x) = w) \<Longrightarrow> length (concat (map f xs)) = length xs * w"
  by (induction xs) auto

lemma length_enc_block: "length (enc_block xs rs) = length (enc_entries xs) + 4 * length rs + 4"
  by (simp add: enc_block_def length_fixed_width [of rs _ 4])

lemma entry_offset_0 [simp]: "entry_offset xs 0 = 0"
  by (simp add: entry_offset_def enc_entries_def)

lemma entry_offset_Suc: "i < length xs \<Longrightarrow> entry_offset xs (Suc i) = entry_offset xs i + length (enc_entry (xs ! i))"
  by (simp add: entry_offset_def enc_entries_def take_Suc_conv_app_nth)

lemma entry_offset_length: "entry_offset xs (length xs) = length (enc_entries xs)"
  by (simp add: entry_offset_def)

lemma enc_entries_split: "i < length xs \<Longrightarrow> enc_entries xs = enc_entries (take i xs) @ enc_entry (xs ! i) @ enc_entries (drop (Suc i) xs)"
  by (subst id_take_nth_drop [of i xs]) (simp_all add: enc_entries_def)

lemma entry_offset_le: "entry_offset xs i \<le> length (enc_entries xs)"
proof -
  have "enc_entries xs = enc_entries (take i xs) @ enc_entries (drop i xs)"
    by (simp add: enc_entries_def flip: concat_append map_append)
  then show ?thesis by (simp add: entry_offset_def)
qed

lemma entry_offset_less: "i < length xs \<Longrightarrow> entry_offset xs i < length (enc_entries xs)"
  using entry_offset_Suc [of i xs] entry_offset_le [of xs "Suc i"] length_entry_bytes [of "key_of (xs ! i)" "shared_of (xs ! i)" "value_of (xs ! i)"]
  by (simp add: enc_entry_def)

lemma fixed32_bytes: "n < 2 ^ 32 \<Longrightarrow> map_option unat (DecodeFixed32 kLittleEndian (enc_fixed32 n @ rest)) = Some n"
  using unat_of_nat_small [of n, where ?'a = 32] by (simp add: enc_fixed32_def)

section \<open>The iterator on a laid out block\<close>

definition iter_for :: "entry list \<Rightarrow> nat list \<Rightarrow> Iter \<Rightarrow> bool" where
  "iter_for xs rs it \<longleftrightarrow> it_data it = enc_block xs rs \<and> it_restarts it = length (enc_entries xs) \<and>
     it_num_restarts it = length rs \<and> it_status it = OK \<and> it_restart_index it \<le> length rs"

text \<open>Ready to parse entry \<open>i\<close>, and positioned at entry \<open>i\<close>.\<close>

definition iter_before :: "entry list \<Rightarrow> Iter \<Rightarrow> nat \<Rightarrow> bool" where
  "iter_before xs it i \<longleftrightarrow> (\<exists>off len. it_value it = Some (off, len) \<and> off + len = entry_offset xs i) \<and>
     i \<le> length xs \<and> (i < length xs \<longrightarrow> shares (it_key it) (xs ! i))"

definition iter_at :: "entry list \<Rightarrow> Iter \<Rightarrow> nat \<Rightarrow> bool" where
  "iter_at xs it i \<longleftrightarrow>
     (if i < length xs then it_current it = entry_offset xs i \<and> it_key it = key_of (xs ! i) \<and>
        it_value it = Some (entry_offset xs (Suc i) - length (value_of (xs ! i)), length (value_of (xs ! i)))
      else it_current it = length (enc_entries xs))"

lemma GetRestartPoint_layout:
  assumes "block_layout xs rs" "iter_for xs rs it" "j < length rs"
  shows "GetRestartPoint j it = Some (entry_offset xs (rs ! j))"
proof -
  let ?f = "\<lambda>i. enc_fixed32 (entry_offset xs i)"
  have "drop (length (enc_entries xs) + j * 4) (enc_block xs rs) = concat (map ?f (drop j rs)) @ enc_fixed32 (length rs)"
    using drop_fixed_width [of rs ?f 4 j "enc_fixed32 (length rs)"] assms(3) by (simp add: enc_block_def)
  also have "\<dots> = ?f (rs ! j) @ concat (map ?f (drop (Suc j) rs)) @ enc_fixed32 (length rs)"
    using assms(3) by (simp add: Cons_nth_drop_Suc [symmetric])
  finally have d: "drop (length (enc_entries xs) + j * 4) (enc_block xs rs) =
    ?f (rs ! j) @ concat (map ?f (drop (Suc j) rs)) @ enc_fixed32 (length rs)" .
  have "entry_offset xs (rs ! j) < 2 ^ 32"
    using entry_offset_le [of xs "rs ! j"] assms(1) by (simp add: block_layout_def length_enc_block)
  from fixed32_bytes [OF this] show ?thesis
    using assms(2,3) by (simp add: GetRestartPoint_def iter_for_def d)
qed

lemma AdvanceRestartIndex_total:
  assumes "block_layout xs rs" "iter_for xs rs it"
  shows "\<exists>ri. AdvanceRestartIndex it = Some (it\<lparr>it_restart_index := ri\<rparr>) \<and> ri \<le> length rs"
  using assms(2)
proof (induction "length rs - it_restart_index it" arbitrary: it rule: less_induct)
  case less
  have len: "length rs + 1 < 2 ^ 32" using assms(1) by (simp add: block_layout_def length_enc_block)
  have ri: "to_uint32 (Suc (it_restart_index it)) = Suc (it_restart_index it)"
    using less(2) len by (simp add: iter_for_def to_uint32_def)
  have num: "it_num_restarts it = length rs" "it_restart_index it \<le> length rs" using less(2) by (simp_all add: iter_for_def)
  show ?case
  proof (cases "Suc (it_restart_index it) < length rs \<and> entry_offset xs (rs ! Suc (it_restart_index it)) < it_current it")
    case True
    let ?it = "it\<lparr>it_restart_index := Suc (it_restart_index it)\<rparr>"
    have "AdvanceRestartIndex it = AdvanceRestartIndex ?it"
      using True GetRestartPoint_layout [OF assms(1) less(2)] by (subst AdvanceRestartIndex.simps) (simp add: ri num)
    moreover have "iter_for xs rs ?it" using less(2) True by (simp add: iter_for_def)
    then have "\<exists>ri. AdvanceRestartIndex ?it = Some (?it\<lparr>it_restart_index := ri\<rparr>) \<and> ri \<le> length rs"
      using less(1) [of ?it] True by auto
    ultimately show ?thesis by auto
  next
    case False
    then have "AdvanceRestartIndex it = Some it"
      using GetRestartPoint_layout [OF assms(1) less(2), of "Suc (it_restart_index it)"]
      by (subst AdvanceRestartIndex.simps) (auto simp: ri num)
    then show ?thesis using num(2) by (intro exI [of _ "it_restart_index it"]) simp
  qed
qed

lemma entry_region_layout:
  assumes "iter_for xs rs it" "i < length xs"
  shows "entry_region it (entry_offset xs i) = enc_entry (xs ! i) @ enc_entries (drop (Suc i) xs)"
proof -
  have "drop (entry_offset xs i) (it_data it) = enc_entry (xs ! i) @ enc_entries (drop (Suc i) xs) @
      concat (map (\<lambda>i. enc_fixed32 (entry_offset xs i)) rs) @ enc_fixed32 (length rs)"
    using assms enc_entries_split [OF assms(2)] by (simp add: iter_for_def enc_block_def entry_offset_def)
  moreover have "it_restarts it - entry_offset xs i = length (enc_entry (xs ! i) @ enc_entries (drop (Suc i) xs))"
    using assms(1) arg_cong [OF enc_entries_split [OF assms(2)], of length]
    by (simp add: iter_for_def entry_offset_def)
  ultimately show ?thesis by (simp add: entry_region_def)
qed

lemma layout_small:
  assumes "block_layout xs rs" "i < length xs"
  shows "length (key_of (xs ! i)) - shared_of (xs ! i) + length (value_of (xs ! i)) < 2 ^ 32"
    "length (enc_entry (xs ! i) @ enc_entries (drop (Suc i) xs)) < 2 ^ 32"
  using assms arg_cong [OF enc_entries_split [OF assms(2)], of length]
    length_entry_bytes [of "key_of (xs ! i)" "shared_of (xs ! i)" "value_of (xs ! i)"]
  by (simp_all add: block_layout_def length_enc_block enc_entry_def)

lemma shared_small:
  assumes "block_layout xs rs" "i < length xs"
  shows "shared_of (xs ! i) < 2 ^ 32"
proof -
  have sh: "shares (key_before xs j) (xs ! j)" if "j < length xs" for j using assms(1) that by (simp add: block_layout_def)
  have "length (key_of (xs ! j)) \<le> entry_offset xs (Suc j)" if "j < length xs" for j
    using that
  proof (induction j)
    case 0
    then show ?case
      using sh [of 0] length_entry_bytes [of "key_of (xs ! 0)" 0 "value_of (xs ! 0)"]
      by (simp add: shares_def key_before_def entry_offset_Suc enc_entry_def)
  next
    case (Suc j)
    then show ?case
      using sh [of "Suc j"] length_entry_bytes [of "key_of (xs ! Suc j)" "shared_of (xs ! Suc j)" "value_of (xs ! Suc j)"]
      by (auto simp: shares_def key_before_def entry_offset_Suc [of "Suc j"] enc_entry_def)
  qed
  from this [OF assms(2)] sh [OF assms(2)] entry_offset_le [of xs "Suc i"] assms(1) show ?thesis
    by (simp add: shares_def block_layout_def length_enc_block)
qed

lemma DecodeEntry_layout:
  assumes "block_layout xs rs" "iter_for xs rs it" "i < length xs"
  shows "DecodeEntry (entry_region it (entry_offset xs i)) =
    Some (of_nat (shared_of (xs ! i)), of_nat (length (key_of (xs ! i)) - shared_of (xs ! i)),
      of_nat (length (value_of (xs ! i))),
      drop (shared_of (xs ! i)) (key_of (xs ! i)) @ value_of (xs ! i) @ enc_entries (drop (Suc i) xs))"
proof -
  have "shares (key_before xs i) (xs ! i)" using assms(1,3) by (simp add: block_layout_def)
  then have "shared_of (xs ! i) \<le> length (key_of (xs ! i))" by (simp add: shares_def)
  from DecodeEntry_entry_bytes [OF this] layout_small [OF assms(1,3)] shared_small [OF assms(1,3)] show ?thesis
    by (simp add: entry_region_layout [OF assms(2,3)] enc_entry_def)
qed

lemma entry_payload:
  assumes "iter_for xs rs it" "i < length xs"
  defines "p \<equiv> it_restarts it - length (drop (shared_of (xs ! i)) (key_of (xs ! i)) @ value_of (xs ! i) @ enc_entries (drop (Suc i) xs))"
  shows "drop p (it_data it) = drop (shared_of (xs ! i)) (key_of (xs ! i)) @ value_of (xs ! i) @
      enc_entries (drop (Suc i) xs) @ concat (map (\<lambda>i. enc_fixed32 (entry_offset xs i)) rs) @ enc_fixed32 (length rs)"
    and "p + (length (key_of (xs ! i)) - shared_of (xs ! i)) + length (value_of (xs ! i)) = entry_offset xs (Suc i)"
proof -
  let ?e = "xs ! i"
  define head where "head = EncodeVarint32 (of_nat (shared_of ?e)) @ EncodeVarint32 (of_nat (length (key_of ?e) - shared_of ?e)) @
     EncodeVarint32 (of_nat (length (value_of ?e)))"
  have e: "enc_entry ?e = head @ drop (shared_of ?e) (key_of ?e) @ value_of ?e"
    by (simp add: enc_entry_def entry_bytes_def head_def)
  have all: "enc_entries xs = (enc_entries (take i xs) @ head) @ drop (shared_of ?e) (key_of ?e) @ value_of ?e @ enc_entries (drop (Suc i) xs)"
    using enc_entries_split [OF assms(2)] by (simp add: e)
  have p: "p = length (enc_entries (take i xs) @ head)"
    using assms(1) arg_cong [OF all, of length] by (simp add: p_def iter_for_def)
  show "drop p (it_data it) = drop (shared_of ?e) (key_of ?e) @ value_of ?e @ enc_entries (drop (Suc i) xs) @
      concat (map (\<lambda>i. enc_fixed32 (entry_offset xs i)) rs) @ enc_fixed32 (length rs)"
    using assms(1) unfolding p iter_for_def enc_block_def all by simp
  show "p + (length (key_of ?e) - shared_of ?e) + length (value_of ?e) = entry_offset xs (Suc i)"
    using entry_offset_Suc [OF assms(2)] entry_offset_def [of xs i] by (simp add: p e)
qed

lemma ParseNextKey_entry:
  assumes lay: "block_layout xs rs" and it: "iter_for xs rs it" "iter_before xs it i" and i: "i < length xs"
  shows "\<exists>it'. ParseNextKey it = Some (True, it') \<and> iter_for xs rs it' \<and> iter_at xs it' i"
proof -
  let ?e = "xs ! i"
  have small: "length (enc_block xs rs) < 2 ^ 32" using lay by (simp add: block_layout_def)
  have "entry_offset xs i < 2 ^ 32" using entry_offset_le [of xs i] small by (simp add: length_enc_block)
  then have next_off: "NextEntryOffset it = Some (entry_offset xs i)"
    using it(2) by (auto simp: iter_before_def NextEntryOffset_def to_uint32_def)
  have sh: "shares (it_key it) ?e" using it(2) i by (simp add: iter_before_def)
  have u: "unat (of_nat (shared_of ?e) :: u32) = shared_of ?e"
      "unat (of_nat (length (key_of ?e) - shared_of ?e) :: u32) = length (key_of ?e) - shared_of ?e"
      "unat (of_nat (length (value_of ?e)) :: u32) = length (value_of ?e)"
    using layout_small(1) [OF lay i] shared_small [OF lay i] by (simp_all add: unat_of_nat_small)
  define q where "q = drop (shared_of ?e) (key_of ?e) @ value_of ?e @ enc_entries (drop (Suc i) xs)"
  define p where "p = it_restarts it - length q"
  note pay = entry_payload [OF it(1) i, folded q_def, folded p_def]
  define it1 where "it1 = it\<lparr>it_current := entry_offset xs i, it_key := key_of ?e,
     it_value := Some (entry_offset xs (Suc i) - length (value_of ?e), length (value_of ?e))\<rparr>"
  have key: "take (shared_of ?e) (it_key it) @ take (length (key_of ?e) - shared_of ?e) (drop p (it_data it)) = key_of ?e"
    using sh by (simp add: pay(1) shares_def)
  have "entry_offset xs (Suc i) \<le> length (it_data it)"
    using entry_offset_le [of xs "Suc i"] it(1) by (simp add: iter_for_def length_enc_block)
  moreover have "it_restarts it > entry_offset xs i" using entry_offset_less [OF i] it(1) by (simp add: iter_for_def)
  moreover have "p + (length (key_of ?e) - shared_of ?e) = entry_offset xs (Suc i) - length (value_of ?e)"
      "length (value_of ?e) \<le> entry_offset xs (Suc i)" using pay(2) by simp_all
  moreover have "shared_of ?e \<le> length (it_key it)" using sh by (simp add: shares_def)
  ultimately have parse: "ParseNextKey it = map_option (Pair True) (AdvanceRestartIndex it1)"
    unfolding ParseNextKey_def next_off
    by (simp add: DecodeEntry_layout [OF lay it(1) i, folded q_def] u key pay(2) it1_def map_conv_bind_option Let_def comp_def flip: p_def)
  have "iter_for xs rs it1" using it(1) by (simp add: iter_for_def it1_def)
  from AdvanceRestartIndex_total [OF lay this] obtain ri where
    ri: "AdvanceRestartIndex it1 = Some (it1\<lparr>it_restart_index := ri\<rparr>)" "ri \<le> length rs" by blast
  show ?thesis
    unfolding parse ri(1) using it(1) ri(2) i by (simp add: iter_for_def iter_at_def it1_def)
qed

lemma ParseNextKey_end:
  assumes lay: "block_layout xs rs" and it: "iter_for xs rs it" "iter_before xs it (length xs)"
  shows "\<exists>it'. ParseNextKey it = Some (False, it') \<and> iter_for xs rs it' \<and> iter_at xs it' (length xs)"
proof -
  have "length (enc_entries xs) < 2 ^ 32" using lay by (simp add: block_layout_def length_enc_block)
  then have "NextEntryOffset it = Some (length (enc_entries xs))"
    using it(2) by (auto simp: iter_before_def NextEntryOffset_def to_uint32_def entry_offset_length)
  then show ?thesis using it(1) by (simp add: ParseNextKey_def iter_for_def iter_at_def)
qed

lemma iter_before_at:
  assumes lay: "block_layout xs rs" and at: "iter_at xs it i" and i: "i < length xs"
  shows "iter_before xs it (Suc i)"
proof -
  have "length (value_of (xs ! i)) \<le> entry_offset xs (Suc i)"
    using entry_offset_Suc [OF i] length_entry_bytes [of "key_of (xs ! i)" "shared_of (xs ! i)" "value_of (xs ! i)"]
    by (simp add: enc_entry_def)
  moreover have "shares (key_of (xs ! i)) (xs ! Suc i)" if "Suc i < length xs"
  proof -
    have "shares (key_before xs (Suc i)) (xs ! Suc i)" using lay that by (simp add: block_layout_def)
    then show ?thesis by (simp add: key_before_def)
  qed
  ultimately show ?thesis using at i by (simp add: iter_at_def iter_before_def)
qed

lemma SeekToRestartPoint_layout:
  assumes lay: "block_layout xs rs" and it: "iter_for xs rs it" and j: "j < length rs"
  shows "\<exists>it'. SeekToRestartPoint j it = Some it' \<and> iter_for xs rs it' \<and> iter_before xs it' (rs ! j)"
proof -
  have rs: "if rs ! j < length xs then shared_of (xs ! (rs ! j)) = 0 else rs ! j = 0"
    using lay nth_mem [OF j] by (auto simp: block_layout_def)
  then show ?thesis
    using GetRestartPoint_layout [OF lay it j] it j
    by (auto simp: SeekToRestartPoint_def iter_for_def iter_before_def shares_def split: if_splits)
qed

lemma ParseNextKey_layout:
  assumes "block_layout xs rs" "iter_for xs rs it" "iter_before xs it i"
  shows "\<exists>it'. ParseNextKey it = Some (i < length xs, it') \<and> iter_for xs rs it' \<and> iter_at xs it' i"
proof (cases "i < length xs")
  case True
  then show ?thesis using ParseNextKey_entry [OF assms] by simp
next
  case False
  then have "i = length xs" using assms(3) by (simp add: iter_before_def)
  then show ?thesis using ParseNextKey_end [OF assms(1,2)] assms(3) by simp
qed

lemma first_restart: "block_layout xs rs \<Longrightarrow> 0 < length rs \<and> rs ! 0 = 0"
  by (auto simp: block_layout_def hd_conv_nth)

lemma Iter_SeekToFirst_layout:
  assumes lay: "block_layout xs rs" and it: "iter_for xs rs it"
  shows "\<exists>it'. Iter_SeekToFirst it = Some it' \<and> iter_for xs rs it' \<and> iter_at xs it' 0"
proof -
  obtain it1 where it1: "SeekToRestartPoint 0 it = Some it1" "iter_for xs rs it1" "iter_before xs it1 0"
    using SeekToRestartPoint_layout [OF lay it, of 0] first_restart [OF lay] by auto
  from ParseNextKey_layout [OF lay it1(2,3)] it1(1) show ?thesis by (auto simp: Iter_SeekToFirst_def)
qed

lemma Iter_Next_layout:
  assumes lay: "block_layout xs rs" and it: "iter_for xs rs it" "iter_at xs it i" and i: "i < length xs"
  shows "\<exists>it'. Iter_Next it = Some it' \<and> iter_for xs rs it' \<and> iter_at xs it' (Suc i)"
  using ParseNextKey_layout [OF lay it(1) iter_before_at [OF lay it(2) i]] by (auto simp: Iter_Next_def)

section \<open>Searching\<close>

text \<open>The index of the first entry whose key is not below the target.\<close>

definition first_from :: "bytes \<Rightarrow> (bytes \<times> bytes) list \<Rightarrow> nat" where
  "first_from target es = length (takeWhile (\<lambda>e. fst e < target) es)"

abbreviation contents_of :: "entry list \<Rightarrow> (bytes \<times> bytes) list" where
  "contents_of xs \<equiv> map snd xs"

definition sorted_entries :: "(bytes \<times> bytes) list \<Rightarrow> bool" where
  "sorted_entries es \<longleftrightarrow> sorted_wrt (<) (map fst es)"

lemma first_fromI:
  assumes "i \<le> length es" "\<And>j. j < i \<Longrightarrow> fst (es ! j) < t" "i < length es \<Longrightarrow> \<not> fst (es ! i) < t"
  shows "first_from t es = i"
proof -
  have "takeWhile (\<lambda>e. fst e < t) es = take i es" by (rule takeWhile_eq_take_P_nth) (use assms in auto)
  with assms(1) show ?thesis by (simp add: first_from_def)
qed

lemma SeekSearch_layout:
  assumes lay: "block_layout xs rs" and it: "iter_for xs rs it"
    and "left \<le> right" "right < length rs" "left = 0 \<or> (rs ! left < length xs \<and> key_of (xs ! (rs ! left)) < t)"
  shows "\<exists>j < length rs. SeekSearch t it left right = Some (Some j) \<and>
    (j = 0 \<or> (rs ! j < length xs \<and> key_of (xs ! (rs ! j)) < t))"
  using assms(3-5)
proof (induction "right - left" arbitrary: left right rule: less_induct)
  case less
  show ?case
  proof (cases "left < right")
    case False
    with less show ?thesis by (subst SeekSearch.simps) auto
  next
    case True
    have "4 * length rs < 2 ^ 32" using lay by (simp add: block_layout_def length_enc_block)
    with less(3) True have mid: "to_uint32 (Suc (left + right)) div 2 = Suc (left + right) div 2" by (simp add: to_uint32_def)
    define mid where "mid = Suc (left + right) div 2"
    have m: "left < mid" "mid \<le> right" "mid < length rs" using True less(3) by (auto simp: mid_def)
    have in_range: "rs ! mid < length xs"
    proof (rule ccontr)
      assume n: "\<not> rs ! mid < length xs"
      then have "rs ! mid = 0" using lay nth_mem [OF m(3)] by (auto simp: block_layout_def)
      with n have "xs = []" by simp
      then show False using lay m by (simp add: block_layout_def)
    qed
    let ?e = "xs ! (rs ! mid)"
    have sh: "shared_of ?e = 0" using lay nth_mem [OF m(3)] in_range by (auto simp: block_layout_def)
    have u: "unat (of_nat (length (key_of ?e)) :: u32) = length (key_of ?e)"
      using layout_small(1) [OF lay in_range] sh by (simp add: unat_of_nat_small)
    define q where "q = key_of ?e @ value_of ?e @ enc_entries (drop (Suc (rs ! mid)) xs)"
    have dec: "DecodeEntry (entry_region it (entry_offset xs (rs ! mid))) =
        Some (0, of_nat (length (key_of ?e)), of_nat (length (value_of ?e)), q)"
      using DecodeEntry_layout [OF lay it in_range] by (simp add: sh q_def)
    note pay = entry_payload [OF it in_range, unfolded sh drop_0, folded q_def]
    have key: "take (length (key_of ?e)) (drop (it_restarts it - length q) (it_data it)) = key_of ?e"
      by (simp add: pay(1))
    have "\<not> length (it_data it) < it_restarts it - length q + length (key_of ?e)"
      using pay(2) entry_offset_le [of xs "Suc (rs ! mid)"] it by (simp add: iter_for_def length_enc_block)
    then have step: "SeekSearch t it left right =
        (if key_of ?e < t then SeekSearch t it mid right else SeekSearch t it left (mid - 1))"
      using True GetRestartPoint_layout [OF lay it m(3)]
      by (subst SeekSearch.simps) (simp add: mid Let_def dec u key flip: mid_def)
    show ?thesis
    proof (cases "key_of ?e < t")
      case True
      then show ?thesis using less(1) [of right mid] m less(3) in_range by (simp add: step)
    next
      case False
      then show ?thesis using less(1) [of "mid - 1" left] m less(3,4) by (simp add: step)
    qed
  qed
qed

lemma SeekScan_layout:
  assumes lay: "block_layout xs rs" and "iter_for xs rs it" "iter_before xs it i"
    and "\<And>j. j < i \<Longrightarrow> key_of (xs ! j) < t"
  shows "\<exists>it'. SeekScan t it = Some it' \<and> iter_for xs rs it' \<and> iter_at xs it' (first_from t (contents_of xs))"
  using assms(2-4)
proof (induction "length xs - i" arbitrary: it i rule: less_induct)
  case less
  have i: "i \<le> length xs" using less(3) by (simp add: iter_before_def)
  obtain it' where it': "ParseNextKey it = Some (i < length xs, it')" "iter_for xs rs it'" "iter_at xs it' i"
    using ParseNextKey_layout [OF lay less(2,3)] by blast
  show ?case
  proof (cases "i < length xs \<and> key_of (xs ! i) < t")
    case True
    then have "SeekScan t it = SeekScan t it'" using it' by (subst SeekScan.simps) (simp add: iter_at_def)
    moreover have "\<And>j. j < Suc i \<Longrightarrow> key_of (xs ! j) < t" using less(4) True by (auto simp: less_Suc_eq)
    ultimately show ?thesis
      using less(1) [OF _ it'(2) iter_before_at [OF lay it'(3)]] True by auto
  next
    case False
    then have "SeekScan t it = Some it'" using it' by (subst SeekScan.simps) (auto simp: iter_at_def)
    moreover have "first_from t (contents_of xs) = i" by (rule first_fromI) (use i False less(4) in auto)
    ultimately show ?thesis using it' by simp
  qed
qed

lemma Iter_Seek_layout:
  assumes lay: "block_layout xs rs" and it: "iter_for xs rs it" and sorted: "sorted_entries (contents_of xs)"
  shows "\<exists>it'. Iter_Seek t it = Some it' \<and> iter_for xs rs it' \<and> iter_at xs it' (first_from t (contents_of xs))"
proof -
  have num: "0 < length rs" "it_num_restarts it = length rs" using first_restart [OF lay] it by (simp_all add: iter_for_def)
  then obtain j where j: "j < length rs" "SeekSearch t it 0 (it_num_restarts it - 1) = Some (Some j)"
      "j = 0 \<or> (rs ! j < length xs \<and> key_of (xs ! (rs ! j)) < t)"
    using SeekSearch_layout [OF lay it, of 0 "length rs - 1" t] by auto
  obtain it1 where it1: "SeekToRestartPoint j it = Some it1" "iter_for xs rs it1" "iter_before xs it1 (rs ! j)"
    using SeekToRestartPoint_layout [OF lay it j(1)] by blast
  have "key_of (xs ! i) < t" if "i < rs ! j" for i
  proof -
    have "rs ! j < length xs" "key_of (xs ! (rs ! j)) < t" using j(3) that first_restart [OF lay] by auto
    moreover from this have "key_of (xs ! i) < key_of (xs ! (rs ! j))"
      using sorted_wrt_nth_less [OF sorted [unfolded sorted_entries_def] that] that by simp
    ultimately show ?thesis by (blast intro: less_trans)
  qed
  from SeekScan_layout [OF lay it1(2,3) this] j(2) it1(1) show ?thesis by (simp add: Iter_Seek_def)
qed

section \<open>The contract of iterators\<close>

text \<open>
  What \<^verbatim>\<open>iterator.h\<close> promises of an iterator over the entries \<open>es\<close>: \<open>source it es\<close> says that \<open>it\<close>
  iterates over \<open>es\<close>, and \<open>pos it es i\<close> that it is positioned at the entry \<open>i\<close>, or after the last
  one. Every operation returns.
\<close>

locale entry_source =
  fixes ops :: "'i Iterator"
    and source :: "'i \<Rightarrow> (bytes \<times> bytes) list \<Rightarrow> bool"
    and pos :: "'i \<Rightarrow> (bytes \<times> bytes) list \<Rightarrow> nat \<Rightarrow> bool"
  assumes seek_first: "source it es \<Longrightarrow> \<exists>it'. op_SeekToFirst ops it = Some it' \<and> pos it' es 0"
    and seek: "source it es \<Longrightarrow> \<exists>it'. op_Seek ops t it = Some it' \<and> pos it' es (first_from t es)"
    and next_entry: "pos it es i \<Longrightarrow> i < length es \<Longrightarrow> \<exists>it'. op_Next ops it = Some it' \<and> pos it' es (Suc i)"
    and valid: "pos it es i \<Longrightarrow> op_Valid ops it \<longleftrightarrow> i < length es"
    and entry: "pos it es i \<Longrightarrow> i < length es \<Longrightarrow> (op_key ops it, op_value ops it) = es ! i"
    and pos_source: "pos it es i \<Longrightarrow> source it es \<and> i \<le> length es"
    and status_ok: "source it es \<Longrightarrow> op_status ops it = OK"

text \<open>A client that reads all entries from the current one on.\<close>

partial_function (option) read_entries :: "'i Iterator \<Rightarrow> 'i \<Rightarrow> ((bytes \<times> bytes) list \<times> 'i) option" where
  "read_entries ops it =
     (if op_Valid ops it then do {
        it1 \<leftarrow> op_Next ops it;
        (es, it2) \<leftarrow> read_entries ops it1;
        Some ((op_key ops it, op_value ops it) # es, it2) }
      else Some ([], it))"

context entry_source
begin

lemma read_from:
  assumes "pos it es i"
  shows "\<exists>it'. read_entries ops it = Some (drop i es, it') \<and> op_status ops it' = OK"
  using assms
proof (induction "length es - i" arbitrary: it i)
  case 0
  then have "\<not> op_Valid ops it" "drop i es = []" "op_status ops it = OK"
    using valid [OF 0(2)] pos_source [OF 0(2)] status_ok by auto
  then show ?case by (subst read_entries.simps) simp
next
  case (Suc n)
  then have i: "i < length es" by simp
  obtain it1 where it1: "op_Next ops it = Some it1" "pos it1 es (Suc i)" using next_entry [OF Suc(3) i] by blast
  have "n = length es - Suc i" using Suc(2) by simp
  then obtain it2 where it2: "read_entries ops it1 = Some (drop (Suc i) es, it2)" "op_status ops it2 = OK"
    using Suc(1) it1(2) by blast
  have "op_Valid ops it" using valid [OF Suc(3)] i by simp
  with it1(1) it2 entry [OF Suc(3) i] i show ?case
    by (subst read_entries.simps) (simp add: Cons_nth_drop_Suc)
qed

lemma read_all:
  assumes "source it es"
  shows "\<exists>it1 it2. op_SeekToFirst ops it = Some it1 \<and> read_entries ops it1 = Some (es, it2) \<and> op_status ops it2 = OK"
proof -
  obtain it1 where "op_SeekToFirst ops it = Some it1" "pos it1 es 0" using seek_first [OF assms] by blast
  then show ?thesis using read_from [of it1 es 0] by auto
qed

lemma read_from_key:
  assumes "source it es"
  shows "\<exists>it1 it2. op_Seek ops t it = Some it1 \<and> read_entries ops it1 = Some (dropWhile (\<lambda>e. fst e < t) es, it2) \<and>
    op_status ops it2 = OK"
proof -
  obtain it1 where "op_Seek ops t it = Some it1" "pos it1 es (first_from t es)" using seek [OF assms] by blast
  moreover have "drop (first_from t es) es = dropWhile (\<lambda>e. fst e < t) es"
    by (simp add: first_from_def dropWhile_eq_drop)
  ultimately show ?thesis using read_from [of it1 es "first_from t es"] by auto
qed

end

definition block_on :: "entry list \<Rightarrow> nat list \<Rightarrow> Iter \<Rightarrow> (bytes \<times> bytes) list \<Rightarrow> bool" where
  "block_on xs rs it es \<longleftrightarrow> block_layout xs rs \<and> iter_for xs rs it \<and> es = contents_of xs \<and> sorted_entries es"

fun block_source :: "BlockIterator \<Rightarrow> (bytes \<times> bytes) list \<Rightarrow> bool" where
  "block_source (BlockIter it) es \<longleftrightarrow> (\<exists>xs rs. block_on xs rs it es)"
| "block_source (EmptyIterator s) es \<longleftrightarrow> s = OK \<and> es = []"

fun block_pos :: "BlockIterator \<Rightarrow> (bytes \<times> bytes) list \<Rightarrow> nat \<Rightarrow> bool" where
  "block_pos (BlockIter it) es i \<longleftrightarrow> (\<exists>xs rs. block_on xs rs it es \<and> iter_at xs it i \<and> i \<le> length es)"
| "block_pos (EmptyIterator s) es i \<longleftrightarrow> s = OK \<and> es = [] \<and> i = 0"

lemma first_from_le: "first_from t es \<le> length es"
  by (simp add: first_from_def length_takeWhile_le)

lemma iter_at_entry:
  assumes "block_on xs rs it es" "iter_at xs it i" "i < length es"
  shows "(it_key it, Iter_value it) = es ! i"
proof -
  have i: "i < length xs" and es: "es = contents_of xs" and it: "iter_for xs rs it" using assms by (auto simp: block_on_def)
  define p where "p = it_restarts it - length (drop (shared_of (xs ! i)) (key_of (xs ! i)) @ value_of (xs ! i) @ enc_entries (drop (Suc i) xs))"
  note pay = entry_payload [OF it i, folded p_def]
  have "entry_offset xs (Suc i) - length (value_of (xs ! i)) = (length (key_of (xs ! i)) - shared_of (xs ! i)) + p"
    using pay(2) by simp
  then have "drop (entry_offset xs (Suc i) - length (value_of (xs ! i))) (it_data it) =
      drop (length (key_of (xs ! i)) - shared_of (xs ! i)) (drop p (it_data it))" by simp
  then have "take (length (value_of (xs ! i))) (drop (entry_offset xs (Suc i) - length (value_of (xs ! i))) (it_data it)) = value_of (xs ! i)"
    by (simp add: pay(1))
  with assms(2) i show ?thesis by (simp add: iter_at_def Iter_value_def es)
qed

lemma iter_at_valid:
  assumes "block_on xs rs it es" "iter_at xs it i"
  shows "Iter_Valid it \<longleftrightarrow> i < length es"
  using assms entry_offset_less [of i xs]
  by (cases "i < length xs") (auto simp: block_on_def iter_at_def Iter_Valid_def iter_for_def)

lemma block_on_first:
  assumes "block_on xs rs it es"
  shows "\<exists>it'. Iter_SeekToFirst it = Some it' \<and> block_on xs rs it' es \<and> iter_at xs it' 0"
  using Iter_SeekToFirst_layout [of xs rs it] assms by (auto simp: block_on_def)

lemma block_on_seek:
  assumes "block_on xs rs it es"
  shows "\<exists>it'. Iter_Seek t it = Some it' \<and> block_on xs rs it' es \<and> iter_at xs it' (first_from t es)"
  using Iter_Seek_layout [of xs rs it t] assms by (auto simp: block_on_def)

lemma block_on_next:
  assumes "block_on xs rs it es" "iter_at xs it i" "i < length es"
  shows "\<exists>it'. Iter_Next it = Some it' \<and> block_on xs rs it' es \<and> iter_at xs it' (Suc i)"
  using Iter_Next_layout [of xs rs it i] assms by (auto simp: block_on_def)

interpretation block_iter: entry_source block_iterator block_source block_pos
proof
  fix it es
  assume *: "block_source it es"
  show "\<exists>it'. op_SeekToFirst block_iterator it = Some it' \<and> block_pos it' es 0"
  proof (cases it)
    case (BlockIter b)
    then obtain xs rs where "block_on xs rs b es" using * by auto
    from block_on_first [OF this] obtain b' where "Iter_SeekToFirst b = Some b'" "block_on xs rs b' es" "iter_at xs b' 0"
      by blast
    then show ?thesis using BlockIter by (intro exI [of _ "BlockIter b'"]) (auto simp: block_iterator_def)
  qed (use * in \<open>auto simp: block_iterator_def\<close>)
  fix t
  show "\<exists>it'. op_Seek block_iterator t it = Some it' \<and> block_pos it' es (first_from t es)"
  proof (cases it)
    case (BlockIter b)
    then obtain xs rs where "block_on xs rs b es" using * by auto
    from block_on_seek [OF this, of t] obtain b'
      where "Iter_Seek t b = Some b'" "block_on xs rs b' es" "iter_at xs b' (first_from t es)" by blast
    then show ?thesis using BlockIter first_from_le [of t es]
      by (intro exI [of _ "BlockIter b'"]) (auto simp: block_iterator_def)
  qed (use * in \<open>auto simp: block_iterator_def first_from_def\<close>)
  show "op_status block_iterator it = OK"
    using * by (cases it) (auto simp: block_iterator_def block_on_def iter_for_def)
next
  fix it es i
  assume *: "block_pos it es i"
  show "op_Valid block_iterator it \<longleftrightarrow> i < length es"
    using * by (cases it) (auto simp: block_iterator_def iter_at_valid)
  show "block_source it es \<and> i \<le> length es" using * by (cases it) auto
  assume i: "i < length es"
  then obtain b xs rs where b: "it = BlockIter b" "block_on xs rs b es" "iter_at xs b i" using * by (cases it) auto
  then show "(op_key block_iterator it, op_value block_iterator it) = es ! i"
    using iter_at_entry [OF b(2,3) i] by (simp add: block_iterator_def)
  show "\<exists>it'. op_Next block_iterator it = Some it' \<and> block_pos it' es (Suc i)"
  proof -
    obtain b' where "Iter_Next b = Some b'" "block_on xs rs b' es" "iter_at xs b' (Suc i)"
      using block_on_next [OF b(2,3) i] by blast
    then show ?thesis using b(1) i by (intro exI [of _ "BlockIter b'"]) (auto simp: block_iterator_def)
  qed
qed

end
