(* ===== verification/TableBlockWrite.thy ===== *)
theory TableBlockWrite
  imports TableBlockRead
begin

text \<open>
  Writing blocks: what \<^verbatim>\<open>BlockBuilder\<close> has laid out after a sequence of calls, and that
  \<^verbatim>\<open>Block::NewIterator\<close> on a finished block iterates over the entries that were added.
\<close>

section \<open>The builder\<close>

lemma SharedLoop_prefix:
  assumes "s \<le> length a" "s \<le> length b" "take s a = take s b"
  shows "SharedLoop a b s \<le> length a \<and> SharedLoop a b s \<le> length b \<and>
    take (SharedLoop a b s) a = take (SharedLoop a b s) b"
  using assms
proof (induction a b s rule: SharedLoop.induct)
  case (1 a b s)
  show ?case
  proof (cases "s < min (length a) (length b) \<and> a ! s = b ! s")
    case True
    then have "take (Suc s) a = take (Suc s) b" using 1(4) by (simp add: take_Suc_conv_app_nth)
    then show ?thesis using 1(1) True by (subst (1 2 3 4) SharedLoop.simps) simp
  next
    case False
    then show ?thesis using 1 by (subst (1 2 3 4) SharedLoop.simps) auto
  qed
qed

definition bb_inv :: "entry list \<Rightarrow> nat list \<Rightarrow> BlockBuilder \<Rightarrow> bool" where
  "bb_inv xs rs b \<longleftrightarrow> buffer b = enc_entries xs \<and> bb_restarts b = map (entry_offset xs) rs \<and>
     bb_last_key b = key_before xs (length xs) \<and> 0 \<le> counter b \<and> (xs = [] \<longrightarrow> counter b = 0 \<and> rs = [0]) \<and>
     (\<forall>i < length xs. shares (key_before xs i) (xs ! i)) \<and> rs \<noteq> [] \<and> hd rs = 0 \<and>
     (\<forall>i \<in> set rs. i \<le> length xs \<and> (if i < length xs then shared_of (xs ! i) = 0 else i = 0))"

lemma bb_inv_new: "bb_inv [] [0] BlockBuilder_new"
  by (simp add: bb_inv_def BlockBuilder_new_def enc_entries_def key_before_def)

lemma bb_inv_reset: "bb_inv [] [0] (BlockBuilder_Reset b)"
  by (simp add: bb_inv_def BlockBuilder_Reset_def enc_entries_def key_before_def)

lemma bb_inv_empty: "bb_inv xs rs b \<Longrightarrow> BlockBuilder_empty b \<longleftrightarrow> xs = []"
  using entry_offset_less [of 0 xs] by (auto simp: bb_inv_def BlockBuilder_empty_def enc_entries_def)

lemma bb_inv_size: "bb_inv xs rs b \<Longrightarrow> CurrentSizeEstimate b = length (enc_block xs rs)"
  by (simp add: bb_inv_def CurrentSizeEstimate_def length_enc_block)

lemma entry_offset_snoc: "i \<le> length xs \<Longrightarrow> entry_offset (xs @ [e]) i = entry_offset xs i"
  by (simp add: entry_offset_def)

lemma key_before_snoc: "i \<le> length xs \<Longrightarrow> key_before (xs @ [e]) i = key_before xs i"
  by (auto simp: key_before_def nth_append)

lemma key_before_snoc_end: "key_before (xs @ [e]) (Suc (length xs)) = key_of e"
  by (simp add: key_before_def)

lemma BlockBuilder_Add_spec:
  assumes inv: "bb_inv xs rs b" and opt: "1 \<le> block_restart_interval opt"
    and small: "length (buffer b) < 2 ^ 32" "length k < 2 ^ 32" "length v < 2 ^ 32"
  shows "\<exists>sh rs' b'. BlockBuilder_Add opt k v b = Some b' \<and> bb_inv (xs @ [(sh, k, v)]) rs' b' \<and> length rs' \<le> Suc (length rs)"
proof -
  define restart where "restart \<longleftrightarrow> \<not> counter b < block_restart_interval opt"
  define sh where "sh = (if restart then 0 else SharedLoop (bb_last_key b) k 0)"
  define rs' where "rs' = (if restart then rs @ [length xs] else rs)"
  have sh: "shares (bb_last_key b) (sh, k, v)"
    using SharedLoop_prefix [of 0 "bb_last_key b" k] by (simp add: shares_def sh_def)
  then have le: "sh \<le> length k" "take sh (bb_last_key b) @ drop sh k = k" by (simp_all add: shares_def)
  let ?e = "(sh, k, v)" and ?xs = "xs @ [(sh, k, v)]"
  have lk: "bb_last_key b = key_before xs (length xs)" using inv by (simp add: bb_inv_def)
  have first: "xs = [] \<Longrightarrow> \<not> restart \<and> sh = 0"
    using inv opt sh by (auto simp: bb_inv_def restart_def shares_def key_before_def)
  define b' where "b' = b\<lparr>buffer := enc_entries ?xs, bb_restarts := map (entry_offset ?xs) rs',
    counter := (if restart then 0 else counter b) + 1, bb_last_key := k\<rparr>"
  have old: "map (entry_offset ?xs) rs = bb_restarts b" "\<forall>i \<in> set rs. i \<le> length xs"
    using inv by (auto simp: bb_inv_def entry_offset_snoc)
  have "entry_offset xs (length xs) = length (buffer b)" using inv by (simp add: bb_inv_def entry_offset_length)
  with old have rs': "map (entry_offset ?xs) rs' = (if restart then bb_restarts b @ [length (buffer b)] else bb_restarts b)"
    by (simp add: rs'_def entry_offset_snoc)
  have "BlockBuilder_Add opt k v b = Some b'"
    using small le inv
    by (simp add: BlockBuilder_Add_def Let_def b'_def rs' PutVarint32_def bb_inv_def enc_entries_def enc_entry_def entry_bytes_def
      flip: restart_def sh_def)
  moreover have "bb_inv ?xs rs' b'"
    unfolding bb_inv_def
  proof (intro conjI)
    show "\<forall>i < length ?xs. shares (key_before ?xs i) (?xs ! i)"
      using inv sh lk by (auto simp: bb_inv_def key_before_snoc nth_append less_Suc_eq)
    show "\<forall>i \<in> set rs'. i \<le> length ?xs \<and> (if i < length ?xs then shared_of (?xs ! i) = 0 else i = 0)"
      using inv first by (auto simp: bb_inv_def rs'_def nth_append sh_def le_Suc_eq split: if_splits)
  qed (use inv in \<open>auto simp: b'_def bb_inv_def key_before_snoc_end rs'_def\<close>)
  ultimately show ?thesis by (auto simp: rs'_def intro!: exI [of _ sh] exI [of _ rs'] exI [of _ b'])
qed

lemma BlockBuilder_Finish_spec:
  assumes "bb_inv xs rs b" "length (enc_block xs rs) < 2 ^ 32"
  shows "\<exists>b'. BlockBuilder_Finish b = Some (enc_block xs rs, b') \<and> block_layout xs rs"
proof -
  have "foldl (\<lambda>buf r. PutFixed32 buf (of_nat r)) buf ns = buf @ concat (map enc_fixed32 ns)" for buf ns
    by (induction ns arbitrary: buf) (simp_all add: PutFixed32_def enc_fixed32_def)
  moreover have "length rs < 2 ^ 32" using assms(2) by (simp add: length_enc_block)
  ultimately show ?thesis
    using assms
    by (auto simp: BlockBuilder_Finish_def bb_inv_def Let_def enc_block_def comp_def block_layout_def PutFixed32_def enc_fixed32_def)
qed

section \<open>A finished block\<close>

lemma NewIterator_layout:
  assumes "block_layout xs rs" "bc_data c = enc_block xs rs" "sorted_entries (contents_of xs)"
  shows "\<exists>it. (Block_new c \<bind> Block_NewIterator) = Some it \<and> block_source it (contents_of xs)"
proof -
  have small: "length (enc_block xs rs) < 2 ^ 32" and rs: "rs \<noteq> []" using assms(1) by (simp_all add: block_layout_def)
  have len: "length (enc_block xs rs) = length (enc_entries xs) + 4 * length rs + 4" by (rule length_enc_block)
  have "drop (length (enc_block xs rs) - 4) (enc_block xs rs) = enc_fixed32 (length rs)"
    unfolding len by (simp add: enc_block_def length_fixed_width [of rs _ 4])
  then have num: "NumRestarts (enc_block xs rs) (length (enc_block xs rs)) = Some (length rs)"
    using fixed32_bytes [of "length rs" "[]"] small len by (simp add: NumRestarts_def)
  define it where "it = Iter_new (enc_block xs rs) (length (enc_entries xs)) (length rs)"
  have "to_uint32 (1 + length rs) = 1 + length rs" "to_uint32 (length (enc_entries xs)) = length (enc_entries xs)"
    using small len by (simp_all add: to_uint32_def)
  then have "(Block_new c \<bind> Block_NewIterator) = Some (BlockIter it)"
    using num small len rs by (simp add: Block_new_def assms(2) Let_def Block_NewIterator_def it_def)
  moreover have "block_on xs rs it (contents_of xs)"
    using assms by (simp add: block_on_def iter_for_def it_def Iter_new_def)
  ultimately show ?thesis by auto
qed

end
