(* ===== verification/TableIterator.thy ===== *)
theory TableIterator
  imports TableBlockWrite
begin

text \<open>
  \<^verbatim>\<open>TwoLevelIterator\<close> (\<^verbatim>\<open>core/lib/io/two_level_iterator.cc\<close>): an iterator over the index of a table that
  opens a block iterator for every index entry. It works with any two iterators that keep the
  contract, and then keeps it itself.
\<close>

section \<open>Operations\<close>

record ('i, 'd) TwoLevelIterator =
  tl_status :: status
  index_iter :: 'i
  data_iter :: "'d option"
  data_block_handle :: bytes

definition TL_new :: "'i \<Rightarrow> ('i, 'd) TwoLevelIterator" where
  "TL_new index = \<lparr>tl_status = OK, index_iter = index, data_iter = None, data_block_handle = []\<rparr>"

definition TL_SaveError :: "status \<Rightarrow> ('i, 'd) TwoLevelIterator \<Rightarrow> ('i, 'd) TwoLevelIterator" where
  "TL_SaveError s it = (if tl_status it = OK \<and> s \<noteq> OK then it\<lparr>tl_status := s\<rparr> else it)"

definition TL_SetDataIterator ::
  "'d Iterator \<Rightarrow> 'd option \<Rightarrow> ('i, 'd) TwoLevelIterator \<Rightarrow> ('i, 'd) TwoLevelIterator" where
  "TL_SetDataIterator dops d it =
     (case data_iter it of
        None \<Rightarrow> it\<lparr>data_iter := d\<rparr>
      | Some old \<Rightarrow> (TL_SaveError (op_status dops old) it)\<lparr>data_iter := d\<rparr>)"

definition TL_InitDataBlock ::
  "'i Iterator \<Rightarrow> 'd Iterator \<Rightarrow> (bytes \<Rightarrow> 'd option) \<Rightarrow> ('i, 'd) TwoLevelIterator \<Rightarrow> ('i, 'd) TwoLevelIterator option" where
  "TL_InitDataBlock iops dops block_function it =
     (if \<not> op_Valid iops (index_iter it) then Some (TL_SetDataIterator dops None it)
      else
        (let handle = op_value iops (index_iter it) in
         if data_iter it \<noteq> None \<and> handle = data_block_handle it then Some it
         else do {
           iter \<leftarrow> block_function handle;
           Some (TL_SetDataIterator dops (Some iter) (it\<lparr>data_block_handle := handle\<rparr>)) }))"

definition TL_Valid :: "'d Iterator \<Rightarrow> ('i, 'd) TwoLevelIterator \<Rightarrow> bool" where
  "TL_Valid dops it \<longleftrightarrow> (case data_iter it of None \<Rightarrow> False | Some d \<Rightarrow> op_Valid dops d)"

text \<open>\<^verbatim>\<open>if (data_iter_ != nullptr) data_iter_->f()\<close>.\<close>

definition TL_on_data ::
  "('d \<Rightarrow> 'd option) \<Rightarrow> ('i, 'd) TwoLevelIterator \<Rightarrow> ('i, 'd) TwoLevelIterator option" where
  "TL_on_data f it =
     (case data_iter it of None \<Rightarrow> Some it | Some d \<Rightarrow> map_option (\<lambda>d'. it\<lparr>data_iter := Some d'\<rparr>) (f d))"

partial_function (option) TL_SkipEmptyDataBlocksForward ::
  "'i Iterator \<Rightarrow> 'd Iterator \<Rightarrow> (bytes \<Rightarrow> 'd option) \<Rightarrow> ('i, 'd) TwoLevelIterator \<Rightarrow> ('i, 'd) TwoLevelIterator option" where
  "TL_SkipEmptyDataBlocksForward iops dops bf it =
     (if TL_Valid dops it then Some it
      else if \<not> op_Valid iops (index_iter it) then Some (TL_SetDataIterator dops None it)
      else do {
        ii \<leftarrow> op_Next iops (index_iter it);
        it1 \<leftarrow> TL_InitDataBlock iops dops bf (it\<lparr>index_iter := ii\<rparr>);
        it2 \<leftarrow> TL_on_data (op_SeekToFirst dops) it1;
        TL_SkipEmptyDataBlocksForward iops dops bf it2 })"

definition TL_Seek ::
  "'i Iterator \<Rightarrow> 'd Iterator \<Rightarrow> (bytes \<Rightarrow> 'd option) \<Rightarrow> bytes \<Rightarrow> ('i, 'd) TwoLevelIterator \<Rightarrow> ('i, 'd) TwoLevelIterator option" where
  "TL_Seek iops dops bf target it = do {
     ii \<leftarrow> op_Seek iops target (index_iter it);
     it1 \<leftarrow> TL_InitDataBlock iops dops bf (it\<lparr>index_iter := ii\<rparr>);
     it2 \<leftarrow> TL_on_data (op_Seek dops target) it1;
     TL_SkipEmptyDataBlocksForward iops dops bf it2 }"

definition TL_SeekToFirst ::
  "'i Iterator \<Rightarrow> 'd Iterator \<Rightarrow> (bytes \<Rightarrow> 'd option) \<Rightarrow> ('i, 'd) TwoLevelIterator \<Rightarrow> ('i, 'd) TwoLevelIterator option" where
  "TL_SeekToFirst iops dops bf it = do {
     ii \<leftarrow> op_SeekToFirst iops (index_iter it);
     it1 \<leftarrow> TL_InitDataBlock iops dops bf (it\<lparr>index_iter := ii\<rparr>);
     it2 \<leftarrow> TL_on_data (op_SeekToFirst dops) it1;
     TL_SkipEmptyDataBlocksForward iops dops bf it2 }"

definition TL_Next ::
  "'i Iterator \<Rightarrow> 'd Iterator \<Rightarrow> (bytes \<Rightarrow> 'd option) \<Rightarrow> ('i, 'd) TwoLevelIterator \<Rightarrow> ('i, 'd) TwoLevelIterator option" where
  "TL_Next iops dops bf it =
     (if TL_Valid dops it then do {
        it1 \<leftarrow> TL_on_data (op_Next dops) it;
        TL_SkipEmptyDataBlocksForward iops dops bf it1 }
      else None)"

definition TL_key :: "'d Iterator \<Rightarrow> ('i, 'd) TwoLevelIterator \<Rightarrow> bytes" where
  "TL_key dops it = (case data_iter it of None \<Rightarrow> [] | Some d \<Rightarrow> op_key dops d)"

definition TL_value :: "'d Iterator \<Rightarrow> ('i, 'd) TwoLevelIterator \<Rightarrow> bytes" where
  "TL_value dops it = (case data_iter it of None \<Rightarrow> [] | Some d \<Rightarrow> op_value dops d)"

definition TL_status :: "'i Iterator \<Rightarrow> 'd Iterator \<Rightarrow> ('i, 'd) TwoLevelIterator \<Rightarrow> status" where
  "TL_status iops dops it =
     (if op_status iops (index_iter it) \<noteq> OK then op_status iops (index_iter it)
      else
        (case data_iter it of
           Some d \<Rightarrow> if op_status dops d \<noteq> OK then op_status dops d else tl_status it
         | None \<Rightarrow> tl_status it))"

definition two_level_iterator ::
  "'i Iterator \<Rightarrow> 'd Iterator \<Rightarrow> (bytes \<Rightarrow> 'd option) \<Rightarrow> ('i, 'd) TwoLevelIterator Iterator" where
  "two_level_iterator iops dops bf =
     \<lparr>op_Valid = TL_Valid dops, op_SeekToFirst = TL_SeekToFirst iops dops bf, op_Seek = TL_Seek iops dops bf,
      op_Next = TL_Next iops dops bf, op_key = TL_key dops, op_value = TL_value dops, op_status = TL_status iops dops\<rparr>"

section \<open>Index and blocks\<close>

text \<open>
  The index entries \<open>ies\<close> have a separator and a handle each. The separator is not below any
  key of the block that the handle opens and below all keys of later blocks.
\<close>

abbreviation block_at :: "(bytes \<Rightarrow> (bytes \<times> bytes) list) \<Rightarrow> (bytes \<times> bytes) list \<Rightarrow> nat \<Rightarrow> (bytes \<times> bytes) list" where
  "block_at blk ies j \<equiv> blk (snd (ies ! j))"

definition separated :: "(bytes \<Rightarrow> (bytes \<times> bytes) list) \<Rightarrow> (bytes \<times> bytes) list \<Rightarrow> bool" where
  "separated blk ies \<longleftrightarrow>
     (\<forall>j < length ies. (\<forall>e \<in> set (block_at blk ies j). fst e \<le> fst (ies ! j)) \<and>
        (\<forall>i < j. \<forall>e \<in> set (block_at blk ies j). fst (ies ! i) < fst e))"

definition blocks_from :: "(bytes \<Rightarrow> (bytes \<times> bytes) list) \<Rightarrow> (bytes \<times> bytes) list \<Rightarrow> (bytes \<times> bytes) list" where
  "blocks_from blk ies = concat (map (\<lambda>e. blk (snd e)) ies)"

definition block_start :: "(bytes \<Rightarrow> (bytes \<times> bytes) list) \<Rightarrow> (bytes \<times> bytes) list \<Rightarrow> nat \<Rightarrow> nat" where
  "block_start blk ies j = length (blocks_from blk (take j ies))"

lemma block_start_0 [simp]: "block_start blk ies 0 = 0"
  by (simp add: block_start_def blocks_from_def)

lemma block_start_Suc: "j < length ies \<Longrightarrow> block_start blk ies (Suc j) = block_start blk ies j + length (block_at blk ies j)"
  by (simp add: block_start_def blocks_from_def take_Suc_conv_app_nth)

lemma block_start_length: "block_start blk ies (length ies) = length (blocks_from blk ies)"
  by (simp add: block_start_def)

lemma blocks_from_split:
  "j < length ies \<Longrightarrow> blocks_from blk ies = blocks_from blk (take j ies) @ block_at blk ies j @ blocks_from blk (drop (Suc j) ies)"
  by (subst id_take_nth_drop [of j ies]) (simp_all add: blocks_from_def)

lemma block_entry:
  assumes "j < length ies" "m < length (block_at blk ies j)"
  shows "block_start blk ies j + m < length (blocks_from blk ies)"
    "blocks_from blk ies ! (block_start blk ies j + m) = block_at blk ies j ! m"
  using blocks_from_split [OF assms(1), of blk] assms(2) by (simp_all add: block_start_def nth_append)

lemma seek_split:
  assumes sep: "separated blk ies" and j: "j = first_from t ies"
  shows "first_from t (blocks_from blk ies) =
    block_start blk ies j + (if j < length ies then first_from t (block_at blk ies j) else 0)"
proof -
  have below: "fst e < t" if e: "e \<in> set (blocks_from blk (take j ies))" for e
  proof -
    obtain x where x: "x \<in> set (take j ies)" "e \<in> set (blk (snd x))" using e by (auto simp: blocks_from_def)
    then obtain i where "i < length (take j ies)" "take j ies ! i = x" by (meson in_set_conv_nth)
    with x have i: "i < j" "i < length ies" "e \<in> set (block_at blk ies i)" by auto
    then have "fst e \<le> fst (ies ! i)" using sep by (simp add: separated_def)
    moreover have "fst (ies ! i) < t"
      using i(1) takeWhile_nth [of i "\<lambda>e. fst e < t" ies] nth_mem [of i "takeWhile (\<lambda>e. fst e < t) ies"]
        set_takeWhileD [of "ies ! i" "\<lambda>e. fst e < t" ies] by (simp add: j first_from_def)
    ultimately show ?thesis by simp
  qed
  show ?thesis
  proof (cases "j < length ies")
    case True
    have sj: "\<not> fst (ies ! j) < t" using True nth_length_takeWhile [of "\<lambda>e. fst e < t" ies] by (simp add: j first_from_def)
    have above: "\<not> fst e < t" if e: "e \<in> set (blocks_from blk (drop (Suc j) ies))" for e
    proof -
      obtain x where x: "x \<in> set (drop (Suc j) ies)" "e \<in> set (blk (snd x))" using e by (auto simp: blocks_from_def)
      then obtain i' where "i' < length (drop (Suc j) ies)" "drop (Suc j) ies ! i' = x" by (meson in_set_conv_nth)
      with x True have "j < Suc j + i'" "Suc j + i' < length ies" "e \<in> set (block_at blk ies (Suc j + i'))" by auto
      then obtain i where i: "j < i" "i < length ies" "e \<in> set (block_at blk ies i)" by blast
      then have "fst (ies ! j) < fst e" using sep by (simp add: separated_def)
      with sj show ?thesis by (meson less_trans)
    qed
    have "takeWhile (\<lambda>e. fst e < t) (blocks_from blk (drop (Suc j) ies)) = []"
      using above by (cases "blocks_from blk (drop (Suc j) ies)") auto
    then have "takeWhile (\<lambda>e. fst e < t) (blocks_from blk ies) =
        blocks_from blk (take j ies) @ takeWhile (\<lambda>e. fst e < t) (block_at blk ies j)"
      unfolding blocks_from_split [OF True, of blk] using below
      by (auto simp: takeWhile_append2 takeWhile_append takeWhile_eq_all_conv [THEN iffD2])
    then show ?thesis using True by (simp add: first_from_def block_start_def)
  next
    case False
    then have "take j ies = ies" by simp
    then have all: "takeWhile (\<lambda>e. fst e < t) (blocks_from blk ies) = blocks_from blk ies"
      using below by (simp add: takeWhile_eq_all_conv)
    show ?thesis unfolding first_from_def all using False by (simp add: block_start_def)
  qed
qed

section \<open>Contract\<close>

text \<open>The block function opens an iterator of the block of each handle of the index.\<close>

definition opens ::
  "('d \<Rightarrow> (bytes \<times> bytes) list \<Rightarrow> bool) \<Rightarrow> (bytes \<Rightarrow> 'd option) \<Rightarrow> (bytes \<Rightarrow> (bytes \<times> bytes) list) \<Rightarrow> (bytes \<times> bytes) list \<Rightarrow> bool" where
  "opens dsrc bf blk ies \<longleftrightarrow> (\<forall>j < length ies. \<exists>d. bf (snd (ies ! j)) = Some d \<and> dsrc d (block_at blk ies j))"

definition tl_table ::
  "('i \<Rightarrow> (bytes \<times> bytes) list \<Rightarrow> bool) \<Rightarrow> ('d \<Rightarrow> (bytes \<times> bytes) list \<Rightarrow> bool) \<Rightarrow> (bytes \<Rightarrow> 'd option) \<Rightarrow>
   (bytes \<Rightarrow> (bytes \<times> bytes) list) \<Rightarrow> (bytes \<times> bytes) list \<Rightarrow> ('i, 'd) TwoLevelIterator \<Rightarrow> bool" where
  "tl_table isrc dsrc bf blk ies it \<longleftrightarrow> isrc (index_iter it) ies \<and> opens dsrc bf blk ies \<and> separated blk ies \<and>
     tl_status it = OK \<and> (\<forall>d. data_iter it = Some d \<longrightarrow> dsrc d (blk (data_block_handle it)))"

definition tl_source ::
  "('i \<Rightarrow> (bytes \<times> bytes) list \<Rightarrow> bool) \<Rightarrow> ('d \<Rightarrow> (bytes \<times> bytes) list \<Rightarrow> bool) \<Rightarrow> (bytes \<Rightarrow> 'd option) \<Rightarrow>
   ('i, 'd) TwoLevelIterator \<Rightarrow> (bytes \<times> bytes) list \<Rightarrow> bool" where
  "tl_source isrc dsrc bf it es \<longleftrightarrow> (\<exists>blk ies. tl_table isrc dsrc bf blk ies it \<and> es = blocks_from blk ies)"

text \<open>The data iterator stands at the entry \<open>m\<close> of the block \<open>j\<close>, or there is no data iterator.\<close>

definition tl_at ::
  "('i \<Rightarrow> (bytes \<times> bytes) list \<Rightarrow> nat \<Rightarrow> bool) \<Rightarrow> ('d \<Rightarrow> (bytes \<times> bytes) list \<Rightarrow> nat \<Rightarrow> bool) \<Rightarrow>
   (bytes \<Rightarrow> (bytes \<times> bytes) list) \<Rightarrow> (bytes \<times> bytes) list \<Rightarrow> ('i, 'd) TwoLevelIterator \<Rightarrow> nat \<Rightarrow> nat \<Rightarrow> bool" where
  "tl_at ipos dpos blk ies it j m \<longleftrightarrow> ipos (index_iter it) ies j \<and>
     (if j < length ies
      then \<exists>d. data_iter it = Some d \<and> data_block_handle it = snd (ies ! j) \<and> dpos d (block_at blk ies j) m
      else data_iter it = None \<and> m = 0)"

definition tl_pos ::
  "('i \<Rightarrow> (bytes \<times> bytes) list \<Rightarrow> bool) \<Rightarrow> ('i \<Rightarrow> (bytes \<times> bytes) list \<Rightarrow> nat \<Rightarrow> bool) \<Rightarrow>
   ('d \<Rightarrow> (bytes \<times> bytes) list \<Rightarrow> bool) \<Rightarrow> ('d \<Rightarrow> (bytes \<times> bytes) list \<Rightarrow> nat \<Rightarrow> bool) \<Rightarrow> (bytes \<Rightarrow> 'd option) \<Rightarrow>
   ('i, 'd) TwoLevelIterator \<Rightarrow> (bytes \<times> bytes) list \<Rightarrow> nat \<Rightarrow> bool" where
  "tl_pos isrc ipos dsrc dpos bf it es i \<longleftrightarrow>
     (\<exists>blk ies j m. tl_table isrc dsrc bf blk ies it \<and> tl_at ipos dpos blk ies it j m \<and> es = blocks_from blk ies \<and>
        i = block_start blk ies j + m \<and> j \<le> length ies \<and> (j < length ies \<longrightarrow> m < length (block_at blk ies j)))"

lemma tl_posI:
  "tl_table isrc dsrc bf blk ies it \<Longrightarrow> tl_at ipos dpos blk ies it j m \<Longrightarrow> j \<le> length ies \<Longrightarrow>
   (j < length ies \<Longrightarrow> m < length (block_at blk ies j)) \<Longrightarrow>
   tl_pos isrc ipos dsrc dpos bf it (blocks_from blk ies) (block_start blk ies j + m)"
  unfolding tl_pos_def by blast

locale two_level =
  index: entry_source iops isrc ipos + data: entry_source dops dsrc dpos
  for iops :: "'i Iterator" and isrc ipos and dops :: "'d Iterator" and dsrc dpos +
  fixes bf :: "bytes \<Rightarrow> 'd option"
begin

lemma set_data_ok:
  assumes "tl_table isrc dsrc bf blk ies it"
  shows "TL_SetDataIterator dops d it = it\<lparr>data_iter := d\<rparr>"
  using assms data.status_ok by (auto simp: TL_SetDataIterator_def TL_SaveError_def tl_table_def split: option.splits)

text \<open>After the index was moved to the entry \<open>j\<close>, the data iterator belongs to its block.\<close>

lemma init_block:
  assumes t: "tl_table isrc dsrc bf blk ies it" and ii: "ipos ii ies j"
  shows "\<exists>it'. TL_InitDataBlock iops dops bf (it\<lparr>index_iter := ii\<rparr>) = Some it' \<and> tl_table isrc dsrc bf blk ies it' \<and>
    index_iter it' = ii \<and>
    (if j < length ies then \<exists>d. data_iter it' = Some d \<and> data_block_handle it' = snd (ies ! j) \<and> dsrc d (block_at blk ies j)
     else data_iter it' = None)"
proof (cases "j < length ies")
  case False
  have "\<not> op_Valid iops ii" using index.valid [OF ii] False by simp
  moreover have "tl_table isrc dsrc bf blk ies (it\<lparr>index_iter := ii\<rparr>)"
    using t index.pos_source [OF ii] by (simp add: tl_table_def)
  ultimately show ?thesis
    using False index.pos_source [OF ii] t set_data_ok [of blk ies "it\<lparr>index_iter := ii\<rparr>"]
    by (simp add: TL_InitDataBlock_def tl_table_def)
next
  case True
  have v: "op_Valid iops ii" "op_value iops ii = snd (ies ! j)"
    using index.valid [OF ii] index.entry [OF ii] True by (auto simp: prod_eq_iff)
  obtain d where d: "bf (snd (ies ! j)) = Some d" "dsrc d (block_at blk ies j)"
    using t True by (auto simp: tl_table_def opens_def)
  show ?thesis
  proof (cases "data_iter it \<noteq> None \<and> snd (ies ! j) = data_block_handle it")
    case same: True
    then show ?thesis
      using v t True index.pos_source [OF ii] by (auto simp: TL_InitDataBlock_def tl_table_def)
  next
    case other: False
    let ?it = "it\<lparr>index_iter := ii, data_block_handle := snd (ies ! j)\<rparr>"
    have "TL_SetDataIterator dops (Some d) ?it = ?it\<lparr>data_iter := Some d\<rparr>"
      using t data.status_ok by (auto simp: TL_SetDataIterator_def TL_SaveError_def tl_table_def split: option.splits)
    then show ?thesis
      using v t True d other index.pos_source [OF ii] by (auto simp: TL_InitDataBlock_def Let_def tl_table_def)
  qed
qed

lemma at_valid:
  assumes "tl_at ipos dpos blk ies it j m"
  shows "TL_Valid dops it \<longleftrightarrow> j < length ies \<and> m < length (block_at blk ies j)"
  using assms data.valid by (auto simp: tl_at_def TL_Valid_def split: if_splits)

lemma skip_empty:
  assumes "tl_table isrc dsrc bf blk ies it" "tl_at ipos dpos blk ies it j m" "j \<le> length ies"
  shows "\<exists>it'. TL_SkipEmptyDataBlocksForward iops dops bf it = Some it' \<and>
    tl_pos isrc ipos dsrc dpos bf it' (blocks_from blk ies) (block_start blk ies j + m)"
  using assms
proof (induction "length ies - j" arbitrary: it j m rule: less_induct)
  case less
  note v = at_valid [OF less(3)]
  consider (here) "j < length ies" "m < length (block_at blk ies j)"
    | (skip) "j < length ies" "\<not> m < length (block_at blk ies j)" | (past) "j = length ies"
    using less(4) by linarith
  then show ?case
  proof cases
    case here
    then have "TL_SkipEmptyDataBlocksForward iops dops bf it = Some it"
      using v by (subst TL_SkipEmptyDataBlocksForward.simps) simp
    then show ?thesis using tl_posI [OF less(2,3,4)] here by blast
  next
    case past
    have "\<not> op_Valid iops (index_iter it)" using index.valid less(3) past by (auto simp: tl_at_def)
    then have "TL_SkipEmptyDataBlocksForward iops dops bf it = Some (it\<lparr>data_iter := None\<rparr>)"
      using v past set_data_ok [OF less(2)] by (subst TL_SkipEmptyDataBlocksForward.simps) simp
    moreover have "it\<lparr>data_iter := None\<rparr> = it" using less(3) past by (simp add: tl_at_def)
    ultimately show ?thesis using tl_posI [OF less(2,3,4)] past by auto
  next
    case skip
    have ij: "ipos (index_iter it) ies j" using less(3) by (simp add: tl_at_def)
    obtain d where d: "data_iter it = Some d" "dpos d (block_at blk ies j) m" using less(3) skip by (auto simp: tl_at_def)
    have m: "m = length (block_at blk ies j)" using data.pos_source [OF d(2)] skip by simp
    obtain ii where ii: "op_Next iops (index_iter it) = Some ii" "ipos ii ies (Suc j)"
      using index.next_entry [OF ij skip(1)] by blast
    obtain it1 where it1: "TL_InitDataBlock iops dops bf (it\<lparr>index_iter := ii\<rparr>) = Some it1" "tl_table isrc dsrc bf blk ies it1"
        "index_iter it1 = ii"
        "if Suc j < length ies then \<exists>d. data_iter it1 = Some d \<and> data_block_handle it1 = snd (ies ! Suc j) \<and> dsrc d (block_at blk ies (Suc j))
         else data_iter it1 = None"
      using init_block [OF less(2) ii(2)] by blast
    have "\<exists>it2. TL_on_data (op_SeekToFirst dops) it1 = Some it2 \<and> tl_table isrc dsrc bf blk ies it2 \<and> tl_at ipos dpos blk ies it2 (Suc j) 0"
    proof (cases "Suc j < length ies")
      case True
      then obtain d1 where d1: "data_iter it1 = Some d1" "data_block_handle it1 = snd (ies ! Suc j)" "dsrc d1 (block_at blk ies (Suc j))"
        using it1(4) by auto
      obtain d2 where d2: "op_SeekToFirst dops d1 = Some d2" "dpos d2 (block_at blk ies (Suc j)) 0"
        using data.seek_first [OF d1(3)] by blast
      have "tl_table isrc dsrc bf blk ies (it1\<lparr>data_iter := Some d2\<rparr>)"
        using it1(2) d1(2) data.pos_source [OF d2(2)] by (simp add: tl_table_def)
      moreover have "tl_at ipos dpos blk ies (it1\<lparr>data_iter := Some d2\<rparr>) (Suc j) 0"
        using True ii(2) it1(3) d1(2) d2(2) by (simp add: tl_at_def)
      ultimately show ?thesis using d1(1) d2(1) by (simp add: TL_on_data_def)
    next
      case False
      then show ?thesis using it1 ii(2) by (simp add: TL_on_data_def tl_at_def)
    qed
    then obtain it2 where it2: "TL_on_data (op_SeekToFirst dops) it1 = Some it2" "tl_table isrc dsrc bf blk ies it2"
      "tl_at ipos dpos blk ies it2 (Suc j) 0" by blast
    have "op_Valid iops (index_iter it)" using index.valid [OF ij] skip by simp
    then have "TL_SkipEmptyDataBlocksForward iops dops bf it = TL_SkipEmptyDataBlocksForward iops dops bf it2"
      using v skip ii(1) it1(1) it2(1) by (subst TL_SkipEmptyDataBlocksForward.simps) simp
    then show ?thesis
      using less(1) [OF _ it2(2,3)] skip block_start_Suc [OF skip(1), of blk] m by (simp add: Suc_le_eq)
  qed
qed

text \<open>Moving the index and then the data iterator, as the three operations do.\<close>

lemma move:
  assumes t: "tl_table isrc dsrc bf blk ies it" and ii: "ipos ii ies j"
    and f: "\<And>d es. dsrc d es \<Longrightarrow> \<exists>d'. f d = Some d' \<and> dpos d' es (p es)"
  shows "\<exists>it'. (do { it1 \<leftarrow> TL_InitDataBlock iops dops bf (it\<lparr>index_iter := ii\<rparr>); it2 \<leftarrow> TL_on_data f it1;
      TL_SkipEmptyDataBlocksForward iops dops bf it2 }) = Some it' \<and>
    tl_pos isrc ipos dsrc dpos bf it' (blocks_from blk ies)
      (block_start blk ies j + (if j < length ies then p (block_at blk ies j) else 0))"
proof -
  have j: "j \<le> length ies" using index.pos_source [OF ii] by simp
  obtain it1 where it1: "TL_InitDataBlock iops dops bf (it\<lparr>index_iter := ii\<rparr>) = Some it1" "tl_table isrc dsrc bf blk ies it1"
      "index_iter it1 = ii"
      "if j < length ies then \<exists>d. data_iter it1 = Some d \<and> data_block_handle it1 = snd (ies ! j) \<and> dsrc d (block_at blk ies j)
       else data_iter it1 = None"
    using init_block [OF t ii] by blast
  show ?thesis
  proof (cases "j < length ies")
    case True
    then obtain d1 where d1: "data_iter it1 = Some d1" "data_block_handle it1 = snd (ies ! j)" "dsrc d1 (block_at blk ies j)"
      using it1(4) by auto
    obtain d2 where d2: "f d1 = Some d2" "dpos d2 (block_at blk ies j) (p (block_at blk ies j))" using f [OF d1(3)] by blast
    have "tl_table isrc dsrc bf blk ies (it1\<lparr>data_iter := Some d2\<rparr>)"
      using it1(2) d1(2) data.pos_source [OF d2(2)] by (simp add: tl_table_def)
    moreover have "tl_at ipos dpos blk ies (it1\<lparr>data_iter := Some d2\<rparr>) j (p (block_at blk ies j))"
      using True ii it1(3) d1(2) d2(2) by (simp add: tl_at_def)
    ultimately show ?thesis using skip_empty [OF _ _ j] d1(1) d2(1) it1(1) True by (simp add: TL_on_data_def)
  next
    case False
    then have at: "tl_at ipos dpos blk ies it1 j 0" "TL_on_data f it1 = Some it1"
      using it1 ii by (simp_all add: TL_on_data_def tl_at_def)
    then show ?thesis using skip_empty [OF it1(2) at(1) j] it1(1) False by simp
  qed
qed

end

sublocale two_level \<subseteq> table: entry_source "two_level_iterator iops dops bf" "tl_source isrc dsrc bf" "tl_pos isrc ipos dsrc dpos bf"
proof
  fix it es
  assume *: "tl_source isrc dsrc bf it es"
  then obtain blk ies where t: "tl_table isrc dsrc bf blk ies it" and es: "es = blocks_from blk ies" by (auto simp: tl_source_def)
  have i: "isrc (index_iter it) ies" and sep: "separated blk ies" using t by (simp_all add: tl_table_def)
  obtain ii where ii: "op_SeekToFirst iops (index_iter it) = Some ii" "ipos ii ies 0" using index.seek_first [OF i] by blast
  from move [OF t ii(2), of "op_SeekToFirst dops" "\<lambda>es. 0"] data.seek_first ii(1)
  show "\<exists>it'. op_SeekToFirst (two_level_iterator iops dops bf) it = Some it' \<and> tl_pos isrc ipos dsrc dpos bf it' es 0"
    by (simp add: two_level_iterator_def TL_SeekToFirst_def es)
  show "op_status (two_level_iterator iops dops bf) it = OK"
    using t index.status_ok [OF i] data.status_ok
    by (auto simp: two_level_iterator_def TL_status_def tl_table_def split: option.splits)
  fix k
  obtain ii where ii: "op_Seek iops k (index_iter it) = Some ii" "ipos ii ies (first_from k ies)" using index.seek [OF i] by blast
  from move [OF t ii(2), of "op_Seek dops k" "first_from k"] data.seek ii(1)
  show "\<exists>it'. op_Seek (two_level_iterator iops dops bf) k it = Some it' \<and> tl_pos isrc ipos dsrc dpos bf it' es (first_from k es)"
    by (simp add: two_level_iterator_def TL_Seek_def es seek_split [OF sep refl, of k])
next
  fix it es i
  assume "tl_pos isrc ipos dsrc dpos bf it es i"
  then obtain blk ies j m where t: "tl_table isrc dsrc bf blk ies it" and at: "tl_at ipos dpos blk ies it j m"
    and es: "es = blocks_from blk ies" and i: "i = block_start blk ies j + m" and j: "j \<le> length ies"
    and m: "j < length ies \<longrightarrow> m < length (block_at blk ies j)" by (auto simp: tl_pos_def)
  have past: "i = length es" if "\<not> j < length ies"
    using that j at block_start_length [of blk ies] by (simp add: i es tl_at_def)
  have inside: "i < length es \<longleftrightarrow> j < length ies"
    using past block_entry(1) [of j ies m blk] m i es by (cases "j < length ies") simp_all
  show "op_Valid (two_level_iterator iops dops bf) it \<longleftrightarrow> i < length es"
    using at_valid [OF at] m inside by (auto simp: two_level_iterator_def)
  show "tl_source isrc dsrc bf it es \<and> i \<le> length es" using t es past inside by (auto simp: tl_source_def)
  assume "i < length es"
  then have j: "j < length ies" and m: "m < length (block_at blk ies j)" using inside m by auto
  then obtain d where d: "data_iter it = Some d" "data_block_handle it = snd (ies ! j)" "dpos d (block_at blk ies j) m"
    using at by (auto simp: tl_at_def)
  show "(op_key (two_level_iterator iops dops bf) it, op_value (two_level_iterator iops dops bf) it) = es ! i"
    using data.entry [OF d(3) m] block_entry(2) [of j ies m blk] j m d(1)
    by (simp add: two_level_iterator_def TL_key_def TL_value_def es i)
  obtain d' where d': "op_Next dops d = Some d'" "dpos d' (block_at blk ies j) (Suc m)"
    using data.next_entry [OF d(3) m] by blast
  let ?it = "it\<lparr>data_iter := Some d'\<rparr>"
  have "tl_table isrc dsrc bf blk ies ?it" using t d(2) data.pos_source [OF d'(2)] by (simp add: tl_table_def)
  moreover have "tl_at ipos dpos blk ies ?it j (Suc m)" using at j d(2) d'(2) by (simp add: tl_at_def)
  ultimately show "\<exists>it'. op_Next (two_level_iterator iops dops bf) it = Some it' \<and> tl_pos isrc ipos dsrc dpos bf it' es (Suc i)"
    using skip_empty [of blk ies ?it j "Suc m"] j d(1) d'(1) at_valid [OF at] m
    by (simp add: two_level_iterator_def TL_Next_def TL_on_data_def es i)
qed

end
