(* ===== verification/SSTable.thy ===== *)
theory SSTable
  imports TableIterator
begin

text \<open>
  Sorted string tables: \<^verbatim>\<open>TableBuilder\<close> (\<^verbatim>\<open>core/lib/io/table_builder.cc\<close>) writes one, \<^verbatim>\<open>Table\<close>
  (\<^verbatim>\<open>core/lib/io/table.cc\<close>) opens, iterates and searches it. The block cache of \<^verbatim>\<open>Options\<close> is the
  null pointer.
\<close>

section \<open>TableBuilder\<close>

definition FindShortestSeparator :: "bytes \<Rightarrow> bytes \<Rightarrow> bytes" where
  "FindShortestSeparator start limit =
     (let diff_index = SharedLoop start limit 0 in
      if min (length start) (length limit) \<le> diff_index then start
      else
        (let diff_byte = start ! diff_index in
         if diff_byte < 0xff \<and> unat diff_byte + 1 < unat (limit ! diff_index)
         then take diff_index start @ [diff_byte + 1]
         else start))"

fun FindShortSuccessor :: "bytes \<Rightarrow> bytes" where
  "FindShortSuccessor [] = []"
| "FindShortSuccessor (b # key) = (if b \<noteq> 0xff then [b + 1] else b # FindShortSuccessor key)"

record 'f TableBuilder =
  tb_options :: Options
  tb_file :: 'f
  tb_offset :: u64
  tb_status :: status
  data_block :: BlockBuilder
  index_block :: BlockBuilder
  tb_last_key :: bytes
  num_entries :: int
  tb_closed :: bool
  pending_index_entry :: bool
  pending_handle :: BlockHandle

definition TableBuilder_new :: "Options \<Rightarrow> 'f \<Rightarrow> 'f TableBuilder" where
  "TableBuilder_new opt f =
     \<lparr>tb_options = opt, tb_file = f, tb_offset = 0, tb_status = OK, data_block = BlockBuilder_new,
      index_block = BlockBuilder_new, tb_last_key = [], num_entries = 0, tb_closed = False,
      pending_index_entry = False, pending_handle = BlockHandle_new\<rparr>"

definition index_block_options :: "'f TableBuilder \<Rightarrow> Options" where
  "index_block_options r = (tb_options r)\<lparr>block_restart_interval := 1\<rparr>"

definition compression_byte :: "TableCompression \<Rightarrow> byte" where
  "compression_byte t = (case t of kNoCompression \<Rightarrow> 0 | kSnappyCompression \<Rightarrow> 1)"

definition WriteRawBlock ::
  "'f WritableFile \<Rightarrow> bytes \<Rightarrow> TableCompression \<Rightarrow> 'f TableBuilder \<Rightarrow> BlockHandle \<times> 'f TableBuilder" where
  "WriteRawBlock ops block_contents type r =
     (let handle = \<lparr>bh_offset = tb_offset r, bh_size = of_nat (length block_contents)\<rparr>;
          (s1, f1) = op_Append ops block_contents (tb_file r)
      in if s1 \<noteq> OK then (handle, r\<lparr>tb_status := s1, tb_file := f1\<rparr>)
         else
           (let crc = Extend None 0 (Value None 0 block_contents) [compression_byte type];
                trailer = [compression_byte type] @ EncodeFixed32 kLittleEndian (Mask crc);
                (s2, f2) = op_Append ops trailer f1
            in (handle, r\<lparr>tb_status := s2, tb_file := f2,
                  tb_offset := (if s2 = OK then tb_offset r + of_nat (length block_contents + kBlockTrailerSize) else tb_offset r)\<rparr>)))"

text \<open>The handle, the block builder after its reset, and the table builder.\<close>

definition WriteBlock ::
  "Snappy \<Rightarrow> 'f WritableFile \<Rightarrow> BlockBuilder \<Rightarrow> 'f TableBuilder \<Rightarrow> (BlockHandle \<times> BlockBuilder \<times> 'f TableBuilder) option" where
  "WriteBlock z ops block r = do {
     (raw, block1) \<leftarrow> BlockBuilder_Finish block;
     let (block_contents, type) =
       (case compression (tb_options r) of
          kNoCompression \<Rightarrow> (raw, kNoCompression)
        | kSnappyCompression \<Rightarrow>
            (case Snappy_Compress z raw of
               Some compressed \<Rightarrow>
                 if length compressed < length raw - length raw div 8 then (compressed, kSnappyCompression)
                 else (raw, kNoCompression)
             | None \<Rightarrow> (raw, kNoCompression)));
         (handle, r1) = WriteRawBlock ops block_contents type r
     in Some (handle, BlockBuilder_Reset block1, r1) }"

definition TableBuilder_Flush :: "Snappy \<Rightarrow> 'f WritableFile \<Rightarrow> 'f TableBuilder \<Rightarrow> 'f TableBuilder option" where
  "TableBuilder_Flush z ops r =
     (if tb_status r \<noteq> OK then Some r
      else if BlockBuilder_empty (data_block r) then Some r
      else do {
        (handle, block, r1) \<leftarrow> WriteBlock z ops (data_block r) r;
        let r2 = r1\<lparr>data_block := block, pending_handle := handle\<rparr>
        in Some (if tb_status r2 = OK then r2\<lparr>pending_index_entry := True\<rparr> else r2) })"

definition add_pending_entry :: "bytes \<Rightarrow> 'f TableBuilder \<Rightarrow> 'f TableBuilder option" where
  "add_pending_entry separator r =
     (if pending_index_entry r then do {
        block \<leftarrow> BlockBuilder_Add (index_block_options r) separator (BlockHandle_EncodeTo (pending_handle r) []) (index_block r);
        Some (r\<lparr>tb_last_key := separator, index_block := block, pending_index_entry := False\<rparr>) }
      else Some r)"

definition TableBuilder_Add :: "Snappy \<Rightarrow> 'f WritableFile \<Rightarrow> bytes \<Rightarrow> bytes \<Rightarrow> 'f TableBuilder \<Rightarrow> 'f TableBuilder option" where
  "TableBuilder_Add z ops key value r =
     (if tb_status r \<noteq> OK then Some r
      else do {
        r1 \<leftarrow> (if 0 < num_entries r \<and> 2 * block_size (tb_options r) mod 2 ^ 64 \<le> length key + length value
               then TableBuilder_Flush z ops r else Some r);
        r2 \<leftarrow> add_pending_entry (FindShortestSeparator (tb_last_key r1) key) r1;
        block \<leftarrow> BlockBuilder_Add (tb_options r2) key value (data_block r2);
        let r3 = r2\<lparr>tb_last_key := key, num_entries := num_entries r2 + 1, data_block := block\<rparr>
        in if block_size (tb_options r3) \<le> CurrentSizeEstimate (data_block r3)
           then TableBuilder_Flush z ops r3 else Some r3 })"

text \<open>The three parts of \<^verbatim>\<open>Finish\<close> after the flush, each only if all is well so far.\<close>

definition write_metaindex :: "Snappy \<Rightarrow> 'f WritableFile \<Rightarrow> 'f TableBuilder \<Rightarrow> (BlockHandle \<times> 'f TableBuilder) option" where
  "write_metaindex z ops r =
     (if tb_status r \<noteq> OK then Some (BlockHandle_new, r)
      else do { (handle, _, r1) \<leftarrow> WriteBlock z ops BlockBuilder_new r; Some (handle, r1) })"

definition write_index :: "Snappy \<Rightarrow> 'f WritableFile \<Rightarrow> 'f TableBuilder \<Rightarrow> (BlockHandle \<times> 'f TableBuilder) option" where
  "write_index z ops r =
     (if tb_status r \<noteq> OK then Some (BlockHandle_new, r)
      else do {
        r1 \<leftarrow> add_pending_entry (FindShortSuccessor (tb_last_key r)) r;
        (handle, block, r2) \<leftarrow> WriteBlock z ops (index_block r1) r1;
        Some (handle, r2\<lparr>index_block := block\<rparr>) })"

definition write_footer :: "'f WritableFile \<Rightarrow> Footer \<Rightarrow> 'f TableBuilder \<Rightarrow> 'f TableBuilder" where
  "write_footer ops footer r =
     (if tb_status r \<noteq> OK then r
      else
        (let enc = Footer_EncodeTo footer []; (s, f) = op_Append ops enc (tb_file r)
         in r\<lparr>tb_status := s, tb_file := f,
              tb_offset := (if s = OK then tb_offset r + of_nat (length enc) else tb_offset r)\<rparr>))"

definition TableBuilder_Finish :: "Snappy \<Rightarrow> 'f WritableFile \<Rightarrow> 'f TableBuilder \<Rightarrow> (status \<times> 'f TableBuilder) option" where
  "TableBuilder_Finish z ops r = do {
     r1 \<leftarrow> TableBuilder_Flush z ops r;
     (mh, r2) \<leftarrow> write_metaindex z ops (r1\<lparr>tb_closed := True\<rparr>);
     (ih, r3) \<leftarrow> write_index z ops r2;
     let r4 = write_footer ops \<lparr>metaindex_handle = mh, index_handle = ih\<rparr> r3
     in Some (tb_status r4, r4) }"

definition TableBuilder_Abandon :: "'f TableBuilder \<Rightarrow> 'f TableBuilder" where
  "TableBuilder_Abandon r = r\<lparr>tb_closed := True\<rparr>"

definition NumEntries :: "'f TableBuilder \<Rightarrow> int" where
  "NumEntries r = num_entries r"

definition FileSize :: "'f TableBuilder \<Rightarrow> u64" where
  "FileSize r = tb_offset r"

section \<open>Table\<close>

record Table =
  t_file :: bytes
  t_metaindex_handle :: BlockHandle
  t_index_block :: Block

definition Table_Open :: "Snappy \<Rightarrow> bool \<Rightarrow> bytes \<Rightarrow> nat \<Rightarrow> Table result" where
  "Table_Open z in_place file sz =
     (if sz < kEncodedLength then Inl (DataLoss ''file is too short to be an sstable'')
      else
        (case RandomAccessFile_Read file (int (sz - kEncodedLength)) (int kEncodedLength) of
           (Some e, _) \<Rightarrow> Inl e
         | (None, footer_input) \<Rightarrow>
             (case Footer_DecodeFrom footer_input of
                Inl e \<Rightarrow> Inl e
              | Inr (footer, _) \<Rightarrow>
                  (case ReadBlock z in_place file (index_handle footer) of
                     Inl e \<Rightarrow> Inl e
                   | Inr contents \<Rightarrow>
                       (case Block_new contents of
                          None \<Rightarrow> Inl MemFault
                        | Some b \<Rightarrow>
                            Inr \<lparr>t_file = file, t_metaindex_handle = metaindex_handle footer, t_index_block = b\<rparr>)))))"

text \<open>
  \<^verbatim>\<open>BlockReader\<close> of a table whose \<^verbatim>\<open>options.block_cache\<close> is null, which is the default: every
  block is read from the file.
\<close>

definition BlockReader :: "Snappy \<Rightarrow> bool \<Rightarrow> Table \<Rightarrow> bytes \<Rightarrow> BlockIterator option" where
  "BlockReader z in_place t index_value =
     (case BlockHandle_DecodeFrom index_value of
        Inl e \<Rightarrow> Some (EmptyIterator (Some e))
      | Inr (handle, _) \<Rightarrow>
          (case ReadBlock z in_place (t_file t) handle of
             Inl e \<Rightarrow> Some (EmptyIterator (Some e))
           | Inr contents \<Rightarrow> Block_new contents \<bind> Block_NewIterator))"

type_synonym TableIterator = "(BlockIterator, BlockIterator) TwoLevelIterator"

definition Table_NewIterator :: "Table \<Rightarrow> TableIterator option" where
  "Table_NewIterator t = map_option TL_new (Block_NewIterator (t_index_block t))"

definition table_iterator :: "Snappy \<Rightarrow> bool \<Rightarrow> Table \<Rightarrow> TableIterator Iterator" where
  "table_iterator z in_place t = two_level_iterator block_iterator block_iterator (BlockReader z in_place t)"

text \<open>The status of \<^verbatim>\<open>InternalGet\<close> and the entry that it passes to \<^verbatim>\<open>saver\<close>, if any.\<close>

definition InternalGet :: "Snappy \<Rightarrow> bool \<Rightarrow> Table \<Rightarrow> bytes \<Rightarrow> (status \<times> (bytes \<times> bytes) option) option" where
  "InternalGet z in_place t k = do {
     iiter0 \<leftarrow> Block_NewIterator (t_index_block t);
     iiter \<leftarrow> BI_Seek k iiter0;
     if BI_Valid iiter then do {
       block_iter0 \<leftarrow> BlockReader z in_place t (BI_value iiter);
       block_iter \<leftarrow> BI_Seek k block_iter0;
       let saved = (if BI_Valid block_iter then Some (BI_key block_iter, BI_value block_iter) else None);
           s = BI_status block_iter
       in Some (if s = OK then BI_status iiter else s, saved) }
     else Some (BI_status iiter, None) }"

definition ApproximateOffsetOf :: "Table \<Rightarrow> bytes \<Rightarrow> u64 option" where
  "ApproximateOffsetOf t key = do {
     index_iter0 \<leftarrow> Block_NewIterator (t_index_block t);
     index_iter \<leftarrow> BI_Seek key index_iter0;
     if BI_Valid index_iter then
       (case BlockHandle_DecodeFrom (BI_value index_iter) of
          Inr (handle, _) \<Rightarrow> Some (bh_offset handle)
        | Inl e \<Rightarrow> Some (bh_offset (t_metaindex_handle t)))
     else Some (bh_offset (t_metaindex_handle t)) }"

interpretation table_iter: two_level block_iterator block_source block_pos block_iterator block_source block_pos "BlockReader z in_place t"
  for z in_place t
  by unfold_locales

end
