(* ===== verification/TableFile.thy ===== *)
theory TableFile
  imports SSTable
begin

text \<open>
  Table files as sequences of stored blocks: a stored block is read back through its handle,
  and the index separates the blocks.
\<close>

section \<open>Stored blocks\<close>

lemma ReadBlock_at:
  assumes eq: "file = pre @ stored_block c t @ post"
    and h: "unat (bh_offset h) = length pre" "unat (bh_size h) = length c" and n: "length c + 5 < 2 ^ 64"
  shows "ReadBlock z in_place file h =
    (if t = 0 then Inr \<lparr>bc_data = c, cacheable = \<not> in_place, heap_allocated = \<not> in_place\<rparr>
     else if t = 1 then
       (case Snappy_GetUncompressedLength z c of
          None \<Rightarrow> Inl (DataLoss ''corrupted compressed block contents'')
        | Some ulength \<Rightarrow>
            (case Snappy_Uncompress z c of
               None \<Rightarrow> Inl (DataLoss ''corrupted compressed block contents'')
             | Some ubuf \<Rightarrow> if length ubuf \<noteq> ulength then Inl MemFault
                 else Inr \<lparr>bc_data = ubuf, cacheable = True, heap_allocated = True\<rparr>))
     else Inl (DataLoss ''bad block type''))"
proof -
  let ?crc = "Mask (Extend None 0 (Value None 0 c) [t])"
  have len: "length (stored_block c t) = length c + 5" by (simp add: stored_block_def)
  have "nat (int (length c + 5)) = length c + 5" "nat (int (length pre)) = length pre" by linarith+
  then have read: "RandomAccessFile_Read file (int (length pre)) (int (length c + 5)) = (OK, stored_block c t)"
    using len by (simp add: RandomAccessFile_Read_def Let_def eq)
  have crc: "Value None 0 (c @ [t]) = Extend None 0 (Value None 0 c) [t]"
    by (simp add: Value_def Extend_None crc_extend_append)
  have parts: "drop (length c + 1) (stored_block c t) = EncodeFixed32 kLittleEndian ?crc @ []"
      "take (length c + 1) (stored_block c t) = c @ [t]" "stored_block c t ! length c = t" "take (length c) (stored_block c t) = c"
    by (simp_all add: stored_block_def)
  have k: "kBlockTrailerSize = 5" "\<not> 5 > (2 ^ 64 - 1) - length c" using n by (simp_all add: kBlockTrailerSize_def)
  show ?thesis
    unfolding ReadBlock_def h k(1) Let_def read prod.case option.case len parts DecodeFixed32_EncodeFixed32 crc Unmask_Mask
    using k(2) by simp
qed

type_synonym stored = "entry list \<times> nat list \<times> bytes \<times> byte"

fun stored_bytes :: "stored \<Rightarrow> bytes" where
  "stored_bytes (xs, rs, c, t) = stored_block c t"

fun stored_entries :: "stored \<Rightarrow> (bytes \<times> bytes) list" where
  "stored_entries (xs, rs, c, t) = contents_of xs"

fun stored_size :: "stored \<Rightarrow> nat" where
  "stored_size (xs, rs, c, t) = length c"

text \<open>The contents of a stored block are a laid out block, as it is or compressed.\<close>

fun stored_ok :: "Snappy \<Rightarrow> stored \<Rightarrow> bool" where
  "stored_ok z (xs, rs, c, t) \<longleftrightarrow> block_layout xs rs \<and> sorted_entries (contents_of xs) \<and> length c < 2 ^ 32 \<and>
     (t = 0 \<and> c = enc_block xs rs \<or>
      t = 1 \<and> Snappy_GetUncompressedLength z c = Some (length (enc_block xs rs)) \<and> Snappy_Uncompress z c = Some (enc_block xs rs))"

definition file_of :: "stored list \<Rightarrow> bytes" where
  "file_of fs = concat (map stored_bytes fs)"

definition handle_of :: "stored list \<Rightarrow> nat \<Rightarrow> BlockHandle" where
  "handle_of fs j = \<lparr>bh_offset = of_nat (length (file_of (take j fs))), bh_size = of_nat (stored_size (fs ! j))\<rparr>"

definition handle_bytes :: "stored list \<Rightarrow> nat \<Rightarrow> bytes" where
  "handle_bytes fs j = BlockHandle_EncodeTo (handle_of fs j) []"

lemma length_stored_bytes: "length (stored_bytes s) = stored_size s + 5"
  by (cases s) (simp add: stored_block_def)

lemma file_of_split: "j < length fs \<Longrightarrow> file_of fs = file_of (take j fs) @ stored_bytes (fs ! j) @ file_of (drop (Suc j) fs)"
  by (subst id_take_nth_drop [of j fs]) (simp_all add: file_of_def)

lemma ReadBlock_stored:
  assumes "j < length fs" "stored_ok z (fs ! j)" "length (file_of fs) < 2 ^ 64"
  shows "\<exists>c. ReadBlock z in_place (file_of fs @ post) (handle_of fs j) = Inr c \<and>
    (\<exists>xs rs. block_layout xs rs \<and> bc_data c = enc_block xs rs \<and> contents_of xs = stored_entries (fs ! j) \<and> sorted_entries (contents_of xs))"
proof -
  obtain xs rs c t where s: "fs ! j = (xs, rs, c, t)" by (cases "fs ! j")
  have eq: "file_of fs @ post = file_of (take j fs) @ stored_block c t @ (file_of (drop (Suc j) fs) @ post)"
    using file_of_split [OF assms(1)] by (simp add: s)
  have "length (file_of (take j fs)) + length c + 5 \<le> length (file_of fs)"
    using arg_cong [OF file_of_split [OF assms(1)], of length] by (simp add: s stored_block_def)
  then have small: "length (file_of (take j fs)) < 2 ^ 64" "length c + 5 < 2 ^ 64" using assms(3) by simp_all
  have h: "unat (bh_offset (handle_of fs j)) = length (file_of (take j fs))" "unat (bh_size (handle_of fs j)) = length c"
    using small by (simp_all add: handle_of_def s unat_of_nat_small)
  have ok: "block_layout xs rs" "sorted_entries (contents_of xs)"
      "t = 0 \<and> c = enc_block xs rs \<or>
       t = 1 \<and> Snappy_GetUncompressedLength z c = Some (length (enc_block xs rs)) \<and> Snappy_Uncompress z c = Some (enc_block xs rs)"
    using assms(2) by (simp_all add: s)
  from ok(3) show ?thesis
    unfolding ReadBlock_at [OF eq h small(2)] using ok(1,2) by (elim disjE) (auto simp: s)
qed

lemma BlockReader_stored:
  assumes "j < length fs" "stored_ok z (fs ! j)" "length (file_of fs) < 2 ^ 64" "t_file t = file_of fs @ post"
  shows "\<exists>it. BlockReader z in_place t (handle_bytes fs j) = Some it \<and> block_source it (stored_entries (fs ! j))"
proof -
  obtain c xs rs where c: "ReadBlock z in_place (file_of fs @ post) (handle_of fs j) = Inr c" "block_layout xs rs"
      "bc_data c = enc_block xs rs" "contents_of xs = stored_entries (fs ! j)" "sorted_entries (contents_of xs)"
    using ReadBlock_stored [OF assms(1-3), of in_place post] by blast
  have "BlockHandle_DecodeFrom (handle_bytes fs j) = Inr (handle_of fs j, [])"
    using BlockHandle_roundtrip [of "handle_of fs j" "[]"] by (simp add: handle_bytes_def)
  then have "BlockReader z in_place t (handle_bytes fs j) = (Block_new c \<bind> Block_NewIterator)"
    by (simp add: BlockReader_def assms(4) c(1))
  with NewIterator_layout [OF c(2,3,5)] c(4) show ?thesis by simp
qed

text \<open>Handles of different blocks differ.\<close>

lemma handle_offset_less:
  assumes "i < j" "j < length fs" "length (file_of fs) < 2 ^ 64"
  shows "unat (bh_offset (handle_of fs i)) < unat (bh_offset (handle_of fs j))"
proof -
  have le: "length (file_of (take k fs)) \<le> length (file_of fs)" for k
  proof -
    have "file_of fs = file_of (take k fs) @ file_of (drop k fs)" by (simp add: file_of_def flip: concat_append map_append)
    then show ?thesis by simp
  qed
  have "take j fs = take i (take j fs) @ take j fs ! i # drop (Suc i) (take j fs)"
    by (rule id_take_nth_drop) (use assms in simp)
  moreover have "take i (take j fs) = take i fs" "take j fs ! i = fs ! i" using assms by (simp_all add: min_def)
  ultimately obtain rest where r: "take j fs = take i fs @ fs ! i # rest" by metis
  have "file_of (take j fs) = file_of (take i fs) @ stored_bytes (fs ! i) @ file_of rest"
    unfolding r by (simp add: file_of_def)
  then have "length (file_of (take i fs)) + 5 \<le> length (file_of (take j fs))"
    using length_stored_bytes [of "fs ! i"] by simp
  then show ?thesis
    using le [of i] le [of j] assms(3) by (simp add: handle_of_def unat_of_nat_small)
qed

lemma handle_bytes_inj:
  assumes "i < length fs" "j < length fs" "length (file_of fs) < 2 ^ 64" "handle_bytes fs i = handle_bytes fs j"
  shows "i = j"
proof -
  have "handle_of fs i = handle_of fs j"
    using arg_cong [OF assms(4), of BlockHandle_DecodeFrom]
      BlockHandle_roundtrip [of "handle_of fs i" "[]"] BlockHandle_roundtrip [of "handle_of fs j" "[]"]
    by (simp add: handle_bytes_def)
  then show ?thesis
    using handle_offset_less [of i j fs] handle_offset_less [of j i fs] assms(1-3) by (metis less_irrefl nat_neq_iff)
qed

section \<open>Opened tables\<close>

definition blk_of :: "stored list \<Rightarrow> bytes \<Rightarrow> (bytes \<times> bytes) list" where
  "blk_of fs h =
     (case map_of (map (\<lambda>j. (handle_bytes fs j, stored_entries (fs ! j))) [0..<length fs]) h of
        None \<Rightarrow> [] | Some es \<Rightarrow> es)"

lemma blk_of_handle:
  assumes "j < length fs" "length (file_of fs) < 2 ^ 64"
  shows "blk_of fs (handle_bytes fs j) = stored_entries (fs ! j)"
proof -
  let ?m = "map (\<lambda>j. (handle_bytes fs j, stored_entries (fs ! j))) [0..<length fs]"
  have "distinct (map fst ?m)" using handle_bytes_inj [OF _ _ assms(2)] by (auto simp: comp_def distinct_map inj_on_def)
  moreover have "(handle_bytes fs j, stored_entries (fs ! j)) \<in> set ?m" using assms(1) by auto
  ultimately have "map_of ?m (handle_bytes fs j) = Some (stored_entries (fs ! j))" by (rule map_of_is_SomeI)
  then show ?thesis by (simp add: blk_of_def)
qed

text \<open>
  An open table on a file with the blocks \<open>fs\<close>: its index lists the handles of the blocks in
  order, with separators.
\<close>

definition table_on :: "Snappy \<Rightarrow> stored list \<Rightarrow> (bytes \<times> bytes) list \<Rightarrow> Table \<Rightarrow> bool" where
  "table_on z fs ies t \<longleftrightarrow> (\<forall>s \<in> set fs. stored_ok z s) \<and> length (file_of fs) < 2 ^ 64 \<and>
     (\<exists>post. t_file t = file_of fs @ post) \<and>
     (\<exists>it. Block_NewIterator (t_index_block t) = Some it \<and> block_source it ies) \<and>
     map snd ies = map (handle_bytes fs) [0..<length fs] \<and> separated (blk_of fs) ies"

abbreviation table_entries :: "stored list \<Rightarrow> (bytes \<times> bytes) list" where
  "table_entries fs \<equiv> concat (map stored_entries fs)"

lemma table_on_index:
  assumes "table_on z fs ies t"
  shows "length ies = length fs" "j < length fs \<Longrightarrow> snd (ies ! j) = handle_bytes fs j"
    "j < length fs \<Longrightarrow> block_at (blk_of fs) ies j = stored_entries (fs ! j)"
proof -
  have m: "map snd ies = map (handle_bytes fs) [0..<length fs]" "length (file_of fs) < 2 ^ 64"
    using assms by (simp_all add: table_on_def)
  show len: "length ies = length fs" using arg_cong [OF m(1), of length] by simp
  assume j: "j < length fs"
  show snd: "snd (ies ! j) = handle_bytes fs j"
    using arg_cong [OF m(1), of "\<lambda>xs. xs ! j"] j len by simp
  show "block_at (blk_of fs) ies j = stored_entries (fs ! j)" unfolding snd by (rule blk_of_handle [OF j m(2)])
qed

lemma table_on_entries:
  assumes "table_on z fs ies t"
  shows "blocks_from (blk_of fs) ies = table_entries fs"
proof -
  have "map (\<lambda>e. blk_of fs (snd e)) ies = map stored_entries fs"
    by (rule nth_equalityI) (simp_all add: table_on_index(1,3) [OF assms])
  then show ?thesis by (simp add: blocks_from_def)
qed

lemma table_opens:
  assumes "table_on z fs ies t"
  shows "opens block_source (BlockReader z in_place t) (blk_of fs) ies"
proof -
  obtain post where post: "t_file t = file_of fs @ post" using assms by (auto simp: table_on_def)
  have "\<exists>d. BlockReader z in_place t (snd (ies ! j)) = Some d \<and> block_source d (block_at (blk_of fs) ies j)" if "j < length ies" for j
  proof -
    have j: "j < length fs" using that table_on_index(1) [OF assms] by simp
    have "stored_ok z (fs ! j)" "length (file_of fs) < 2 ^ 64" using assms j by (simp_all add: table_on_def)
    from BlockReader_stored [OF j this post, of in_place] show ?thesis
      using table_on_index(2,3) [OF assms j] by simp
  qed
  then show ?thesis by (simp add: opens_def)
qed

lemma table_iterates:
  assumes "table_on z fs ies t"
  shows "\<exists>it. Table_NewIterator t = Some it \<and> tl_source block_source block_source (BlockReader z in_place t) it (table_entries fs)"
proof -
  obtain it where it: "Block_NewIterator (t_index_block t) = Some it" "block_source it ies"
    using assms by (auto simp: table_on_def)
  have "tl_table block_source block_source (BlockReader z in_place t) (blk_of fs) ies (TL_new it)"
    using it(2) table_opens [OF assms] assms by (simp add: tl_table_def TL_new_def table_on_def)
  then have "tl_source block_source block_source (BlockReader z in_place t) (TL_new it) (table_entries fs)"
    using table_on_entries [OF assms, symmetric] unfolding tl_source_def by blast
  then show ?thesis using it(1) by (simp add: Table_NewIterator_def)
qed

text \<open>\<^verbatim>\<open>InternalGet\<close> passes on the entry with the key, if there is one, and otherwise at most a later entry.\<close>

lemma seek_key:
  assumes "sorted_entries es" "i < length es" "fst (es ! i) = k"
  shows "first_from k es = i"
proof (rule first_fromI)
  fix j assume "j < i"
  then show "fst (es ! j) < k"
    using sorted_wrt_nth_less [of "(<)" "map fst es" j i] assms by (simp add: sorted_entries_def)
qed (use assms in auto)

lemma InternalGet_eq:
  assumes t: "table_on z fs ies t" and j_def: "j = first_from k ies"
  shows "InternalGet z in_place t k = Some (OK,
    if j < length fs then
      (let b = stored_entries (fs ! j); m = first_from k b in if m < length b then Some (b ! m) else None)
    else None)"
proof -
  obtain it where it: "Block_NewIterator (t_index_block t) = Some it" "block_source it ies"
    using t by (auto simp: table_on_def)
  obtain it1 where it1: "BI_Seek k it = Some it1" "block_pos it1 ies j"
    using block_iter.seek [OF it(2), of k] by (auto simp: block_iterator_def j_def)
  have s1: "BI_status it1 = OK" "BI_Valid it1 \<longleftrightarrow> j < length ies"
    using block_iter.status_ok block_iter.pos_source [OF it1(2)] block_iter.valid [OF it1(2)] by (auto simp: block_iterator_def)
  note ix = table_on_index [OF t]
  show ?thesis
  proof (cases "j < length fs")
    case True
    then have v: "BI_value it1 = snd (ies ! j)"
      using block_iter.entry [OF it1(2)] ix(1) by (auto simp: block_iterator_def prod_eq_iff)
    obtain d where d: "BlockReader z in_place t (snd (ies ! j)) = Some d" "block_source d (stored_entries (fs ! j))"
      using table_opens [OF t, of in_place] True ix(1) ix(3) [OF True] by (auto simp: opens_def)
    let ?m = "first_from k (stored_entries (fs ! j))"
    obtain d1 where d1: "BI_Seek k d = Some d1" "block_pos d1 (stored_entries (fs ! j)) ?m"
      using block_iter.seek [OF d(2), of k] by (auto simp: block_iterator_def)
    have s2: "BI_status d1 = OK" "BI_Valid d1 \<longleftrightarrow> ?m < length (stored_entries (fs ! j))"
      using block_iter.status_ok block_iter.pos_source [OF d1(2)] block_iter.valid [OF d1(2)] by (auto simp: block_iterator_def)
    have "(BI_key d1, BI_value d1) = stored_entries (fs ! j) ! ?m" if "?m < length (stored_entries (fs ! j))"
      using block_iter.entry [OF d1(2) that] by (simp add: block_iterator_def)
    then show ?thesis
      using True it(1) it1(1) s1 v d(1) d1(1) s2 ix(1) by (simp add: InternalGet_def Let_def)
  next
    case False
    then show ?thesis using it(1) it1(1) s1 ix(1) by (simp add: InternalGet_def)
  qed
qed

lemma InternalGet_spec:
  assumes t: "table_on z fs ies t"
  shows "\<exists>r. InternalGet z in_place t k = Some (OK, r) \<and>
    (\<forall>v. (k, v) \<in> set (table_entries fs) \<longrightarrow> r = Some (k, v)) \<and>
    (\<forall>e. r = Some e \<longrightarrow> e \<in> set (table_entries fs) \<and> k \<le> fst e)"
proof -
  define j where "j = first_from k ies"
  define r where "r = (if j < length fs then
      (let b = stored_entries (fs ! j); m = first_from k b in if m < length b then Some (b ! m) else None)
    else None)"
  note ix = table_on_index [OF t]
  have get: "InternalGet z in_place t k = Some (OK, r)" using InternalGet_eq [OF t j_def] by (simp add: r_def)
  have sep: "separated (blk_of fs) ies" using t by (simp add: table_on_def)
  have "r = Some (k, v)" if kv: "(k, v) \<in> set (table_entries fs)" for v
  proof -
    obtain s where s: "s \<in> set fs" "(k, v) \<in> set (stored_entries s)" using kv by auto
    obtain i p where i: "i < length fs" "fs ! i = s" and p: "p < length (stored_entries s)" "stored_entries s ! p = (k, v)"
      using s by (meson in_set_conv_nth)
    have "j = i"
      unfolding j_def
    proof (rule first_fromI)
      show "i \<le> length ies" using i ix(1) by simp
      fix i' assume "i' < i"
      then have "\<forall>e \<in> set (block_at (blk_of fs) ies i). fst (ies ! i') < fst e" using sep i ix(1) by (simp add: separated_def)
      then show "fst (ies ! i') < k" using ix(3) [OF i(1)] i s by force
    next
      have "\<forall>e \<in> set (block_at (blk_of fs) ies i). fst e \<le> fst (ies ! i)" using sep i ix(1) by (simp add: separated_def)
      then show "\<not> fst (ies ! i) < k" using ix(3) [OF i(1)] i s by force
    qed
    moreover have "sorted_entries (stored_entries s)" using t s(1) by (cases s) (auto simp: table_on_def)
    then have "first_from k (stored_entries s) = p" using seek_key p by fastforce
    ultimately show ?thesis using i p by (simp add: r_def)
  qed
  moreover have "e \<in> set (table_entries fs) \<and> k \<le> fst e" if "r = Some e" for e
  proof -
    let ?b = "stored_entries (fs ! j)"
    have m: "j < length fs" "first_from k ?b < length ?b" "e = ?b ! first_from k ?b"
      using that by (auto simp: r_def Let_def split: if_splits)
    then have "\<not> fst e < k" using nth_length_takeWhile [of "\<lambda>e. fst e < k" ?b] by (simp add: first_from_def)
    moreover have "e \<in> set ?b" using m by simp
    ultimately show ?thesis using m(1) by (auto simp: not_less)
  qed
  ultimately show ?thesis using get by blast
qed

end
