(* ===== verification/TableBuild.thy ===== *)
theory TableBuild
  imports TableFile
begin

text \<open>
  What \<^verbatim>\<open>TableBuilder\<close> has written after a sequence of calls on a file of the POSIX file system:
  the stored blocks of the entries added so far, with an index that separates them, or an
  error because the disk is full.
\<close>

section \<open>Separators\<close>

lemma less_at: "x < y \<Longrightarrow> p @ x # xs < p @ (y :: byte) # ys"
  by (simp add: list_less_def lexord_append_left_rightI)

lemma SharedLoop_stops:
  "SharedLoop a b s < min (length a) (length b) \<Longrightarrow> a ! SharedLoop a b s \<noteq> b ! SharedLoop a b s"
proof (induction a b s rule: SharedLoop.induct)
  case (1 a b s)
  then show ?case by (subst (1 2) SharedLoop.simps) (auto simp: SharedLoop.simps [of a b s] split: if_splits)
qed

lemma split_at: "d < length a \<Longrightarrow> a = take d a @ a ! d # drop (Suc d) a"
  by (rule id_take_nth_drop)

lemma FindShortestSeparator_between:
  assumes "a < b"
  shows "a \<le> FindShortestSeparator a b \<and> FindShortestSeparator a b < b \<and> length (FindShortestSeparator a b) \<le> length a"
proof -
  define d where "d = SharedLoop a b 0"
  have d: "d \<le> length a" "d \<le> length b" "take d a = take d b" using SharedLoop_prefix [of 0 a b] by (simp_all add: d_def)
  show ?thesis
  proof (cases "d < min (length a) (length b) \<and> a ! d < 0xff \<and> unat (a ! d) + 1 < unat (b ! d)")
    case True
    then have sep: "FindShortestSeparator a b = take d a @ [a ! d + 1]"
      by (auto simp: FindShortestSeparator_def Let_def simp flip: d_def)
    have "unat (a ! d) < 255" using True by (simp add: word_less_nat_alt)
    then have u: "unat (a ! d + 1) = unat (a ! d) + 1" by (simp add: unat_word_ariths)
    have da: "d < length a" "d < length b" using True by simp_all
    have "take d a @ a ! d # drop (Suc d) a < take d a @ (a ! d + 1) # []"
      by (rule less_at) (simp add: word_less_nat_alt u)
    moreover have "take d b @ (a ! d + 1) # [] < take d b @ b ! d # drop (Suc d) b"
      by (rule less_at) (use True in \<open>simp add: word_less_nat_alt u\<close>)
    ultimately have "a < take d a @ [a ! d + 1]" "take d a @ [a ! d + 1] < b"
      using split_at [OF da(1)] split_at [OF da(2)] d(3) by simp_all
    then show ?thesis using da by (simp add: sep)
  next
    case False
    then have "FindShortestSeparator a b = a"
      by (auto simp: FindShortestSeparator_def Let_def simp flip: d_def)
    then show ?thesis using assms by simp
  qed
qed

lemma FindShortSuccessor_above: "key \<le> FindShortSuccessor key \<and> length (FindShortSuccessor key) \<le> length key"
proof (induction key)
  case (Cons b key)
  show ?case
  proof (cases "b = 0xff")
    case False
    then have "unat b \<noteq> 255"  by (simp add: word_eq_iff_unsigned [where ?'a = nat])
    then have "unat b < 255" using unsigned_less [of b, where ?'a = nat] by simp
    then have "b < b + 1" by (simp add: word_less_nat_alt unat_word_ariths)
    then show ?thesis using False by (simp add: Cons_less_Cons le_less)
  qed (use Cons in simp)
qed simp

section \<open>Writing blocks\<close>

definition tb_failed :: "PosixWritableFile TableBuilder \<Rightarrow> bool" where
  "tb_failed r \<longleftrightarrow> tb_status r = Some (IOError ''fwrite'') \<and> pwf_room (tb_file r) = 0"

definition tb_written :: "PosixWritableFile TableBuilder \<Rightarrow> bytes \<Rightarrow> PosixWritableFile TableBuilder \<Rightarrow> bool" where
  "tb_written r new r' \<longleftrightarrow> tb_status r' = OK \<and> pwf_open (tb_file r') \<and> pwf_data (tb_file r') = pwf_data (tb_file r) @ new \<and>
     tb_offset r' = tb_offset r + of_nat (length new)"

lemma Posix_Append_cases:
  assumes "pwf_open f"
  shows "(\<exists>f'. Posix_Append d f = (Some (IOError ''fwrite''), f') \<and> pwf_room f' = 0) \<or>
    (\<exists>f'. Posix_Append d f = (OK, f') \<and> pwf_open f' \<and> pwf_data f' = pwf_data f @ d)"
  using assms by (auto simp: Posix_Append_def Let_def min_def)

lemma WriteRawBlock_cases:
  assumes "pwf_open (tb_file r)"
  shows "\<exists>r'. WriteRawBlock posix_ops c type r = (\<lparr>bh_offset = tb_offset r, bh_size = of_nat (length c)\<rparr>, r') \<and>
    (\<exists>s f off. r' = r\<lparr>tb_status := s, tb_file := f, tb_offset := off\<rparr>) \<and>
    (tb_failed r' \<or> tb_written r (stored_block c (compression_byte type)) r')"
proof -
  let ?t = "[compression_byte type] @ EncodeFixed32 kLittleEndian (Mask (Extend None 0 (Value None 0 c) [compression_byte type]))"
  have op: "op_Append posix_ops = Posix_Append" by (simp add: posix_ops_def)
  consider (fail1) f1 where "Posix_Append c (tb_file r) = (Some (IOError ''fwrite''), f1)" "pwf_room f1 = 0"
    | (ok) f1 where "Posix_Append c (tb_file r) = (OK, f1)" "pwf_open f1" "pwf_data f1 = pwf_data (tb_file r) @ c"
    using Posix_Append_cases [OF assms, of c] by blast
  then show ?thesis
  proof cases
    case fail1
    then show ?thesis
      by (auto simp: WriteRawBlock_def op tb_failed_def intro!: exI [of _ "Some (IOError ''fwrite'')"] exI [of _ f1] exI [of _ "tb_offset r"])
  next
    case ok
    consider (fail2) f2 where "Posix_Append ?t f1 = (Some (IOError ''fwrite''), f2)" "pwf_room f2 = 0"
      | (ok2) f2 where "Posix_Append ?t f1 = (OK, f2)" "pwf_open f2" "pwf_data f2 = pwf_data f1 @ ?t"
      using Posix_Append_cases [OF ok(2), of ?t] by blast
    then show ?thesis
    proof cases
      case fail2
      then show ?thesis
        using ok by (auto simp: WriteRawBlock_def op tb_failed_def intro!: exI [of _ "Some (IOError ''fwrite'')"] exI [of _ f2] exI [of _ "tb_offset r"])
    next
      case ok2
      have "kBlockTrailerSize = length ?t" by (simp add: kBlockTrailerSize_def)
      then have "tb_written r (stored_block c (compression_byte type))
          (r\<lparr>tb_status := OK, tb_file := f2, tb_offset := tb_offset r + of_nat (length c + kBlockTrailerSize)\<rparr>)"
        using ok ok2 by (simp add: tb_written_def stored_block_def)
      moreover have "WriteRawBlock posix_ops c type r = (\<lparr>bh_offset = tb_offset r, bh_size = of_nat (length c)\<rparr>,
          r\<lparr>tb_status := OK, tb_file := f2, tb_offset := tb_offset r + of_nat (length c + kBlockTrailerSize)\<rparr>)"
        using ok ok2 by (simp add: WriteRawBlock_def op)
      ultimately show ?thesis by blast
    qed
  qed
qed

lemma WriteBlock_cases:
  assumes z: "snappy_ok z" and inv: "bb_inv xs rs b" and small: "length (enc_block xs rs) < 2 ^ 32"
    and sorted: "sorted_entries (contents_of xs)" and opened: "pwf_open (tb_file r)"
  shows "\<exists>c t b' r'. WriteBlock z posix_ops b r = Some (\<lparr>bh_offset = tb_offset r, bh_size = of_nat (length c)\<rparr>, b', r') \<and>
    bb_inv [] [0] b' \<and> (\<exists>s f off. r' = r\<lparr>tb_status := s, tb_file := f, tb_offset := off\<rparr>) \<and>
    stored_ok z (xs, rs, c, t) \<and> (tb_failed r' \<or> tb_written r (stored_block c t) r')"
proof -
  obtain b1 where b1: "BlockBuilder_Finish b = Some (enc_block xs rs, b1)" "block_layout xs rs"
    using BlockBuilder_Finish_spec [OF inv small] by blast
  define ct where "ct = (case compression (tb_options r) of
          kNoCompression \<Rightarrow> (enc_block xs rs, kNoCompression)
        | kSnappyCompression \<Rightarrow>
            (case Snappy_Compress z (enc_block xs rs) of
               Some compressed \<Rightarrow>
                 if length compressed < length (enc_block xs rs) - length (enc_block xs rs) div 8 then (compressed, kSnappyCompression)
                 else (enc_block xs rs, kNoCompression)
             | None \<Rightarrow> (enc_block xs rs, kNoCompression)))"
  obtain c type where ct: "ct = (c, type)" by (cases ct)
  have ok: "stored_ok z (xs, rs, c, compression_byte type)"
  proof (cases "type = kNoCompression")
    case True
    then have "c = enc_block xs rs" using ct by (auto simp: ct_def split: TableCompression.splits option.splits if_splits)
    then show ?thesis using True b1(2) small sorted by (simp add: compression_byte_def)
  next
    case False
    then have "Snappy_Compress z (enc_block xs rs) = Some c" "length c < length (enc_block xs rs)" "type = kSnappyCompression"
      using ct by (auto simp: ct_def split: TableCompression.splits option.splits if_splits)
    then show ?thesis using z b1(2) small sorted by (simp add: compression_byte_def snappy_ok_def)
  qed
  obtain r' where r': "WriteRawBlock posix_ops c type r = (\<lparr>bh_offset = tb_offset r, bh_size = of_nat (length c)\<rparr>, r')"
      "\<exists>s f off. r' = r\<lparr>tb_status := s, tb_file := f, tb_offset := off\<rparr>"
      "tb_failed r' \<or> tb_written r (stored_block c (compression_byte type)) r'"
    using WriteRawBlock_cases [OF opened, of c type] by blast
  have "WriteBlock z posix_ops b r = Some (\<lparr>bh_offset = tb_offset r, bh_size = of_nat (length c)\<rparr>, BlockBuilder_Reset b1, r')"
    unfolding WriteBlock_def b1(1) by (simp add: ct r'(1) flip: ct_def)
  then show ?thesis using bb_inv_reset r'(2,3) ok by blast
qed

section \<open>The invariant of the builder\<close>

text \<open>
  \<open>K\<close> and \<open>V\<close> bound the lengths of keys and values and \<open>N\<close> the number of entries. The bounds keep
  every block, with the index block, below 4 GiB, which the 32-bit offsets need.
\<close>

definition limits :: "Options \<Rightarrow> nat \<Rightarrow> nat \<Rightarrow> nat \<Rightarrow> bool" where
  "limits opt K V N \<longleftrightarrow> 1 \<le> block_restart_interval opt \<and> block_size opt + K + V + 64 \<le> 2 ^ 31 \<and> Suc N * (K + 64) < 2 ^ 32"

abbreviation tb_entries :: "stored list \<Rightarrow> entry list \<Rightarrow> (bytes \<times> bytes) list" where
  "tb_entries fs xs \<equiv> table_entries fs @ contents_of xs"

definition tb_index_ok :: "stored list \<Rightarrow> entry list \<Rightarrow> entry list \<Rightarrow> bool" where
  "tb_index_ok fs xs ys \<longleftrightarrow> map value_of ys = map (handle_bytes fs) [0..<length ys] \<and>
     (\<forall>j < length ys. (\<forall>e \<in> set (table_entries (take (Suc j) fs)). fst e \<le> key_of (ys ! j)) \<and>
        (\<forall>e \<in> set (table_entries (drop (Suc j) fs) @ contents_of xs). key_of (ys ! j) < fst e))"

definition tb_entries_ok :: "nat \<Rightarrow> nat \<Rightarrow> nat \<Rightarrow> (bytes \<times> bytes) list \<Rightarrow> bool" where
  "tb_entries_ok K V N es \<longleftrightarrow> sorted_entries es \<and> length es \<le> N \<and> (\<forall>e \<in> set es. length (fst e) \<le> K \<and> length (snd e) \<le> V)"

definition tb_file_ok :: "Snappy \<Rightarrow> stored list \<Rightarrow> PosixWritableFile TableBuilder \<Rightarrow> bool" where
  "tb_file_ok z fs r \<longleftrightarrow> tb_status r = OK \<and> pwf_open (tb_file r) \<and> pwf_data (tb_file r) = file_of fs \<and>
     tb_offset r = of_nat (length (file_of fs)) \<and> (\<forall>s \<in> set fs. stored_ok z s \<and> stored_entries s \<noteq> [])"

definition tb_inv ::
  "Snappy \<Rightarrow> Options \<Rightarrow> nat \<Rightarrow> nat \<Rightarrow> nat \<Rightarrow> stored list \<Rightarrow> entry list \<Rightarrow> nat list \<Rightarrow> entry list \<Rightarrow> nat list \<Rightarrow>
   PosixWritableFile TableBuilder \<Rightarrow> bool" where
  "tb_inv z opt K V N fs xs rs ys irs r \<longleftrightarrow> tb_options r = opt \<and> tb_file_ok z fs r \<and>
     bb_inv xs rs (data_block r) \<and> bb_inv ys irs (index_block r) \<and>
     length fs = length ys + (if pending_index_entry r then 1 else 0) \<and>
     (pending_index_entry r \<longrightarrow> xs = [] \<and> pending_handle r = handle_of fs (length ys)) \<and>
     (\<not> pending_index_entry r \<and> xs = [] \<longrightarrow> fs = []) \<and>
     tb_index_ok fs xs ys \<and> tb_entries_ok K V N (tb_entries fs xs) \<and>
     num_entries r = int (length (tb_entries fs xs)) \<and>
     (tb_entries fs xs \<noteq> [] \<longrightarrow> tb_last_key r = fst (last (tb_entries fs xs))) \<and>
     length (enc_block ys irs) \<le> 8 + length ys * (K + 64)"

lemma tb_inv_new:
  assumes "pwf_open f" "pwf_data f = []"
  shows "tb_inv z opt K V N [] [] [0] [] [0] (TableBuilder_new opt f)"
  using assms bb_inv_new
  by (simp add: tb_inv_def TableBuilder_new_def tb_file_ok_def file_of_def tb_index_ok_def tb_entries_ok_def
      sorted_entries_def length_enc_block enc_entries_def)

lemma file_of_snoc: "file_of (fs @ [s]) = file_of fs @ stored_bytes s"
  by (simp add: file_of_def)

lemma handle_of_snoc: "j < length fs \<Longrightarrow> handle_of (fs @ [s]) j = handle_of fs j"
  by (simp add: handle_of_def nth_append)

lemma handle_bytes_snoc: "j < length fs \<Longrightarrow> handle_bytes (fs @ [s]) j = handle_bytes fs j"
  by (simp add: handle_bytes_def handle_of_snoc)

lemma sorted_entries_append:
  "sorted_entries (es @ es') \<longleftrightarrow> sorted_entries es \<and> sorted_entries es' \<and> (\<forall>e \<in> set es. \<forall>e' \<in> set es'. fst e < fst e')"
  by (auto simp: sorted_entries_def sorted_wrt_append)

lemma tb_index_ok_flush:
  assumes "tb_index_ok fs xs ys" "length ys \<le> length fs" "stored_entries s = contents_of xs"
  shows "tb_index_ok (fs @ [s]) [] ys"
  using assms by (auto simp: tb_index_ok_def handle_bytes_snoc)

lemma Flush_spec:
  assumes z: "snappy_ok z" and inv: "tb_inv z opt K V N fs xs rs ys irs r" and small: "length (enc_block xs rs) < 2 ^ 32"
  shows "\<exists>r'. TableBuilder_Flush z posix_ops r = Some r' \<and>
    (tb_failed r' \<and> tb_options r' = opt \<and> \<not> pending_index_entry r' \<and> bb_inv [] [0] (data_block r') \<or>
     (\<exists>fs'. tb_inv z opt K V N fs' [] [0] ys irs r' \<and> tb_entries fs' [] = tb_entries fs xs))"
proof (cases "xs = []")
  case True
  then have "rs = [0]" "BlockBuilder_empty (data_block r)"
    using inv bb_inv_empty [of xs rs "data_block r"] by (auto simp: tb_inv_def bb_inv_def)
  then show ?thesis using True inv by (auto simp: TableBuilder_Flush_def)
next
  case False
  note I = inv [unfolded tb_inv_def]
  have st: "tb_status r = OK" "pwf_open (tb_file r)" "tb_offset r = of_nat (length (file_of fs))" "\<not> pending_index_entry r"
      "length fs = length ys" "\<not> BlockBuilder_empty (data_block r)"
    using I False bb_inv_empty [of xs rs "data_block r"] by (auto simp: tb_file_ok_def)
  have "sorted_entries (contents_of xs)" using I by (simp add: tb_entries_ok_def sorted_entries_append)
  then obtain c t b' r' where w: "WriteBlock z posix_ops (data_block r) r = Some (\<lparr>bh_offset = tb_offset r, bh_size = of_nat (length c)\<rparr>, b', r')"
      "bb_inv [] [0] b'" "\<exists>s f off. r' = r\<lparr>tb_status := s, tb_file := f, tb_offset := off\<rparr>"
      "stored_ok z (xs, rs, c, t)" "tb_failed r' \<or> tb_written r (stored_block c t) r'"
    using WriteBlock_cases [OF z _ small _ st(2), of "data_block r"] I by blast
  define r2 where "r2 = r'\<lparr>data_block := b', pending_handle := \<lparr>bh_offset = tb_offset r, bh_size = of_nat (length c)\<rparr>\<rparr>"
  define r3 where "r3 = (if tb_status r2 = OK then r2\<lparr>pending_index_entry := True\<rparr> else r2)"
  have flush: "TableBuilder_Flush z posix_ops r = Some r3"
    using st w(1) by (simp add: TableBuilder_Flush_def Let_def r3_def r2_def)
  show ?thesis
  proof (cases "tb_failed r'")
    case True
    then have "tb_failed r3" "tb_options r3 = opt" "\<not> pending_index_entry r3" "bb_inv [] [0] (data_block r3)"
      using w(2,3) I st(4) by (auto simp: tb_failed_def r3_def r2_def)
    with flush show ?thesis by blast
  next
    case ok: False
    then have wr: "tb_written r (stored_block c t) r'" using w(5) by simp
    let ?s = "(xs, rs, c, t)"
    have r': "tb_options r' = tb_options r" "index_block r' = index_block r" "num_entries r' = num_entries r" "tb_last_key r' = tb_last_key r"
      using w(3) by auto
    have h: "handle_of (fs @ [?s]) (length ys) = \<lparr>bh_offset = tb_offset r, bh_size = of_nat (length c)\<rparr>"
      using st by (simp add: handle_of_def nth_append)
    have "tb_file_ok z (fs @ [?s]) r3"
      using wr w(4) I False by (auto simp: tb_file_ok_def tb_written_def r3_def r2_def file_of_snoc)
    moreover have "tb_index_ok (fs @ [?s]) [] ys" by (rule tb_index_ok_flush) (use I st in auto)
    ultimately have "tb_inv z opt K V N (fs @ [?s]) [] [0] ys irs r3"
      using I st w(2) r' h wr by (simp add: tb_inv_def r3_def r2_def tb_written_def)
    with flush show ?thesis by fastforce
  qed
qed

section \<open>Adding an entry\<close>

lemma length_EncodeVarint32_le: "length (EncodeVarint32 v) \<le> 5"
proof -
  have "unat (ucast v :: u64) < 2 ^ (7 * Suc 4)" using unsigned_less [of v, where ?'a = nat] by simp
  from VarintLength_bound [OF this] show ?thesis by (simp add: EncodeVarint32_eq_EncodeVarint64 length_EncodeVarint64)
qed

lemma length_enc_entry_le: "length (enc_entry (sh, k, v)) \<le> 15 + length k + length v"
  using length_EncodeVarint32_le [of "of_nat sh"] length_EncodeVarint32_le [of "of_nat (length k - sh)"]
    length_EncodeVarint32_le [of "of_nat (length v)"] by (simp add: enc_entry_def entry_bytes_def)

lemma length_enc_block_snoc:
  "length rs' \<le> Suc (length rs) \<Longrightarrow> length (enc_block (xs @ [(sh, k, v)]) rs') \<le> length (enc_block xs rs) + 19 + length k + length v"
  using length_enc_entry_le [of sh k v] by (simp add: length_enc_block enc_entries_def)

text \<open>All separators so far are below a key that comes after all entries.\<close>

lemma separators_below:
  assumes inv: "tb_inv z opt K V N fs xs rs ys irs r" and k: "\<forall>e \<in> set (tb_entries fs xs). fst e < k" and j: "j < length ys"
  shows "key_of (ys ! j) < k"
proof -
  note I = inv [unfolded tb_inv_def]
  have "\<exists>e \<in> set (table_entries (drop (Suc j) fs) @ contents_of xs). e \<in> set (tb_entries fs xs)"
  proof (cases "xs = []")
    case True
    then have p: "pending_index_entry r" "length fs = Suc (length ys)" using I j by (auto split: if_splits)
    have "Suc j + (length ys - Suc j) = length ys" using j by simp
    then have "drop (Suc j) fs ! (length ys - Suc j) = fs ! length ys" "length ys - Suc j < length (drop (Suc j) fs)"
      using j p(2) nth_drop [of "Suc j" fs "length ys - Suc j"] by simp_all
    then have "fs ! length ys \<in> set (drop (Suc j) fs)" "fs ! length ys \<in> set fs"
      using p(2) by (metis nth_mem, simp)
    moreover from this obtain e where "e \<in> set (stored_entries (fs ! length ys))"
      using I unfolding tb_file_ok_def by (metis list.set_sel(1))
    ultimately show ?thesis by auto
  next
    case False
    then obtain e where "e \<in> set (contents_of xs)" by (metis last_in_set map_is_Nil_conv)
    then show ?thesis by auto
  qed
  moreover have "\<forall>e \<in> set (table_entries (drop (Suc j) fs) @ contents_of xs). key_of (ys ! j) < fst e"
    using I j by (simp add: tb_index_ok_def)
  ultimately obtain e :: "bytes \<times> bytes" where "key_of (ys ! j) < fst e" "fst e < k" using k by blast
  then show ?thesis by (rule less_trans)
qed

lemma tb_index_ok_snoc:
  assumes "tb_index_ok fs [] ys" "length fs = Suc (length ys)" "\<forall>e \<in> set (table_entries fs). fst e \<le> sep"
  shows "tb_index_ok fs [] (ys @ [(sh, sep, handle_bytes fs (length ys))])"
  using assms by (auto simp: tb_index_ok_def nth_append less_Suc_eq)

lemma tb_index_ok_extend:
  assumes "tb_index_ok fs xs ys" "\<forall>j < length ys. key_of (ys ! j) < k"
  shows "tb_index_ok fs (xs @ [(sh, k, v)]) ys"
  using assms by (auto simp: tb_index_ok_def)

lemma blocks_nonempty_length: "\<forall>s \<in> set fs. stored_entries s \<noteq> [] \<Longrightarrow> length fs \<le> length (table_entries fs)"
proof (induction fs)
  case (Cons s fs)
  then have "1 \<le> length (stored_entries s)" "length fs \<le> length (table_entries fs)" by (simp_all add: Suc_le_eq)
  then have "1 + length fs \<le> length (stored_entries s) + length (table_entries fs)" by (rule add_mono)
  then show ?case by simp
qed simp

text \<open>The index after the pending entry was added, if there is one.\<close>

lemma add_pending_spec:
  assumes lim: "limits opt K V N" and inv: "tb_inv z opt K V N fs xs rs ys irs r"
    and sep: "pending_index_entry r \<Longrightarrow> tb_last_key r \<le> sep \<and> length sep \<le> length (tb_last_key r)"
  shows "\<exists>ys' irs' b. add_pending_entry sep r =
      Some (if pending_index_entry r then r\<lparr>tb_last_key := sep, index_block := b, pending_index_entry := False\<rparr> else r) \<and>
    bb_inv ys' irs' (if pending_index_entry r then b else index_block r) \<and>
    length ys' = length fs \<and> tb_index_ok fs xs ys' \<and> length (enc_block ys' irs') \<le> 8 + length ys' * (K + 64) \<and>
    (\<forall>j < length ys'. j < length ys \<and> ys' ! j = ys ! j \<or> pending_index_entry r \<and> key_of (ys' ! j) = sep)"
proof (cases "pending_index_entry r")
  case False
  then show ?thesis using inv by (auto simp: add_pending_entry_def tb_inv_def)
next
  case True
  note I = inv [unfolded tb_inv_def]
  have p: "xs = []" "length fs = Suc (length ys)" "pending_handle r = handle_of fs (length ys)" using I True by auto
  have blocks: "\<forall>s \<in> set fs. stored_entries s \<noteq> []" using I by (simp add: tb_file_ok_def)
  have len: "length fs \<le> length (table_entries fs)" using blocks by (rule blocks_nonempty_length)
  define es where "es = table_entries fs"
  have "length fs \<le> length es" using len by (simp only: es_def)
  then have es: "es \<noteq> []" "length fs \<le> length es" using p(2) by auto
  have E: "tb_entries_ok K V N es" "es \<noteq> [] \<longrightarrow> tb_last_key r = fst (last es)" using I p(1) by (simp_all add: es_def)
  then have last: "tb_last_key r = fst (last es)" "last es \<in> set es" using es(1) by auto
  have K: "length (tb_last_key r) \<le> K" "length es \<le> N" using E(1) last by (auto simp: tb_entries_ok_def)
  have "sorted_entries (butlast es @ [last es])" using E(1) es(1) by (simp add: tb_entries_ok_def)
  then have "\<forall>e \<in> set (butlast es). fst e < fst (last es)" by (simp add: sorted_entries_append)
  moreover have "set es = insert (last es) (set (butlast es))"
    by (metis append_butlast_last_id es(1) list.simps(15) rotate1.simps(2) set_rotate1)
  ultimately have below: "\<forall>e \<in> set (table_entries fs). fst e \<le> tb_last_key r"
    unfolding es_def [symmetric] last(1) by auto
  let ?h = "handle_bytes fs (length ys)"
  have hl: "length ?h \<le> 20" using length_BlockHandle_EncodeTo [of "handle_of fs (length ys)"]
    by (simp add: handle_bytes_def kMaxEncodedLength_def)
  have "length ys * (K + 64) + (K + 64) \<le> N * (K + 64)"
    using es(2) p(2) K(2) by (metis add.commute le_trans mult_Suc mult_le_mono1)
  then have ib: "8 + length ys * (K + 64) < 2 ^ 32" using lim by (simp add: limits_def)
  have "length (buffer (index_block r)) \<le> length (enc_block ys irs)" using I by (simp add: bb_inv_def length_enc_block)
  moreover have "length (enc_block ys irs) \<le> 8 + length ys * (K + 64)" using I by simp
  ultimately have "length (buffer (index_block r)) < 2 ^ 32" using ib by linarith
  moreover have "length sep < 2 ^ 32" using sep [OF True] K(1) lim by (simp add: limits_def)
  moreover have "length ?h < 2 ^ 32" using hl by simp
  ultimately obtain sh irs' b where b: "BlockBuilder_Add (index_block_options r) sep ?h (index_block r) = Some b"
      "bb_inv (ys @ [(sh, sep, ?h)]) irs' b" "length irs' \<le> Suc (length irs)"
    using BlockBuilder_Add_spec [of ys irs "index_block r" "index_block_options r" sep ?h] I
    by (auto simp: index_block_options_def)
  have add: "add_pending_entry sep r = Some (r\<lparr>tb_last_key := sep, index_block := b, pending_index_entry := False\<rparr>)"
    using True b(1) by (simp add: add_pending_entry_def p(3) handle_bytes_def)
  have "tb_index_ok fs xs (ys @ [(sh, sep, ?h)])"
    unfolding p(1) by (rule tb_index_ok_snoc) (use I p below sep [OF True] order_trans in \<open>blast+\<close>)
  moreover have "length (enc_block (ys @ [(sh, sep, ?h)]) irs') \<le> 8 + length (ys @ [(sh, sep, ?h)]) * (K + 64)"
    using length_enc_block_snoc [OF b(3), of ys sh sep ?h] hl sep [OF True] K(1) I by simp
  ultimately show ?thesis
    using add b(2) True p(2)
    by (intro exI [of _ "ys @ [(sh, sep, ?h)]"] exI [of _ irs'] exI [of _ b]) (auto simp: nth_append less_Suc_eq)
qed

lemma limits_block:
  assumes "limits opt K V N" "length (enc_block xs rs) \<le> max 8 (block_size opt)" "length k \<le> K" "length v \<le> V" "length rs' \<le> Suc (length rs)"
  shows "length (enc_block xs rs) < 2 ^ 32" "length k < 2 ^ 32" "length v < 2 ^ 32"
    "length (enc_block (xs @ [(sh, k, v)]) rs') < 2 ^ 32"
  using assms length_enc_block_snoc [OF assms(5), of xs sh k v] by (auto simp: limits_def max_def split: if_splits)

lemma extend_spec:
  assumes lim: "limits opt K V N" and inv: "tb_inv z opt K V N fs xs rs ys irs r"
    and size: "length (enc_block xs rs) \<le> max 8 (block_size opt)" and es: "tb_entries_ok K V N (tb_entries fs xs @ [(k, v)])"
  shows "\<exists>r2 block sh rs' ys' irs'. add_pending_entry (FindShortestSeparator (tb_last_key r) k) r = Some r2 \<and>
    tb_options r2 = opt \<and> BlockBuilder_Add opt k v (data_block r2) = Some block \<and> length rs' \<le> Suc (length rs) \<and>
    tb_inv z opt K V N fs (xs @ [(sh, k, v)]) rs' ys' irs'
      (r2\<lparr>tb_last_key := k, num_entries := num_entries r2 + 1, data_block := block\<rparr>)"
proof -
  note I = inv [unfolded tb_inv_def]
  let ?sep = "FindShortestSeparator (tb_last_key r) k"
  have k: "\<forall>e \<in> set (tb_entries fs xs). fst e < k" "length k \<le> K" "length v \<le> V"
    using es unfolding tb_entries_ok_def sorted_entries_append by auto
  have last: "tb_last_key r < k" if "pending_index_entry r"
  proof -
    have "fs \<noteq> []" "\<forall>s \<in> set fs. stored_entries s \<noteq> []" using I that by (auto simp: tb_file_ok_def)
    then have ne: "tb_entries fs xs \<noteq> []" by (cases fs) auto
    then have "tb_last_key r = fst (last (tb_entries fs xs))" using I by blast
    then show ?thesis using k(1) last_in_set [OF ne] by metis
  qed
  then have sep: "pending_index_entry r \<Longrightarrow> tb_last_key r \<le> ?sep \<and> length ?sep \<le> length (tb_last_key r)"
    "pending_index_entry r \<Longrightarrow> ?sep < k"
    using FindShortestSeparator_between by blast+
  obtain ys' irs' b where a: "add_pending_entry ?sep r =
      Some (if pending_index_entry r then r\<lparr>tb_last_key := ?sep, index_block := b, pending_index_entry := False\<rparr> else r)"
    "bb_inv ys' irs' (if pending_index_entry r then b else index_block r)" "length ys' = length fs" "tb_index_ok fs xs ys'"
    "length (enc_block ys' irs') \<le> 8 + length ys' * (K + 64)"
    "\<forall>j < length ys'. j < length ys \<and> ys' ! j = ys ! j \<or> pending_index_entry r \<and> key_of (ys' ! j) = ?sep"
    using add_pending_spec [OF lim inv sep(1)] by blast
  define r2 where "r2 = (if pending_index_entry r then r\<lparr>tb_last_key := ?sep, index_block := b, pending_index_entry := False\<rparr> else r)"
  have r2: "data_block r2 = data_block r" "tb_options r2 = opt" "num_entries r2 = num_entries r" "\<not> pending_index_entry r2"
      "tb_file_ok z fs r2" "bb_inv ys' irs' (index_block r2)"
    using I a(2) by (auto simp: r2_def tb_file_ok_def)
  have "\<forall>j < length ys'. key_of (ys' ! j) < k" using a(6) separators_below [OF inv k(1)] sep(2) by metis
  then have ix: "tb_index_ok fs (xs @ [(sh, k, v)]) ys'" for sh by (rule tb_index_ok_extend [OF a(4)])
  have bb: "bb_inv xs rs (data_block r2)" "1 \<le> block_restart_interval opt" using I lim r2(1) by (simp_all add: limits_def)
  moreover have "length (buffer (data_block r2)) < 2 ^ 32"
    using limits_block(1) [OF lim size k(2,3) le_SucI [OF order_refl]] bb(1) by (simp add: bb_inv_def length_enc_block)
  ultimately obtain sh rs' block where block: "BlockBuilder_Add opt k v (data_block r2) = Some block"
      "bb_inv (xs @ [(sh, k, v)]) rs' block" "length rs' \<le> Suc (length rs)"
    using BlockBuilder_Add_spec limits_block(2,3) [OF lim size k(2,3) le_SucI [OF order_refl]] by metis
  have "tb_inv z opt K V N fs (xs @ [(sh, k, v)]) rs' ys' irs' (r2\<lparr>tb_last_key := k, num_entries := num_entries r2 + 1, data_block := block\<rparr>)"
    using r2 block(2) a(3,5) ix [of sh] es I by (simp add: tb_inv_def tb_file_ok_def)
  then show ?thesis using a(1) r2(2) block unfolding r2_def [symmetric] by blast
qed

definition tb_state :: "Snappy \<Rightarrow> Options \<Rightarrow> nat \<Rightarrow> nat \<Rightarrow> nat \<Rightarrow> (bytes \<times> bytes) list \<Rightarrow> PosixWritableFile TableBuilder \<Rightarrow> bool" where
  "tb_state z opt K V N es r \<longleftrightarrow> tb_failed r \<or>
     (\<exists>fs xs rs ys irs. tb_inv z opt K V N fs xs rs ys irs r \<and> tb_entries fs xs = es \<and>
        length (enc_block xs rs) \<le> max 8 (block_size opt))"

lemma tb_stateI:
  "tb_inv z opt K V N fs xs rs ys irs r \<Longrightarrow> length (enc_block xs rs) \<le> max 8 (block_size opt) \<Longrightarrow>
   tb_entries fs xs = es \<Longrightarrow> tb_state z opt K V N es r"
  unfolding tb_state_def by blast

lemma empty_block_size: "length (enc_block [] [0]) = 8"
  by (simp add: length_enc_block enc_entries_def)

text \<open>The flush before an overly large entry; the data block is small before and after it.\<close>

lemma early_flush:
  assumes z: "snappy_ok z" and inv: "tb_inv z opt K V N fs xs rs ys irs r" and lim: "limits opt K V N"
    and size: "length (enc_block xs rs) \<le> max 8 (block_size opt)"
  shows "\<exists>r1. (if early then TableBuilder_Flush z posix_ops r else Some r) = Some r1 \<and>
    (tb_failed r1 \<and> tb_options r1 = opt \<and> \<not> pending_index_entry r1 \<and> bb_inv [] [0] (data_block r1) \<or>
     (\<exists>fs' xs' rs'. tb_inv z opt K V N fs' xs' rs' ys irs r1 \<and> tb_entries fs' xs' = tb_entries fs xs \<and>
        length (enc_block xs' rs') \<le> max 8 (block_size opt)))"
proof (cases early)
  case True
  have "length (enc_block xs rs) < 2 ^ 32" using lim size by (auto simp: limits_def max_def split: if_splits)
  from Flush_spec [OF z inv this] obtain r1 where r1: "TableBuilder_Flush z posix_ops r = Some r1"
    "tb_failed r1 \<and> tb_options r1 = opt \<and> \<not> pending_index_entry r1 \<and> bb_inv [] [0] (data_block r1) \<or>
     (\<exists>fs'. tb_inv z opt K V N fs' [] [0] ys irs r1 \<and> tb_entries fs' [] = tb_entries fs xs)" by blast
  moreover have "length (enc_block [] [0]) \<le> max 8 (block_size opt)" by (simp add: empty_block_size)
  ultimately show ?thesis using True by (metis (no_types, lifting))
next
  case False
  then show ?thesis using inv size by auto
qed

lemma Add_after_failure:
  assumes "tb_failed r" "tb_options r = opt" "\<not> pending_index_entry r" "bb_inv [] [0] (data_block r)"
    "limits opt K V N" "length k \<le> K" "length v \<le> V"
  shows "\<exists>block. add_pending_entry sep r = Some r \<and> BlockBuilder_Add opt k v (data_block r) = Some block"
proof -
  have "length (buffer (data_block r)) < 2 ^ 32" using assms(4) by (simp add: bb_inv_def enc_entries_def)
  moreover have "length k < 2 ^ 32" "length v < 2 ^ 32" "1 \<le> block_restart_interval opt"
    using assms(5-7) by (simp_all add: limits_def)
  ultimately have "\<exists>block. BlockBuilder_Add opt k v (data_block r) = Some block"
    using BlockBuilder_Add_spec [OF assms(4), of opt k v] by blast
  then show ?thesis using assms(3) by (simp add: add_pending_entry_def)
qed

lemma Add_spec:
  assumes z: "snappy_ok z" and lim: "limits opt K V N" and st: "tb_state z opt K V N es r"
    and ok: "tb_entries_ok K V N (es @ [(k, v)])"
  shows "\<exists>r'. TableBuilder_Add z posix_ops k v r = Some r' \<and> tb_state z opt K V N (es @ [(k, v)]) r'"
proof (cases "tb_failed r")
  case True
  then have "TableBuilder_Add z posix_ops k v r = Some r" by (simp add: TableBuilder_Add_def tb_failed_def)
  with True show ?thesis by (auto simp: tb_state_def)
next
  case False
  then obtain fs xs rs ys irs where inv: "tb_inv z opt K V N fs xs rs ys irs r" "tb_entries fs xs = es"
      "length (enc_block xs rs) \<le> max 8 (block_size opt)"
    using st by (auto simp: tb_state_def)
  have good: "tb_status r = OK" "tb_options r = opt" using inv(1) by (simp_all add: tb_inv_def tb_file_ok_def)
  have kv: "length k \<le> K" "length v \<le> V" using ok by (auto simp: tb_entries_ok_def)
  define early where "early \<longleftrightarrow> 0 < num_entries r \<and> 2 * block_size (tb_options r) mod 2 ^ 64 \<le> length k + length v"
  obtain r1 where r1: "(if early then TableBuilder_Flush z posix_ops r else Some r) = Some r1"
    "tb_failed r1 \<and> tb_options r1 = opt \<and> \<not> pending_index_entry r1 \<and> bb_inv [] [0] (data_block r1) \<or>
     (\<exists>fs' xs' rs'. tb_inv z opt K V N fs' xs' rs' ys irs r1 \<and> tb_entries fs' xs' = tb_entries fs xs \<and>
        length (enc_block xs' rs') \<le> max 8 (block_size opt))"
    using early_flush [OF z inv(1) lim inv(3), of early] by blast
  have add: "TableBuilder_Add z posix_ops k v r = do {
        r2 \<leftarrow> add_pending_entry (FindShortestSeparator (tb_last_key r1) k) r1;
        block \<leftarrow> BlockBuilder_Add (tb_options r2) k v (data_block r2);
        let r3 = r2\<lparr>tb_last_key := k, num_entries := num_entries r2 + 1, data_block := block\<rparr>
        in if block_size (tb_options r3) \<le> CurrentSizeEstimate (data_block r3)
           then TableBuilder_Flush z posix_ops r3 else Some r3 }"
    unfolding TableBuilder_Add_def early_def [symmetric] r1(1) by (simp add: good(1))
  show ?thesis
  proof (cases "tb_failed r1")
    case True
    then have f: "tb_options r1 = opt" "\<not> pending_index_entry r1" "bb_inv [] [0] (data_block r1)"
      using r1(2) by (auto simp: tb_inv_def tb_file_ok_def tb_failed_def)
    obtain block where "add_pending_entry (FindShortestSeparator (tb_last_key r1) k) r1 = Some r1"
        "BlockBuilder_Add opt k v (data_block r1) = Some block"
      using Add_after_failure [OF True f lim kv] by blast
    then show ?thesis
      using True f(1) by (auto simp: add Let_def TableBuilder_Flush_def tb_state_def tb_failed_def)
  next
    case False
    then obtain fs' xs' rs' where i1: "tb_inv z opt K V N fs' xs' rs' ys irs r1" "tb_entries fs' xs' = es"
        "length (enc_block xs' rs') \<le> max 8 (block_size opt)"
      using r1(2) inv(2) by auto
    obtain r2 block sh rs2 ys' irs' where e: "add_pending_entry (FindShortestSeparator (tb_last_key r1) k) r1 = Some r2"
        "tb_options r2 = opt" "BlockBuilder_Add opt k v (data_block r2) = Some block" "length rs2 \<le> Suc (length rs')"
        "tb_inv z opt K V N fs' (xs' @ [(sh, k, v)]) rs2 ys' irs'
           (r2\<lparr>tb_last_key := k, num_entries := num_entries r2 + 1, data_block := block\<rparr>)"
      using extend_spec [OF lim i1(1,3)] i1(2) ok by metis
    define r3 where "r3 = r2\<lparr>tb_last_key := k, num_entries := num_entries r2 + 1, data_block := block\<rparr>"
    let ?xs = "xs' @ [(sh, k, v)]"
    have i3: "tb_inv z opt K V N fs' ?xs rs2 ys' irs' r3" "tb_entries fs' ?xs = es @ [(k, v)]"
      using e(5) i1(2) by (simp_all add: r3_def)
    have small: "length (enc_block ?xs rs2) < 2 ^ 32" using limits_block(4) [OF lim i1(3) kv e(4)] .
    have "data_block r3 = block" by (simp add: r3_def)
    then have est: "CurrentSizeEstimate block = length (enc_block ?xs rs2)"
      using i3(1) bb_inv_size by (auto simp: tb_inv_def)
    have step: "TableBuilder_Add z posix_ops k v r =
        (if block_size opt \<le> length (enc_block ?xs rs2) then TableBuilder_Flush z posix_ops r3 else Some r3)"
      using e(1-3) est r3_def by (simp add: add Let_def flip: r3_def)
    show ?thesis
    proof (cases "block_size opt \<le> length (enc_block ?xs rs2)")
      case True
      obtain r' where r': "TableBuilder_Flush z posix_ops r3 = Some r'"
          "tb_failed r' \<or> (\<exists>fs'. tb_inv z opt K V N fs' [] [0] ys' irs' r' \<and> tb_entries fs' [] = es @ [(k, v)])"
        using Flush_spec [OF z i3(1) small] i3(2) by metis
      then have "tb_state z opt K V N (es @ [(k, v)]) r'"
        using tb_stateI [of z opt K V N _ "[]" "[0]" ys' irs' r'] empty_block_size by (auto simp: tb_state_def)
      then show ?thesis using True step r'(1) by simp
    next
      case False
      then show ?thesis using step tb_stateI [OF i3(1) _ i3(2)] by simp
    qed
  qed
qed

fun add_all :: "Snappy \<Rightarrow> (bytes \<times> bytes) list \<Rightarrow> PosixWritableFile TableBuilder \<Rightarrow> PosixWritableFile TableBuilder option" where
  "add_all z [] r = Some r"
| "add_all z ((k, v) # es) r = TableBuilder_Add z posix_ops k v r \<bind> add_all z es"

lemma add_all_spec:
  assumes "snappy_ok z" "limits opt K V N" "tb_state z opt K V N es0 r" "tb_entries_ok K V N (es0 @ es)"
  shows "\<exists>r'. add_all z es r = Some r' \<and> tb_state z opt K V N (es0 @ es) r'"
  using assms(3,4)
proof (induction es arbitrary: es0 r)
  case (Cons e es)
  obtain k v where e: "e = (k, v)" by (cases e)
  have "tb_entries_ok K V N (es0 @ [(k, v)])"
    using Cons(3) by (auto simp: tb_entries_ok_def sorted_entries_def sorted_wrt_append e)
  from Add_spec [OF assms(1,2) Cons(2) this] obtain r1 where
    r1: "TableBuilder_Add z posix_ops k v r = Some r1" "tb_state z opt K V N (es0 @ [(k, v)]) r1" by blast
  with Cons(1) [OF r1(2)] Cons(3) show ?case by (simp add: e)
qed simp

section \<open>Finishing a table\<close>

text \<open>The separators are in order.\<close>

lemma tb_index_okD:
  assumes ix: "tb_index_ok fs xs ys" and j: "j < length ys" "length ys = length fs" and e: "e \<in> set (stored_entries (fs ! j))"
  shows "fst e \<le> key_of (ys ! j)" "i < j \<Longrightarrow> key_of (ys ! i) < fst e"
proof -
  have "fs ! j \<in> set (take (Suc j) fs)" using j by (simp add: take_Suc_conv_app_nth)
  then have "e \<in> set (table_entries (take (Suc j) fs))" using e by auto
  then show "fst e \<le> key_of (ys ! j)" using ix j(1) unfolding tb_index_ok_def by blast
  assume i: "i < j"
  then have "drop (Suc i) fs ! (j - Suc i) = fs ! j" "j - Suc i < length (drop (Suc i) fs)" using j by simp_all
  then have "fs ! j \<in> set (drop (Suc i) fs)" by (metis nth_mem)
  then have "e \<in> set (table_entries (drop (Suc i) fs) @ contents_of xs)" using e by auto
  moreover have "i < length ys" using i j by simp
  ultimately show "key_of (ys ! i) < fst e" using ix unfolding tb_index_ok_def by blast
qed

lemma separators_sorted:
  assumes ix: "tb_index_ok fs xs ys" "length ys = length fs" and ne: "\<forall>s \<in> set fs. stored_entries s \<noteq> []"
  shows "sorted_entries (contents_of ys)"
  unfolding sorted_entries_def sorted_wrt_iff_nth_less
proof (intro allI impI)
  fix i j assume ij: "i < j" and "j < length (map fst (contents_of ys))"
  then have j: "j < length ys" by simp
  have "stored_entries (fs ! j) \<noteq> []" using ne nth_mem [of j fs] j ix(2) by simp
  then obtain e where e: "e \<in> set (stored_entries (fs ! j))" by (cases "stored_entries (fs ! j)") auto
  have "key_of (ys ! i) < key_of (ys ! j)"
    using tb_index_okD [OF ix(1) j ix(2) e] ij by (meson less_le_trans)
  then show "map fst (contents_of ys) ! i < map fst (contents_of ys) ! j" using ij j by simp
qed

lemma separated_blocks:
  assumes ix: "tb_index_ok fs [] ys" and len: "length ys = length fs" and small: "length (file_of fs) < 2 ^ 64"
  shows "separated (blk_of fs) (contents_of ys)"
proof -
  have blk: "block_at (blk_of fs) (contents_of ys) j = stored_entries (fs ! j)" if "j < length fs" for j
  proof -
    have "map value_of ys ! j = map (handle_bytes fs) [0..<length ys] ! j" using ix by (simp add: tb_index_ok_def)
    then have "value_of (ys ! j) = handle_bytes fs j" using that len by simp
    then show ?thesis using blk_of_handle [OF that small] that len by simp
  qed
  show ?thesis
    unfolding separated_def
  proof (intro allI impI conjI ballI)
    fix j e assume j: "j < length (contents_of ys)" and e: "e \<in> set (block_at (blk_of fs) (contents_of ys) j)"
    have j': "j < length ys" using j by simp
    have e': "e \<in> set (stored_entries (fs ! j))" using e blk [of j] j' len by simp
    note D = tb_index_okD [OF ix j' len e']
    show "fst e \<le> fst (contents_of ys ! j)" using D(1) j' by simp
    fix i assume i: "i < j"
    show "fst (contents_of ys ! i) < fst e" using D(2) [OF i] i j' by simp
  qed
qed

end
