(* ===== verification/TableRoundtrip.thy ===== *)
theory TableRoundtrip
  imports TableBuild
begin

text \<open>
  From \<^verbatim>\<open>TableBuilder\<close> to \<^verbatim>\<open>Table\<close>: a finished table is opened again, and iterating, seeking and
  looking up give the entries that were added.
\<close>

section \<open>A finished file\<close>

definition table_written :: "Snappy \<Rightarrow> stored list \<Rightarrow> entry list \<Rightarrow> bytes \<Rightarrow> bool" where
  "table_written z fs ys data \<longleftrightarrow>
     (\<exists>m i irs c t. stored_ok z m \<and> i = (ys, irs, c, t) \<and> stored_ok z i \<and> (\<forall>s \<in> set fs. stored_ok z s) \<and>
        length (file_of (fs @ [m, i])) < 2 ^ 64 \<and> length ys = length fs \<and> tb_index_ok fs [] ys \<and>
        data = file_of (fs @ [m, i]) @
          Footer_EncodeTo \<lparr>metaindex_handle = handle_of (fs @ [m, i]) (length fs),
            index_handle = handle_of (fs @ [m, i]) (Suc (length fs))\<rparr> [])"

lemma Table_Open_written:
  assumes "table_written z fs ys data"
  shows "\<exists>t. Table_Open z in_place data (length data) = Inr t \<and> table_on z fs (contents_of ys) t"
proof -
  obtain m i irs c ty where w: "stored_ok z i" "i = (ys, irs, c, ty)" "\<forall>s \<in> set fs. stored_ok z s"
      "length (file_of (fs @ [m, i])) < 2 ^ 64" "length ys = length fs" "tb_index_ok fs [] ys"
      "data = file_of (fs @ [m, i]) @
          Footer_EncodeTo \<lparr>metaindex_handle = handle_of (fs @ [m, i]) (length fs),
            index_handle = handle_of (fs @ [m, i]) (Suc (length fs))\<rparr> []"
    using assms unfolding table_written_def by blast
  define fs' where "fs' = fs @ [m, i]"
  define footer where "footer = \<lparr>metaindex_handle = handle_of fs' (length fs), index_handle = handle_of fs' (Suc (length fs))\<rparr>"
  have data: "data = file_of fs' @ Footer_EncodeTo footer []" using w(7) by (simp add: fs'_def footer_def)
  have len: "length data = length (file_of fs') + kEncodedLength" by (simp add: data length_Footer)
  have "RandomAccessFile_Read data (int (length data - kEncodedLength)) (int kEncodedLength) = (OK, Footer_EncodeTo footer [])"
    by (simp add: RandomAccessFile_Read_def Let_def len data length_Footer)
  moreover have "Footer_DecodeFrom (Footer_EncodeTo footer []) = Inr (footer, [])"
    using Footer_roundtrip [of footer "[]"] by simp
  moreover have i: "Suc (length fs) < length fs'" "fs' ! Suc (length fs) = i" by (simp_all add: fs'_def nth_append)
  then obtain bc xs rs where bc: "ReadBlock z in_place data (index_handle footer) = Inr bc" "block_layout xs rs"
      "bc_data bc = enc_block xs rs" "contents_of xs = contents_of ys" "sorted_entries (contents_of xs)"
    using ReadBlock_stored [OF i(1), of z in_place "Footer_EncodeTo footer []"] w(1,2,4)
    by (auto simp: data footer_def fs'_def)
  obtain it where it: "(Block_new bc \<bind> Block_NewIterator) = Some it" "block_source it (contents_of ys)"
    using NewIterator_layout [OF bc(2,3,5)] bc(4) by auto
  then obtain b where b: "Block_new bc = Some b" "Block_NewIterator b = Some it" by (auto simp: bind_eq_Some_conv)
  define t where "t = \<lparr>t_file = data, t_metaindex_handle = metaindex_handle footer, t_index_block = b\<rparr>"
  have "\<not> length data < kEncodedLength" by (simp add: len)
  ultimately have "Table_Open z in_place data (length data) = Inr t"
    using bc(1) b(1) by (simp add: Table_Open_def t_def)
  moreover have "table_on z fs (contents_of ys) t"
  proof -
    have parts: "file_of fs' = file_of fs @ stored_bytes m @ stored_bytes i" by (simp add: fs'_def file_of_def)
    then have small: "length (file_of fs) < 2 ^ 64" using w(4) by (simp add: fs'_def)
    then have "separated (blk_of fs) (contents_of ys)" using separated_blocks [OF w(6,5)] by simp
    moreover have "map snd (contents_of ys) = map (handle_bytes fs) [0..<length fs]"
      using w(5,6) by (simp add: tb_index_ok_def comp_def)
    moreover have "t_file t = file_of fs @ (stored_bytes m @ stored_bytes i @ Footer_EncodeTo footer [])"
      by (simp add: t_def data parts)
    ultimately show ?thesis using w(3) small it(2) b(2) unfolding table_on_def by (auto simp: t_def)
  qed
  ultimately show ?thesis by blast
qed

lemma file_of_bound: "\<forall>s \<in> set fs. stored_ok z s \<Longrightarrow> length (file_of fs) \<le> length fs * (2 ^ 32 + 4)"
proof (induction fs)
  case (Cons s fs)
  obtain xs rs c t where s: "s = (xs, rs, c, t)" by (cases s)
  have "length (stored_bytes s) \<le> 2 ^ 32 + 4" using Cons(2) by (simp add: s stored_block_def)
  with Cons show ?case by (simp add: file_of_def)
qed (simp add: file_of_def)

section \<open>Finish\<close>

lemma finish_failed:
  assumes "tb_failed r"
  shows "write_metaindex z ops r = Some (BlockHandle_new, r)" "write_index z ops r = Some (BlockHandle_new, r)"
    "write_footer ops footer r = r"
  using assms by (simp_all add: tb_failed_def write_metaindex_def write_index_def write_footer_def)

lemma tb_failed_closed [simp]: "tb_failed (r\<lparr>tb_closed := b\<rparr>) \<longleftrightarrow> tb_failed r"
  by (simp add: tb_failed_def)

lemma tb_failed_index [simp]: "tb_failed (r\<lparr>index_block := b\<rparr>) \<longleftrightarrow> tb_failed r"
  by (simp add: tb_failed_def)

lemma metaindex_cases:
  assumes z: "snappy_ok z" and inv: "tb_inv z opt K V N fs [] [0] ys irs r"
  shows "\<exists>m h r2. write_metaindex z posix_ops (r\<lparr>tb_closed := True\<rparr>) = Some (h, r2) \<and> stored_ok z m \<and>
    (\<exists>s f off. r2 = r\<lparr>tb_closed := True, tb_status := s, tb_file := f, tb_offset := off\<rparr>) \<and>
    (tb_failed r2 \<or> tb_written r (stored_bytes m) r2 \<and> (\<forall>i. h = handle_of (fs @ [m, i]) (length fs)))"
proof -
  let ?r = "r\<lparr>tb_closed := True\<rparr>"
  have st: "tb_status ?r = OK" "pwf_open (tb_file ?r)" "tb_offset r = of_nat (length (file_of fs))"
    using inv by (simp_all add: tb_inv_def tb_file_ok_def)
  have small: "length (enc_block [] [0]) < 2 ^ 32" by (simp add: empty_block_size)
  have "sorted_entries (contents_of [])" by (simp add: sorted_entries_def)
  then obtain c t b' r2 where w: "WriteBlock z posix_ops BlockBuilder_new ?r = Some (\<lparr>bh_offset = tb_offset ?r, bh_size = of_nat (length c)\<rparr>, b', r2)"
      "\<exists>s f off. r2 = ?r\<lparr>tb_status := s, tb_file := f, tb_offset := off\<rparr>" "stored_ok z ([], [0], c, t)"
      "tb_failed r2 \<or> tb_written ?r (stored_block c t) r2"
    using WriteBlock_cases [OF z bb_inv_new small _ st(2)] by blast
  define m :: stored where "m = ([], [0], c, t)"
  have "\<forall>i. \<lparr>bh_offset = tb_offset ?r, bh_size = of_nat (length c)\<rparr> = handle_of (fs @ [m, i]) (length fs)"
    using st(3) by (simp add: handle_of_def nth_append m_def)
  moreover have "tb_failed r2 \<or> tb_written r (stored_bytes m) r2" using w(4) by (auto simp: tb_written_def m_def)
  moreover have "stored_ok z m" using w(3) unfolding m_def .
  moreover have "write_metaindex z posix_ops ?r = Some (\<lparr>bh_offset = tb_offset ?r, bh_size = of_nat (length c)\<rparr>, r2)"
    using st(1) w(1) by (simp add: write_metaindex_def)
  moreover have "\<exists>s f off. r2 = r\<lparr>tb_closed := True, tb_status := s, tb_file := f, tb_offset := off\<rparr>" using w(2) by simp
  ultimately show ?thesis by metis
qed

text \<open>Adding the pending entry only touches the index.\<close>

lemma add_pending_other:
  assumes "add_pending_entry sep r =
      Some (if pending_index_entry r then r\<lparr>tb_last_key := sep, index_block := b, pending_index_entry := False\<rparr> else r)"
    "r2 = r\<lparr>tb_closed := cl, tb_status := s, tb_file := f, tb_offset := off\<rparr>"
  shows "add_pending_entry sep r2 =
      Some (if pending_index_entry r then r2\<lparr>tb_last_key := sep, index_block := b, pending_index_entry := False\<rparr> else r2)"
proof (cases "pending_index_entry r")
  case True
  then obtain b' where b': "BlockBuilder_Add (index_block_options r) sep (BlockHandle_EncodeTo (pending_handle r) []) (index_block r) = Some b'"
      "r\<lparr>tb_last_key := sep, index_block := b', pending_index_entry := False\<rparr> =
       r\<lparr>tb_last_key := sep, index_block := b, pending_index_entry := False\<rparr>"
    using assms(1) by (auto simp: add_pending_entry_def bind_eq_Some_conv)
  have "b' = b" using arg_cong [OF b'(2), of index_block] by simp
  with b'(1) True show ?thesis by (simp add: add_pending_entry_def assms(2) index_block_options_def)
qed (simp add: add_pending_entry_def assms(2))

lemma index_cases:
  assumes z: "snappy_ok z" and lim: "limits opt K V N" and inv: "tb_inv z opt K V N fs [] [0] ys irs r"
    and r2: "r2 = r\<lparr>tb_closed := True, tb_status := s, tb_file := f, tb_offset := off\<rparr>" "tb_written r (stored_bytes m) r2"
  shows "\<exists>ys' irs' c t h r3. write_index z posix_ops r2 = Some (h, r3) \<and> stored_ok z (ys', irs', c, t) \<and>
    length ys' = length fs \<and> tb_index_ok fs [] ys' \<and>
    (tb_failed r3 \<or> tb_written r2 (stored_block c t) r3 \<and> h = handle_of (fs @ [m, (ys', irs', c, t)]) (Suc (length fs)))"
proof -
  note I = inv [unfolded tb_inv_def]
  let ?sep = "FindShortSuccessor (tb_last_key r)"
  obtain ys' irs' b where a: "add_pending_entry ?sep r =
      Some (if pending_index_entry r then r\<lparr>tb_last_key := ?sep, index_block := b, pending_index_entry := False\<rparr> else r)"
    "bb_inv ys' irs' (if pending_index_entry r then b else index_block r)" "length ys' = length fs" "tb_index_ok fs [] ys'"
    "length (enc_block ys' irs') \<le> 8 + length ys' * (K + 64)"
    using add_pending_spec [OF lim inv, of ?sep] FindShortSuccessor_above by blast
  define r2' where "r2' = (if pending_index_entry r then r2\<lparr>tb_last_key := ?sep, index_block := b, pending_index_entry := False\<rparr> else r2)"
  have add: "add_pending_entry (FindShortSuccessor (tb_last_key r2)) r2 = Some r2'"
    using add_pending_other [OF a(1) r2(1)] r2(1) by (simp add: r2'_def)
  have ib: "bb_inv ys' irs' (index_block r2')" using a(2) r2(1) by (auto simp: r2'_def)
  have rf: "tb_file r2' = tb_file r2" "tb_offset r2' = tb_offset r2" "tb_status r2 = OK" "pwf_open (tb_file r2')"
      "tb_offset r2 = of_nat (length (file_of (fs @ [m])))"
    using r2(2) I by (auto simp: r2'_def tb_written_def tb_file_ok_def file_of_snoc)
  have blocks: "\<forall>s \<in> set fs. stored_entries s \<noteq> []" "length (table_entries fs) \<le> N"
    using I by (simp_all add: tb_file_ok_def tb_entries_ok_def)
  have "length fs \<le> N" using blocks_nonempty_length [OF blocks(1)] blocks(2) by simp
  then have "length ys' * (K + 64) \<le> N * (K + 64)" unfolding a(3) by (rule mult_le_mono1)
  moreover have "64 + K + N * (K + 64) < 2 ^ 32" using lim by (simp add: limits_def)
  ultimately have small: "length (enc_block ys' irs') < 2 ^ 32" using a(5) by linarith
  obtain c t b' r3 where w: "WriteBlock z posix_ops (index_block r2') r2' = Some (\<lparr>bh_offset = tb_offset r2', bh_size = of_nat (length c)\<rparr>, b', r3)"
      "stored_ok z (ys', irs', c, t)" "tb_failed r3 \<or> tb_written r2' (stored_block c t) r3"
    using WriteBlock_cases [OF z ib small separators_sorted [OF a(4,3) blocks(1)] rf(4)] by blast
  have "handle_of (fs @ [m, (ys', irs', c, t)]) (Suc (length fs)) = \<lparr>bh_offset = tb_offset r2', bh_size = of_nat (length c)\<rparr>"
    using rf by (simp add: handle_of_def nth_append)
  moreover have "write_index z posix_ops r2 = Some (\<lparr>bh_offset = tb_offset r2', bh_size = of_nat (length c)\<rparr>, r3\<lparr>index_block := b'\<rparr>)"
    using rf(3) add w(1) by (simp add: write_index_def)
  moreover have "tb_failed (r3\<lparr>index_block := b'\<rparr>) \<or> tb_written r2 (stored_block c t) (r3\<lparr>index_block := b'\<rparr>)"
    using w(3) rf by (auto simp: tb_written_def)
  ultimately show ?thesis using w(2) a(3,4) by metis
qed

lemma footer_cases:
  assumes "tb_status r = OK" "pwf_open (tb_file r)"
  shows "tb_failed (write_footer posix_ops ft r) \<or> tb_written r (Footer_EncodeTo ft []) (write_footer posix_ops ft r)"
  using Posix_Append_cases [OF assms(2), of "Footer_EncodeTo ft []"] assms(1)
  by (auto simp: write_footer_def posix_ops_def tb_failed_def tb_written_def Let_def)

lemma finish_tail:
  assumes z: "snappy_ok z" and lim: "limits opt K V N" and inv: "tb_inv z opt K V N fs [] [0] ys irs r"
  shows "\<exists>r'. (do { (mh, r2) \<leftarrow> write_metaindex z posix_ops (r\<lparr>tb_closed := True\<rparr>);
      (ih, r3) \<leftarrow> write_index z posix_ops r2;
      let r4 = write_footer posix_ops \<lparr>metaindex_handle = mh, index_handle = ih\<rparr> r3 in Some (tb_status r4, r4) }) =
    Some (tb_status r', r') \<and>
    (tb_failed r' \<or> tb_status r' = OK \<and> (\<exists>ys'. table_written z fs ys' (pwf_data (tb_file r'))))"
proof -
  obtain m mh r2 where m: "write_metaindex z posix_ops (r\<lparr>tb_closed := True\<rparr>) = Some (mh, r2)" "stored_ok z m"
      "\<exists>s f off. r2 = r\<lparr>tb_closed := True, tb_status := s, tb_file := f, tb_offset := off\<rparr>"
      "tb_failed r2 \<or> tb_written r (stored_bytes m) r2 \<and> (\<forall>i. mh = handle_of (fs @ [m, i]) (length fs))"
    using metaindex_cases [OF z inv] by blast
  show ?thesis
  proof (cases "tb_failed r2")
    case True
    then show ?thesis using m(1) finish_failed [OF True] by (auto simp: Let_def)
  next
    case False
    then have w2: "tb_written r (stored_bytes m) r2" "\<forall>i. mh = handle_of (fs @ [m, i]) (length fs)" using m(4) by auto
    obtain s f off where r2: "r2 = r\<lparr>tb_closed := True, tb_status := s, tb_file := f, tb_offset := off\<rparr>" using m(3) by blast
    obtain ys' irs' c t ih r3 where i: "write_index z posix_ops r2 = Some (ih, r3)" "stored_ok z (ys', irs', c, t)"
        "length ys' = length fs" "tb_index_ok fs [] ys'"
        "tb_failed r3 \<or> tb_written r2 (stored_block c t) r3 \<and> ih = handle_of (fs @ [m, (ys', irs', c, t)]) (Suc (length fs))"
      using index_cases [OF z lim inv r2 w2(1)] by blast
    define ft where "ft = \<lparr>metaindex_handle = mh, index_handle = ih\<rparr>"
    define r4 where "r4 = write_footer posix_ops ft r3"
    have run: "(do { (mh, r2) \<leftarrow> write_metaindex z posix_ops (r\<lparr>tb_closed := True\<rparr>);
      (ih, r3) \<leftarrow> write_index z posix_ops r2;
      let r4 = write_footer posix_ops \<lparr>metaindex_handle = mh, index_handle = ih\<rparr> r3 in Some (tb_status r4, r4) }) =
      Some (tb_status r4, r4)" using m(1) i(1) by (simp add: r4_def ft_def Let_def)
    show ?thesis
    proof (cases "tb_failed r3 \<or> tb_failed r4")
      case True
      then have "tb_failed r4" using finish_failed(3) by (auto simp: r4_def)
      with run show ?thesis by blast
    next
      case False
      then have w3: "tb_written r2 (stored_block c t) r3" "ih = handle_of (fs @ [m, (ys', irs', c, t)]) (Suc (length fs))"
        using i(5) by auto
      then have w4: "tb_written r3 (Footer_EncodeTo ft []) r4"
        using footer_cases [of r3 ft] False by (auto simp: tb_written_def r4_def)
      let ?fs = "fs @ [m, (ys', irs', c, t)]"
      have fs: "\<forall>s \<in> set fs. stored_ok z s" "pwf_data (tb_file r) = file_of fs" "length fs \<le> N"
        using inv blocks_nonempty_length [of fs] by (auto simp: tb_inv_def tb_file_ok_def tb_entries_ok_def)
      have "pwf_data (tb_file r4) = file_of ?fs @ Footer_EncodeTo ft []"
        using w2(1) w3(1) w4 fs(2) by (simp add: tb_written_def file_of_def)
      moreover have "length (file_of ?fs) < 2 ^ 64"
      proof -
        have bound: "length (file_of ?fs) \<le> length ?fs * (2 ^ 32 + 4)" by (rule file_of_bound) (use fs(1) m(2) i(2) in auto)
        have "N * 64 \<le> N * (K + 64)" by simp
        moreover have "64 + K + N * (K + 64) < 2 ^ 32" using lim by (simp add: limits_def)
        ultimately have "N * 64 < 2 ^ 32" by linarith
        then have "length ?fs \<le> 2 ^ 26 + 2" using fs(3) by simp
        then have "length ?fs * (2 ^ 32 + 4) \<le> (2 ^ 26 + 2) * (2 ^ 32 + 4)" by (rule mult_le_mono1)
        with bound show ?thesis by simp
      qed
      moreover have "ft = \<lparr>metaindex_handle = handle_of ?fs (length fs), index_handle = handle_of ?fs (Suc (length fs))\<rparr>"
        using w2(2) w3(2) by (simp add: ft_def)
      ultimately have "table_written z fs ys' (pwf_data (tb_file r4))"
        unfolding table_written_def using m(2) i(2-4) fs(1) by blast
      moreover have "tb_status r4 = OK" using w4 by (simp add: tb_written_def)
      ultimately show ?thesis using run by blast
    qed
  qed
qed

lemma length_concat_nonempty: "\<forall>x \<in> set xs. f x \<noteq> [] \<Longrightarrow> length xs \<le> length (concat (map f xs))"
proof (induction xs)
  case (Cons x xs)
  then show ?case by (cases "f x") auto
qed simp

lemma Finish_spec:
  assumes z: "snappy_ok z" and lim: "limits opt K V N" and st: "tb_state z opt K V N es r"
  shows "\<exists>r'. TableBuilder_Finish z posix_ops r = Some (tb_status r', r') \<and>
    (tb_failed r' \<or> tb_status r' = OK \<and> (\<exists>fs ys. table_written z fs ys (pwf_data (tb_file r')) \<and> table_entries fs = es \<and> length fs \<le> length es))"
proof -
  obtain r1 where r1: "TableBuilder_Flush z posix_ops r = Some r1"
      "tb_failed r1 \<or> (\<exists>fs ys irs. tb_inv z opt K V N fs [] [0] ys irs r1 \<and> table_entries fs = es)"
  proof (cases "tb_failed r")
    case True
    then show ?thesis using that by (simp add: TableBuilder_Flush_def tb_failed_def)
  next
    case False
    then obtain fs xs rs ys irs where inv: "tb_inv z opt K V N fs xs rs ys irs r" "tb_entries fs xs = es"
        "length (enc_block xs rs) \<le> max 8 (block_size opt)"
      using st by (auto simp: tb_state_def)
    have "length (enc_block xs rs) < 2 ^ 32" using lim inv(3) by (auto simp: limits_def max_def split: if_splits)
    then show ?thesis using that Flush_spec [OF z inv(1)] inv(2) by fastforce
  qed
  show ?thesis
  proof (cases "tb_failed r1")
    case True
    then show ?thesis
      using r1(1) finish_failed [of "r1\<lparr>tb_closed := True\<rparr>"] by (auto simp: TableBuilder_Finish_def)
  next
    case False
    then obtain fs ys irs where inv: "tb_inv z opt K V N fs [] [0] ys irs r1" "table_entries fs = es" using r1(2) by blast
    have "\<forall>s \<in> set fs. stored_entries s \<noteq> []" using inv(1) by (simp add: tb_inv_def tb_file_ok_def)
    then have "length fs \<le> length es" using length_concat_nonempty [of fs stored_entries] inv(2) by simp
    then show ?thesis using finish_tail [OF z lim inv(1)] r1(1) inv(2) by (auto simp: TableBuilder_Finish_def)
  qed
qed

section \<open>Properties\<close>

definition build_table :: "Snappy \<Rightarrow> Options \<Rightarrow> (bytes \<times> bytes) list \<Rightarrow> PosixWritableFile \<Rightarrow> (status \<times> PosixWritableFile TableBuilder) option" where
  "build_table z opt es f = add_all z es (TableBuilder_new opt f) \<bind> TableBuilder_Finish z posix_ops"

lemma build_table_spec:
  assumes "snappy_ok z" "limits opt K V N" "tb_entries_ok K V N es" "pwf_open f" "pwf_data f = []"
  shows "\<exists>r. build_table z opt es f = Some (tb_status r, r) \<and>
    (tb_failed r \<or> tb_status r = OK \<and>
      (\<exists>fs ies t. Table_Open z in_place (pwf_data (tb_file r)) (length (pwf_data (tb_file r))) = Inr t \<and>
         table_on z fs ies t \<and> table_entries fs = es \<and> length fs \<le> length es))"
proof -
  have "tb_state z opt K V N [] (TableBuilder_new opt f)"
    by (rule tb_stateI [OF tb_inv_new [OF assms(4,5)]]) (simp_all add: empty_block_size)
  from add_all_spec [OF assms(1,2) this, of es] obtain r1 where
    r1: "add_all z es (TableBuilder_new opt f) = Some r1" "tb_state z opt K V N es r1" using assms(3) by auto
  obtain r where r: "TableBuilder_Finish z posix_ops r1 = Some (tb_status r, r)"
      "tb_failed r \<or> tb_status r = OK \<and> (\<exists>fs ys. table_written z fs ys (pwf_data (tb_file r)) \<and> table_entries fs = es \<and> length fs \<le> length es)"
    using Finish_spec [OF assms(1,2) r1(2)] by blast
  have "build_table z opt es f = Some (tb_status r, r)" by (simp add: build_table_def r1(1) r(1))
  moreover have "\<exists>fs ies t. Table_Open z in_place (pwf_data (tb_file r)) (length (pwf_data (tb_file r))) = Inr t \<and>
         table_on z fs ies t \<and> table_entries fs = es \<and> length fs \<le> length es" if "\<not> tb_failed r"
    using that r(2) Table_Open_written [of z _ _ "pwf_data (tb_file r)" in_place] by metis
  ultimately show ?thesis using r(2) by blast
qed

text \<open>An environment with no snappy, small options and three entries in two blocks, for the witnesses.\<close>

definition no_snappy :: Snappy where
  "no_snappy = \<lparr>Snappy_Compress = (\<lambda>_. None), Snappy_GetUncompressedLength = (\<lambda>_. None), Snappy_Uncompress = (\<lambda>_. None)\<rparr>"

definition small_options :: Options where
  "small_options = \<lparr>block_size = 24, block_restart_interval = 2, compression = kSnappyCompression\<rparr>"

definition some_entries :: "(bytes \<times> bytes) list" where
  "some_entries = [([1, 2], [10, 11, 12]), ([1, 2, 3], [20, 21, 22]), ([1, 4], [30])]"

definition empty_file :: PosixWritableFile where
  "empty_file = \<lparr>pwf_data = [], pwf_room = 1000, pwf_open = True, pwf_fflush_ok = True, pwf_fclose_ok = True\<rparr>"

lemma small_setup:
  "snappy_ok no_snappy" "limits small_options 4 4 4" "tb_entries_ok 4 4 4 some_entries" "pwf_open empty_file" "pwf_data empty_file = []"
  by (simp_all add: snappy_ok_def no_snappy_def limits_def small_options_def tb_entries_ok_def some_entries_def
      sorted_entries_def empty_file_def)

text \<open>C25: A table of sorted entries that \<^verbatim>\<open>TableBuilder\<close> finished without an error is opened again by
  \<^verbatim>\<open>Table::Open\<close>; iterating from the first entry gives exactly the entries that were added, in
  order, and iterating from any key gives those that are not below it. Building fails only when
  the disk is full, and no operation on the way reads outside its buffer or runs forever. Blocks
  are compressed or not, restart points and block boundaries fall where the options put them.\<close>

theorem table_is_read_back:
  assumes "snappy_ok z" "limits opt K V N" "tb_entries_ok K V N es" "pwf_open f" "pwf_data f = []"
  shows "\<exists>s r. build_table z opt es f = Some (s, r) \<and>
    (s = Some (IOError ''fwrite'') \<and> pwf_room (tb_file r) = 0 \<or>
     s = OK \<and> (\<exists>t it0. Table_Open z in_place (pwf_data (tb_file r)) (length (pwf_data (tb_file r))) = Inr t \<and>
       Table_NewIterator t = Some it0 \<and>
       (\<exists>it1 it2. op_SeekToFirst (table_iterator z in_place t) it0 = Some it1 \<and>
          read_entries (table_iterator z in_place t) it1 = Some (es, it2) \<and> op_status (table_iterator z in_place t) it2 = OK) \<and>
       (\<forall>k. \<exists>it1 it2. op_Seek (table_iterator z in_place t) k it0 = Some it1 \<and>
          read_entries (table_iterator z in_place t) it1 = Some (dropWhile (\<lambda>e. fst e < k) es, it2) \<and>
          op_status (table_iterator z in_place t) it2 = OK)))"
proof -
  obtain r where r: "build_table z opt es f = Some (tb_status r, r)"
    "tb_failed r \<or> tb_status r = OK \<and>
      (\<exists>fs ies t. Table_Open z in_place (pwf_data (tb_file r)) (length (pwf_data (tb_file r))) = Inr t \<and>
         table_on z fs ies t \<and> table_entries fs = es)"
    using build_table_spec [OF assms, of in_place] by blast
  show ?thesis
  proof (cases "tb_failed r")
    case True
    then show ?thesis using r(1) by (auto simp: tb_failed_def)
  next
    case False
    then obtain fs ies t where t: "Table_Open z in_place (pwf_data (tb_file r)) (length (pwf_data (tb_file r))) = Inr t"
        "table_on z fs ies t" "table_entries fs = es" "tb_status r = OK" using r(2) by blast
    obtain it0 where it0: "Table_NewIterator t = Some it0"
        "tl_source block_source block_source (BlockReader z in_place t) it0 es"
      using table_iterates [OF t(2), of in_place] t(3) by auto
    note R = table_iter.table.read_all [OF it0(2)] table_iter.table.read_from_key [OF it0(2)]
    show ?thesis
      using r(1) t(1,4) it0(1) R unfolding table_iterator_def by auto
  qed
qed

theorem table_is_read_back_witness:
  "\<exists>s r. build_table no_snappy small_options some_entries empty_file = Some (s, r) \<and>
    (s = Some (IOError ''fwrite'') \<and> pwf_room (tb_file r) = 0 \<or>
     s = OK \<and> (\<exists>t it0. Table_Open no_snappy False (pwf_data (tb_file r)) (length (pwf_data (tb_file r))) = Inr t \<and>
       Table_NewIterator t = Some it0 \<and>
       (\<exists>it1 it2. op_SeekToFirst (table_iterator no_snappy False t) it0 = Some it1 \<and>
          read_entries (table_iterator no_snappy False t) it1 = Some (some_entries, it2) \<and>
          op_status (table_iterator no_snappy False t) it2 = OK)))"
  using table_is_read_back [OF small_setup, of False] by blast

text \<open>C26: Looking a key up in a table that was built from sorted entries reports no error and passes
  the entry with that key to the caller, if there is one; if there is none, the caller gets at
  most an entry with a larger key. The table exists unless the disk was full.\<close>

theorem table_lookup:
  assumes "snappy_ok z" "limits opt K V N" "tb_entries_ok K V N es" "pwf_open f" "pwf_data f = []"
  shows "\<exists>s r. build_table z opt es f = Some (s, r) \<and>
    (s = Some (IOError ''fwrite'') \<and> pwf_room (tb_file r) = 0 \<or>
     s = OK \<and> (\<exists>t found. Table_Open z in_place (pwf_data (tb_file r)) (length (pwf_data (tb_file r))) = Inr t \<and>
       InternalGet z in_place t k = Some (OK, found) \<and>
       (\<forall>v. (k, v) \<in> set es \<longrightarrow> found = Some (k, v)) \<and> (\<forall>e. found = Some e \<longrightarrow> e \<in> set es \<and> k \<le> fst e)))"
proof -
  obtain r where r: "build_table z opt es f = Some (tb_status r, r)"
    "tb_failed r \<or> tb_status r = OK \<and>
      (\<exists>fs ies t. Table_Open z in_place (pwf_data (tb_file r)) (length (pwf_data (tb_file r))) = Inr t \<and>
         table_on z fs ies t \<and> table_entries fs = es)"
    using build_table_spec [OF assms, of in_place] by blast
  show ?thesis
  proof (cases "tb_failed r")
    case True
    then show ?thesis using r(1) by (auto simp: tb_failed_def)
  next
    case False
    then obtain fs ies t where t: "Table_Open z in_place (pwf_data (tb_file r)) (length (pwf_data (tb_file r))) = Inr t"
        "table_on z fs ies t" "table_entries fs = es" "tb_status r = OK" using r(2) by blast
    then show ?thesis using r(1) InternalGet_spec [OF t(2), of in_place k] by auto
  qed
qed

theorem table_lookup_witness:
  "\<exists>s r. build_table no_snappy small_options some_entries empty_file = Some (s, r) \<and>
    (s = Some (IOError ''fwrite'') \<and> pwf_room (tb_file r) = 0 \<or>
     s = OK \<and> (\<exists>t. Table_Open no_snappy True (pwf_data (tb_file r)) (length (pwf_data (tb_file r))) = Inr t \<and>
       InternalGet no_snappy True t [1, 2, 3] = Some (OK, Some ([1, 2, 3], [20, 21, 22]))))"
proof -
  have "([1, 2, 3], [20, 21, 22]) \<in> set some_entries" by (simp add: some_entries_def)
  with table_lookup [OF small_setup, of True "[1, 2, 3]"] show ?thesis by blast
qed

text \<open>C27: If up to four consecutive bytes of a stored block or of its type are replaced by others,
  reading the block reports data loss, whatever surrounds it in the file.\<close>

theorem damaged_block_is_data_loss:
  assumes "c @ [t] = a @ x @ b" "length y = length x" "length x \<le> 4" "x \<noteq> y" "length c + 5 < 2 ^ 64"
    and "unat (bh_offset h) = length pre" "unat (bh_size h) = length c"
  shows "ReadBlock z in_place (pre @ (a @ y @ b) @ drop (length c + 1) (stored_block c t) @ post) h =
    Inl (DataLoss ''block checksum mismatch'')"
proof -
  let ?crc = "Mask (Extend None 0 (Value None 0 c) [t])"
  let ?d = "(a @ y @ b) @ EncodeFixed32 kLittleEndian ?crc"
  have trailer: "drop (length c + 1) (stored_block c t) = EncodeFixed32 kLittleEndian ?crc" by (simp add: stored_block_def)
  have len: "length (a @ y @ b) = length c + 1" using assms(1,2) by (metis length_append length_append_singleton Suc_eq_plus1)
  then have d: "length ?d = length c + 5" "take (length c + 1) ?d = a @ y @ b"
      "drop (length c + 1) ?d = EncodeFixed32 kLittleEndian ?crc @ []" by simp_all
  have "nat (int (length c + 5)) = length c + 5" "nat (int (length pre)) = length pre" by linarith+
  then have read: "RandomAccessFile_Read (pre @ (a @ y @ b) @ EncodeFixed32 kLittleEndian ?crc @ post) (int (length pre)) (int (length c + 5)) = (OK, ?d)"
    using d(1) by (simp add: RandomAccessFile_Read_def Let_def)
  have "Value None 0 (a @ y @ b) \<noteq> Value None 0 (a @ x @ b)"
    using assms(2-4) by (simp add: Value_def Extend_None crc_burst)
  then have crc: "Value None 0 (a @ y @ b) \<noteq> Extend None 0 (Value None 0 c) [t]"
    unfolding assms(1) [symmetric] by (simp add: Value_def Extend_None crc_extend_append)
  have k: "kBlockTrailerSize = 5" "\<not> 5 > (2 ^ 64 - 1) - length c" using assms(5) by (simp_all add: kBlockTrailerSize_def)
  show ?thesis
    unfolding ReadBlock_def trailer assms(6,7) k(1) Let_def read prod.case option.case d DecodeFixed32_EncodeFixed32 Unmask_Mask
    using k(2) crc by simp
qed

theorem damaged_block_is_data_loss_witness:
  "ReadBlock no_snappy False ([] @ ([5] @ [9] @ [7, 0]) @ drop (length [5, 6, 7 :: byte] + 1) (stored_block [5, 6, 7] 0) @ [])
     \<lparr>bh_offset = 0, bh_size = 3\<rparr> = Inl (DataLoss ''block checksum mismatch'')"
  by (rule damaged_block_is_data_loss [where x = "[6]"]) simp_all

text \<open>
  The bound check of \<^verbatim>\<open>DecodeEntry\<close> adds two 32-bit lengths, which can wrap around: an entry is
  accepted although its key reaches beyond the block.
\<close>

lemma DecodeEntry_accepts_overlong_key:
  "DecodeEntry [0, 255, 255, 255, 255, 15, 1] = Some (0, 4294967295, 1, [])"
  by code_simp

end
