(* ===== verification/LRUCache.thy ===== *)
theory LRUCache
  imports Coding "HOL-Library.Monad_Syntax"
begin

unbundle bit_operations_syntax

text \<open>
  The cache of table blocks (\<^verbatim>\<open>core/lib/io/cache.cc\<close>): reference-counted handles on two circular
  doubly linked lists, a hash table with chains through the handles, one shard of the cache and the
  sharded cache.

  Handles are objects in a heap that is split by field: \<^term>\<open>handles\<close> holds the data of a handle,
  and one partial map per pointer field holds its links. A field that was not written yet, or whose
  object was freed, has no value, so that reading it gives \<open>None\<close>; so does a null dereference and a
  failed \<^verbatim>\<open>assert\<close>. The two list heads are objects inside the cache. The address that \<^verbatim>\<open>malloc\<close>
  returns is an argument of the insertion. Calls of a deleter are recorded in order.
\<close>

section \<open>Handles and the heap\<close>

datatype ptr = Null | LruHead | InUseHead | Ptr nat

record ('v, 'd) LRUHandle =
  lh_value :: 'v
  lh_deleter :: 'd
  lh_charge :: u64
  lh_in_cache :: bool
  lh_refs :: u32
  lh_hash :: u32
  lh_key :: bytes

record ('v, 'd) Heap =
  handles :: "ptr \<rightharpoonup> ('v, 'd) LRUHandle"
  next_of :: "ptr \<rightharpoonup> ptr"
  prev_of :: "ptr \<rightharpoonup> ptr"
  next_hash_of :: "ptr \<rightharpoonup> ptr"

definition allocated :: "('v, 'd) Heap \<Rightarrow> ptr \<Rightarrow> bool" where
  "allocated H p \<longleftrightarrow> p = LruHead \<or> p = InUseHead \<or> handles H p \<noteq> None"

definition set_next :: "ptr \<Rightarrow> ptr \<Rightarrow> ('v, 'd) Heap \<Rightarrow> ('v, 'd) Heap option" where
  "set_next p q H = (if allocated H p then Some (H\<lparr>next_of := (next_of H)(p \<mapsto> q)\<rparr>) else None)"

definition set_prev :: "ptr \<Rightarrow> ptr \<Rightarrow> ('v, 'd) Heap \<Rightarrow> ('v, 'd) Heap option" where
  "set_prev p q H = (if allocated H p then Some (H\<lparr>prev_of := (prev_of H)(p \<mapsto> q)\<rparr>) else None)"

definition set_next_hash :: "ptr \<Rightarrow> ptr \<Rightarrow> ('v, 'd) Heap \<Rightarrow> ('v, 'd) Heap option" where
  "set_next_hash p q H = (if allocated H p then Some (H\<lparr>next_hash_of := (next_hash_of H)(p \<mapsto> q)\<rparr>) else None)"

definition upd_handle ::
  "ptr \<Rightarrow> (('v, 'd) LRUHandle \<Rightarrow> ('v, 'd) LRUHandle) \<Rightarrow> ('v, 'd) Heap \<Rightarrow> ('v, 'd) Heap option" where
  "upd_handle p f H = (case handles H p of None \<Rightarrow> None | Some x \<Rightarrow> Some (H\<lparr>handles := (handles H)(p \<mapsto> f x)\<rparr>))"

text \<open>A new object at an unused address; its three links are not initialised.\<close>

fun malloc_handle :: "ptr \<Rightarrow> ('v, 'd) LRUHandle \<Rightarrow> ('v, 'd) Heap \<Rightarrow> ('v, 'd) Heap option" where
  "malloc_handle (Ptr n) x H =
     (if handles H (Ptr n) = None
      then Some \<lparr>handles = (handles H)(Ptr n \<mapsto> x), next_of = (next_of H)(Ptr n := None),
                 prev_of = (prev_of H)(Ptr n := None), next_hash_of = (next_hash_of H)(Ptr n := None)\<rparr>
      else None)"
| "malloc_handle _ x H = None"

definition free_handle :: "ptr \<Rightarrow> ('v, 'd) Heap \<Rightarrow> ('v, 'd) Heap" where
  "free_handle p H =
     \<lparr>handles = (handles H)(p := None), next_of = (next_of H)(p := None), prev_of = (prev_of H)(p := None),
      next_hash_of = (next_hash_of H)(p := None)\<rparr>"

definition LRUHandle_key :: "('v, 'd) Heap \<Rightarrow> ptr \<Rightarrow> bytes option" where
  "LRUHandle_key H p = do {
     x \<leftarrow> handles H p;
     n \<leftarrow> next_of H p;
     if n = p then None else Some (lh_key x) }"

section \<open>HandleTable\<close>

record HandleTable =
  ht_length :: u32
  ht_elems :: u32
  ht_list :: "ptr list"

text \<open>The places that \<^verbatim>\<open>LRUHandle**\<close> points to: an array element or the link of a handle.\<close>

datatype slot = Bucket nat | NextHash ptr

fun load_slot :: "HandleTable \<Rightarrow> ('v, 'd) Heap \<Rightarrow> slot \<Rightarrow> ptr option" where
  "load_slot T H (Bucket i) = (if i < length (ht_list T) then Some (ht_list T ! i) else None)"
| "load_slot T H (NextHash p) = next_hash_of H p"

fun store_slot :: "slot \<Rightarrow> ptr \<Rightarrow> HandleTable \<Rightarrow> ('v, 'd) Heap \<Rightarrow> (HandleTable \<times> ('v, 'd) Heap) option" where
  "store_slot (Bucket i) q T H =
     (if i < length (ht_list T) then Some (T\<lparr>ht_list := (ht_list T)[i := q]\<rparr>, H) else None)"
| "store_slot (NextHash p) q T H = map_option (\<lambda>H'. (T, H')) (set_next_hash p q H)"

partial_function (option) FindLoop :: "HandleTable \<Rightarrow> ('v, 'd) Heap \<Rightarrow> bytes \<Rightarrow> u32 \<Rightarrow> slot \<Rightarrow> slot option" where
  "FindLoop T H key hash s = do {
     p \<leftarrow> load_slot T H s;
     if p = Null then Some s
     else do {
       x \<leftarrow> handles H p;
       k \<leftarrow> (if lh_hash x \<noteq> hash then Some [] else LRUHandle_key H p);
       if lh_hash x \<noteq> hash \<or> key \<noteq> k then FindLoop T H key hash (NextHash p) else Some s } }"

definition FindPointer :: "HandleTable \<Rightarrow> ('v, 'd) Heap \<Rightarrow> bytes \<Rightarrow> u32 \<Rightarrow> slot option" where
  "FindPointer T H key hash = FindLoop T H key hash (Bucket (unat (hash AND (ht_length T - 1))))"

definition HT_Lookup :: "HandleTable \<Rightarrow> ('v, 'd) Heap \<Rightarrow> bytes \<Rightarrow> u32 \<Rightarrow> ptr option" where
  "HT_Lookup T H key hash = FindPointer T H key hash \<bind> load_slot T H"

partial_function (option) NewLength :: "u32 \<Rightarrow> u32 \<Rightarrow> u32 option" where
  "NewLength elems new_length =
     (if new_length < elems then NewLength elems (new_length * 2) else Some new_length)"

partial_function (option) RehashChain ::
  "u32 \<Rightarrow> ptr \<Rightarrow> ('v, 'd) Heap \<Rightarrow> ptr list \<Rightarrow> u32 \<Rightarrow> (('v, 'd) Heap \<times> ptr list \<times> u32) option" where
  "RehashChain new_length h H new_list count =
     (if h = Null then Some (H, new_list, count)
      else do {
        nxt \<leftarrow> next_hash_of H h;
        x \<leftarrow> handles H h;
        let i = unat (lh_hash x AND (new_length - 1));
        if i < length new_list then do {
          H' \<leftarrow> set_next_hash h (new_list ! i) H;
          RehashChain new_length nxt H' (new_list[i := h]) (count + 1) }
        else None })"

fun RehashBuckets ::
  "u32 \<Rightarrow> ptr list \<Rightarrow> ('v, 'd) Heap \<Rightarrow> ptr list \<Rightarrow> u32 \<Rightarrow> (('v, 'd) Heap \<times> ptr list \<times> u32) option" where
  "RehashBuckets new_length [] H new_list count = Some (H, new_list, count)"
| "RehashBuckets new_length (h # hs) H new_list count = do {
     (H', new_list', count') \<leftarrow> RehashChain new_length h H new_list count;
     RehashBuckets new_length hs H' new_list' count' }"

definition HT_Resize :: "HandleTable \<Rightarrow> ('v, 'd) Heap \<Rightarrow> (HandleTable \<times> ('v, 'd) Heap) option" where
  "HT_Resize T H = do {
     new_length \<leftarrow> NewLength (ht_elems T) 4;
     (H', new_list, count) \<leftarrow> RehashBuckets new_length (ht_list T) H (replicate (unat new_length) Null) 0;
     if ht_elems T = count then Some (T\<lparr>ht_length := new_length, ht_list := new_list\<rparr>, H') else None }"

definition HandleTable_new :: "('v, 'd) Heap \<Rightarrow> (HandleTable \<times> ('v, 'd) Heap) option" where
  "HandleTable_new H = HT_Resize \<lparr>ht_length = 0, ht_elems = 0, ht_list = []\<rparr> H"

definition HT_Insert :: "ptr \<Rightarrow> HandleTable \<Rightarrow> ('v, 'd) Heap \<Rightarrow> (ptr \<times> HandleTable \<times> ('v, 'd) Heap) option" where
  "HT_Insert h T H = do {
     x \<leftarrow> handles H h;
     key \<leftarrow> LRUHandle_key H h;
     s \<leftarrow> FindPointer T H key (lh_hash x);
     old \<leftarrow> load_slot T H s;
     nh \<leftarrow> (if old = Null then Some Null else next_hash_of H old);
     H1 \<leftarrow> set_next_hash h nh H;
     (T1, H2) \<leftarrow> store_slot s h T H1;
     if old = Null then
       let T2 = T1\<lparr>ht_elems := ht_elems T1 + 1\<rparr> in
       if ht_length T2 < ht_elems T2 then map_option (Pair old) (HT_Resize T2 H2) else Some (old, T2, H2)
     else Some (old, T1, H2) }"

definition HT_Remove ::
  "bytes \<Rightarrow> u32 \<Rightarrow> HandleTable \<Rightarrow> ('v, 'd) Heap \<Rightarrow> (ptr \<times> HandleTable \<times> ('v, 'd) Heap) option" where
  "HT_Remove key hash T H = do {
     s \<leftarrow> FindPointer T H key hash;
     result \<leftarrow> load_slot T H s;
     if result = Null then Some (result, T, H)
     else do {
       nh \<leftarrow> next_hash_of H result;
       (T1, H1) \<leftarrow> store_slot s nh T H;
       Some (result, T1\<lparr>ht_elems := ht_elems T1 - 1\<rparr>, H1) } }"

section \<open>One shard\<close>

record ('v, 'd) LRUCache =
  capacity :: u64
  usage :: u64
  heap :: "('v, 'd) Heap"
  table :: HandleTable
  deleted :: "('d \<times> bytes \<times> 'v) list"

definition empty_lists :: "('v, 'd) Heap" where
  "empty_lists = \<lparr>handles = Map.empty, next_of = [LruHead \<mapsto> LruHead, InUseHead \<mapsto> InUseHead],
     prev_of = [LruHead \<mapsto> LruHead, InUseHead \<mapsto> InUseHead], next_hash_of = Map.empty\<rparr>"

definition LRUCache_new :: "('v, 'd) LRUCache option" where
  "LRUCache_new = do {
     (T, H) \<leftarrow> HandleTable_new empty_lists;
     Some \<lparr>capacity = 0, usage = 0, heap = H, table = T, deleted = []\<rparr> }"

definition SetCapacity :: "u64 \<Rightarrow> ('v, 'd) LRUCache \<Rightarrow> ('v, 'd) LRUCache" where
  "SetCapacity n c = c\<lparr>capacity := n\<rparr>"

definition TotalCharge :: "('v, 'd) LRUCache \<Rightarrow> u64" where
  "TotalCharge c = usage c"

definition LRU_Remove :: "ptr \<Rightarrow> ('v, 'd) Heap \<Rightarrow> ('v, 'd) Heap option" where
  "LRU_Remove e H = do {
     n \<leftarrow> next_of H e;
     p \<leftarrow> prev_of H e;
     H1 \<leftarrow> set_prev n p H;
     p1 \<leftarrow> prev_of H1 e;
     n1 \<leftarrow> next_of H1 e;
     set_next p1 n1 H1 }"

definition LRU_Append :: "ptr \<Rightarrow> ptr \<Rightarrow> ('v, 'd) Heap \<Rightarrow> ('v, 'd) Heap option" where
  "LRU_Append l e H = do {
     H1 \<leftarrow> set_next e l H;
     p \<leftarrow> prev_of H1 l;
     H2 \<leftarrow> set_prev e p H1;
     p1 \<leftarrow> prev_of H2 e;
     H3 \<leftarrow> set_next p1 e H2;
     n \<leftarrow> next_of H3 e;
     set_prev n e H3 }"

definition LRU_Ref :: "ptr \<Rightarrow> ('v, 'd) LRUCache \<Rightarrow> ('v, 'd) LRUCache option" where
  "LRU_Ref e c = do {
     x \<leftarrow> handles (heap c) e;
     H1 \<leftarrow> (if lh_refs x = 1 \<and> lh_in_cache x then LRU_Remove e (heap c) \<bind> LRU_Append InUseHead e
            else Some (heap c));
     H2 \<leftarrow> upd_handle e (\<lambda>x. x\<lparr>lh_refs := lh_refs x + 1\<rparr>) H1;
     Some (c\<lparr>heap := H2\<rparr>) }"

definition LRU_Unref :: "ptr \<Rightarrow> ('v, 'd) LRUCache \<Rightarrow> ('v, 'd) LRUCache option" where
  "LRU_Unref e c = do {
     x \<leftarrow> handles (heap c) e;
     if lh_refs x = 0 then None
     else do {
       H1 \<leftarrow> upd_handle e (\<lambda>x. x\<lparr>lh_refs := lh_refs x - 1\<rparr>) (heap c);
       if lh_refs x - 1 = 0 then
         if lh_in_cache x then None
         else do {
           k \<leftarrow> LRUHandle_key H1 e;
           Some (c\<lparr>heap := free_handle e H1, deleted := deleted c @ [(lh_deleter x, k, lh_value x)]\<rparr>) }
       else if lh_in_cache x \<and> lh_refs x - 1 = 1 then do {
         H2 \<leftarrow> LRU_Remove e H1 \<bind> LRU_Append LruHead e;
         Some (c\<lparr>heap := H2\<rparr>) }
       else Some (c\<lparr>heap := H1\<rparr>) } }"

definition LRU_Lookup :: "bytes \<Rightarrow> u32 \<Rightarrow> ('v, 'd) LRUCache \<Rightarrow> (ptr \<times> ('v, 'd) LRUCache) option" where
  "LRU_Lookup key hash c = do {
     e \<leftarrow> HT_Lookup (table c) (heap c) key hash;
     if e \<noteq> Null then map_option (Pair e) (LRU_Ref e c) else Some (e, c) }"

definition LRU_Release :: "ptr \<Rightarrow> ('v, 'd) LRUCache \<Rightarrow> ('v, 'd) LRUCache option" where
  "LRU_Release handle c = LRU_Unref handle c"

definition FinishErase :: "ptr \<Rightarrow> ('v, 'd) LRUCache \<Rightarrow> (bool \<times> ('v, 'd) LRUCache) option" where
  "FinishErase e c =
     (if e = Null then Some (False, c)
      else do {
        x \<leftarrow> handles (heap c) e;
        if \<not> lh_in_cache x then None
        else do {
          H1 \<leftarrow> LRU_Remove e (heap c);
          H2 \<leftarrow> upd_handle e (\<lambda>x. x\<lparr>lh_in_cache := False\<rparr>) H1;
          map_option (Pair True) (LRU_Unref e (c\<lparr>heap := H2, usage := usage c - lh_charge x\<rparr>)) } })"

definition remove_and_finish :: "bytes \<Rightarrow> u32 \<Rightarrow> ('v, 'd) LRUCache \<Rightarrow> (bool \<times> ('v, 'd) LRUCache) option" where
  "remove_and_finish key hash c = do {
     (e, T, H) \<leftarrow> HT_Remove key hash (table c) (heap c);
     FinishErase e (c\<lparr>table := T, heap := H\<rparr>) }"

text \<open>The common body of the loops of \<^verbatim>\<open>Insert\<close> and \<^verbatim>\<open>Prune\<close>, which drops the oldest unused entry.\<close>

definition drop_oldest :: "ptr \<Rightarrow> ('v, 'd) LRUCache \<Rightarrow> ('v, 'd) LRUCache option" where
  "drop_oldest old c = do {
     x \<leftarrow> handles (heap c) old;
     if lh_refs x \<noteq> 1 then None
     else do {
       key \<leftarrow> LRUHandle_key (heap c) old;
       (erased, c1) \<leftarrow> remove_and_finish key (lh_hash x) c;
       if erased then Some c1 else None } }"

partial_function (option) EvictLoop :: "('v, 'd) LRUCache \<Rightarrow> ('v, 'd) LRUCache option" where
  "EvictLoop c = do {
     old \<leftarrow> next_of (heap c) LruHead;
     if capacity c < usage c \<and> old \<noteq> LruHead then drop_oldest old c \<bind> EvictLoop else Some c }"

definition LRU_Insert ::
  "ptr \<Rightarrow> bytes \<Rightarrow> u32 \<Rightarrow> 'v \<Rightarrow> u64 \<Rightarrow> 'd \<Rightarrow> ('v, 'd) LRUCache \<Rightarrow> (ptr \<times> ('v, 'd) LRUCache) option" where
  "LRU_Insert e key hash v charge deleter c = do {
     H1 \<leftarrow> malloc_handle e \<lparr>lh_value = v, lh_deleter = deleter, lh_charge = charge, lh_in_cache = False,
             lh_refs = 1, lh_hash = hash, lh_key = key\<rparr> (heap c);
     c1 \<leftarrow>
       (if 0 < capacity c then do {
          H2 \<leftarrow> upd_handle e (\<lambda>x. x\<lparr>lh_refs := lh_refs x + 1\<rparr>) H1;
          H3 \<leftarrow> upd_handle e (\<lambda>x. x\<lparr>lh_in_cache := True\<rparr>) H2;
          H4 \<leftarrow> LRU_Append InUseHead e H3;
          (old, T, H5) \<leftarrow> HT_Insert e (table c) H4;
          map_option snd (FinishErase old (c\<lparr>heap := H5, table := T, usage := usage c + charge\<rparr>)) }
        else do {
          H2 \<leftarrow> set_next e Null H1;
          Some (c\<lparr>heap := H2\<rparr>) });
     map_option (Pair e) (EvictLoop c1) }"

definition LRU_Erase :: "bytes \<Rightarrow> u32 \<Rightarrow> ('v, 'd) LRUCache \<Rightarrow> ('v, 'd) LRUCache option" where
  "LRU_Erase key hash c = map_option snd (remove_and_finish key hash c)"

partial_function (option) LRU_Prune :: "('v, 'd) LRUCache \<Rightarrow> ('v, 'd) LRUCache option" where
  "LRU_Prune c = do {
     e \<leftarrow> next_of (heap c) LruHead;
     if e \<noteq> LruHead then drop_oldest e c \<bind> LRU_Prune else Some c }"

partial_function (option) DestroyLoop :: "ptr \<Rightarrow> ('v, 'd) LRUCache \<Rightarrow> ('v, 'd) LRUCache option" where
  "DestroyLoop e c =
     (if e = LruHead then Some c
      else do {
        nxt \<leftarrow> next_of (heap c) e;
        x \<leftarrow> handles (heap c) e;
        if \<not> lh_in_cache x \<or> lh_refs x \<noteq> 1 then None
        else do {
          H1 \<leftarrow> upd_handle e (\<lambda>x. x\<lparr>lh_in_cache := False\<rparr>) (heap c);
          LRU_Unref e (c\<lparr>heap := H1\<rparr>) \<bind> DestroyLoop nxt } })"

definition LRUCache_delete :: "('v, 'd) LRUCache \<Rightarrow> ('v, 'd) LRUCache option" where
  "LRUCache_delete c = do {
     n \<leftarrow> next_of (heap c) InUseHead;
     if n \<noteq> InUseHead then None
     else next_of (heap c) LruHead \<bind> (\<lambda>e. DestroyLoop e c) }"

section \<open>The sharded cache\<close>

text \<open>
  The heap is kept as one part per shard: a handle is allocated in the part of the shard that
  inserted it.
\<close>

definition kNumShardBits :: nat where
  "kNumShardBits = 4"

definition kNumShards :: nat where
  "kNumShards = 2 ^ kNumShardBits"

record ('v, 'd) ShardedLRUCache =
  shard :: "('v, 'd) LRUCache list"
  last_id :: u64

definition HashRest :: "u32 \<Rightarrow> bytes \<Rightarrow> u32" where
  "HashRest h data =
     (let m = 0xc6a4a793;
          h1 = (if length data = 3 then h + push_bit 16 (ucast (data ! 2)) else h);
          h2 = (if length data \<in> {2, 3} then h1 + push_bit 8 (ucast (data ! 1)) else h1)
      in if length data \<in> {1, 2, 3}
         then let h3 = (h2 + ucast (data ! 0)) * m in h3 XOR drop_bit 24 h3
         else h2)"

function HashLoop :: "u32 \<Rightarrow> bytes \<Rightarrow> u32" where
  "HashLoop h data =
     (if 4 \<le> length data then
        (case DecodeFixed32 kLittleEndian data of
           Some w \<Rightarrow> let h1 = (h + w) * 0xc6a4a793 in HashLoop (h1 XOR drop_bit 16 h1) (drop 4 data)
         | None \<Rightarrow> 0)
      else HashRest h data)"
  by pat_completeness auto
termination by (relation "measure (\<lambda>(h, data). length data)") auto

declare HashLoop.simps [simp del]

definition Hash :: "bytes \<Rightarrow> u32 \<Rightarrow> u32" where
  "Hash data seed = HashLoop (seed XOR (of_nat (length data) * 0xc6a4a793)) data"

definition HashSlice :: "bytes \<Rightarrow> u32" where
  "HashSlice s = Hash s 0"

definition Shard :: "u32 \<Rightarrow> nat" where
  "Shard hash = unat (drop_bit (32 - kNumShardBits) hash)"

definition ShardedLRUCache_new :: "u64 \<Rightarrow> ('v, 'd) ShardedLRUCache option" where
  "ShardedLRUCache_new cap = do {
     c \<leftarrow> LRUCache_new;
     let per_shard = (cap + (of_nat kNumShards - 1)) div of_nat kNumShards;
     Some \<lparr>shard = replicate kNumShards (SetCapacity per_shard c), last_id = 0\<rparr> }"

definition on_shard ::
  "nat \<Rightarrow> (('v, 'd) LRUCache \<Rightarrow> ('r \<times> ('v, 'd) LRUCache) option) \<Rightarrow> ('v, 'd) ShardedLRUCache \<Rightarrow>
   ('r \<times> ('v, 'd) ShardedLRUCache) option" where
  "on_shard i f C =
     (if i < length (shard C) then do {
        (r, c) \<leftarrow> f (shard C ! i);
        Some (r, C\<lparr>shard := (shard C)[i := c]\<rparr>) }
      else None)"

definition handle_of_shards :: "('v, 'd) ShardedLRUCache \<Rightarrow> ptr \<Rightarrow> ('v, 'd) LRUHandle option" where
  "handle_of_shards C p =
     (case filter (\<lambda>c. handles (heap c) p \<noteq> None) (shard C) of [] \<Rightarrow> None | c # _ \<Rightarrow> handles (heap c) p)"

definition Sharded_Insert ::
  "ptr \<Rightarrow> bytes \<Rightarrow> 'v \<Rightarrow> u64 \<Rightarrow> 'd \<Rightarrow> ('v, 'd) ShardedLRUCache \<Rightarrow> (ptr \<times> ('v, 'd) ShardedLRUCache) option" where
  "Sharded_Insert e key v charge deleter C =
     (let hash = HashSlice key
      in if handle_of_shards C e = None then on_shard (Shard hash) (LRU_Insert e key hash v charge deleter) C else None)"

definition Sharded_Lookup :: "bytes \<Rightarrow> ('v, 'd) ShardedLRUCache \<Rightarrow> (ptr \<times> ('v, 'd) ShardedLRUCache) option" where
  "Sharded_Lookup key C = (let hash = HashSlice key in on_shard (Shard hash) (LRU_Lookup key hash) C)"

definition Sharded_Release :: "ptr \<Rightarrow> ('v, 'd) ShardedLRUCache \<Rightarrow> ('v, 'd) ShardedLRUCache option" where
  "Sharded_Release handle C = do {
     h \<leftarrow> handle_of_shards C handle;
     map_option snd (on_shard (Shard (lh_hash h)) (\<lambda>c. map_option (Pair ()) (LRU_Release handle c)) C) }"

definition Sharded_Erase :: "bytes \<Rightarrow> ('v, 'd) ShardedLRUCache \<Rightarrow> ('v, 'd) ShardedLRUCache option" where
  "Sharded_Erase key C =
     (let hash = HashSlice key
      in map_option snd (on_shard (Shard hash) (\<lambda>c. map_option (Pair ()) (LRU_Erase key hash c)) C))"

definition Sharded_Value :: "ptr \<Rightarrow> ('v, 'd) ShardedLRUCache \<Rightarrow> 'v option" where
  "Sharded_Value handle C = map_option lh_value (handle_of_shards C handle)"

definition NewId :: "('v, 'd) ShardedLRUCache \<Rightarrow> u64 \<times> ('v, 'd) ShardedLRUCache" where
  "NewId C = (last_id C + 1, C\<lparr>last_id := last_id C + 1\<rparr>)"

fun PruneShards :: "('v, 'd) LRUCache list \<Rightarrow> ('v, 'd) LRUCache list option" where
  "PruneShards [] = Some []"
| "PruneShards (c # cs) = do { c' \<leftarrow> LRU_Prune c; cs' \<leftarrow> PruneShards cs; Some (c' # cs') }"

definition Sharded_Prune :: "('v, 'd) ShardedLRUCache \<Rightarrow> ('v, 'd) ShardedLRUCache option" where
  "Sharded_Prune C = map_option (\<lambda>cs. C\<lparr>shard := cs\<rparr>) (PruneShards (shard C))"

text \<open>The destructor: the shards are destroyed from the last to the first.\<close>

fun DestroyShards :: "('v, 'd) LRUCache list \<Rightarrow> ('v, 'd) LRUCache list option" where
  "DestroyShards [] = Some []"
| "DestroyShards (c # cs) = do { cs' \<leftarrow> DestroyShards cs; c' \<leftarrow> LRUCache_delete c; Some (c' # cs') }"

definition Sharded_TotalCharge :: "('v, 'd) ShardedLRUCache \<Rightarrow> u64" where
  "Sharded_TotalCharge C = foldl (\<lambda>total c. total + TotalCharge c) 0 (shard C)"

end
