(* ===== verification/LRULists.thy ===== *)
theory LRULists
  imports LRUCache
begin

text \<open>
  The circular doubly linked lists of the cache: what \<^verbatim>\<open>LRU_Remove\<close> and \<^verbatim>\<open>LRU_Append\<close> do to the
  list of handles that the links hold.
\<close>

lemma allocated_update [simp]:
  "allocated (H\<lparr>next_of := n\<rparr>) x = allocated H x" "allocated (H\<lparr>prev_of := n\<rparr>) x = allocated H x"
  "allocated (H\<lparr>next_hash_of := n\<rparr>) x = allocated H x" "allocated H LruHead" "allocated H InUseHead"
  by (simp_all add: allocated_def)

section \<open>Segments and circular lists\<close>

primrec seg :: "('v, 'd) Heap \<Rightarrow> ptr \<Rightarrow> ptr list \<Rightarrow> ptr \<Rightarrow> bool" where
  "seg H x [] z \<longleftrightarrow> next_of H x = Some z \<and> prev_of H z = Some x"
| "seg H x (y # ys) z \<longleftrightarrow> next_of H x = Some y \<and> prev_of H y = Some x \<and> seg H y ys z"

definition dll :: "('v, 'd) Heap \<Rightarrow> ptr \<Rightarrow> ptr list \<Rightarrow> bool" where
  "dll H a xs \<longleftrightarrow> seg H a xs a \<and> distinct (a # xs)"

lemma seg_append: "seg H x (xs @ y # ys) z \<longleftrightarrow> seg H x xs y \<and> seg H y ys z"
  by (induction xs arbitrary: x) auto

lemma seg_end: "seg H x xs z \<Longrightarrow> next_of H (last (x # xs)) = Some z \<and> prev_of H z = Some (last (x # xs))"
  by (induction xs arbitrary: x) auto

lemma seg_start: "seg H x xs z \<Longrightarrow> next_of H x = Some (hd (xs @ [z])) \<and> prev_of H (hd (xs @ [z])) = Some x"
  by (cases xs) auto

lemma seg_cong:
  assumes "\<And>y. y \<in> set (x # xs) \<Longrightarrow> next_of H' y = next_of H y" "\<And>y. y \<in> set (xs @ [z]) \<Longrightarrow> prev_of H' y = prev_of H y"
  shows "seg H' x xs z = seg H x xs z"
  using assms by (induction xs arbitrary: x) auto

lemma dll_cong:
  assumes "\<And>y. y \<in> set (a # xs) \<Longrightarrow> next_of H' y = next_of H y \<and> prev_of H' y = prev_of H y"
  shows "dll H' a xs = dll H a xs"
  using seg_cong [of a xs H' H a] assms by (auto simp: dll_def)

lemma seg_redirect:
  assumes "seg H x xs z" "distinct (x # xs)" "w \<notin> set xs" "next_of H' = (next_of H)(last (x # xs) \<mapsto> w)"
    "prev_of H' = (prev_of H)(w \<mapsto> last (x # xs))"
  shows "seg H' x xs w"
  using assms
proof (induction xs arbitrary: x)
  case (Cons y ys)
  then have "seg H' y ys w" by simp
  moreover have "x \<noteq> last (y # ys)" using Cons.prems(2) last_in_set [of "y # ys"] by (metis distinct.simps(2) list.distinct(1))
  ultimately show ?case using Cons.prems by auto
qed simp

lemma dll_next:
  assumes "dll H a xs" "x \<in> set (a # xs)"
  shows "\<exists>q. next_of H x = Some q \<and> q \<in> set (a # xs) \<and> (q = x \<longleftrightarrow> xs = [])"
proof (cases "x = a")
  case True
  with assms seg_start [of H a xs a] show ?thesis by (cases xs) (auto simp: dll_def)
next
  case False
  then obtain us vs where xs: "xs = us @ x # vs" using assms(2) by (auto simp: in_set_conv_decomp)
  then have "seg H x vs a" using assms(1) by (simp add: dll_def seg_append)
  from seg_start [OF this] show ?thesis using assms(1) xs by (cases vs) (auto simp: dll_def)
qed

lemma dll_head: "dll H a xs \<Longrightarrow> next_of H a = Some (hd (xs @ [a]))"
  using seg_start [of H a xs a] by (simp add: dll_def)

section \<open>Removing and appending\<close>

text \<open>What the operations leave alone: everything but the links of the list they work on.\<close>

definition relinked :: "ptr set \<Rightarrow> ('v, 'd) Heap \<Rightarrow> ('v, 'd) Heap \<Rightarrow> bool" where
  "relinked S H H' \<longleftrightarrow> handles H' = handles H \<and> next_hash_of H' = next_hash_of H \<and>
     (\<forall>x. x \<notin> S \<longrightarrow> next_of H' x = next_of H x \<and> prev_of H' x = prev_of H x)"

lemma relinkedD:
  assumes "relinked S H H'"
  shows "handles H' = handles H" "next_hash_of H' = next_hash_of H" "x \<notin> S \<Longrightarrow> next_of H' x = next_of H x"
    "x \<notin> S \<Longrightarrow> prev_of H' x = prev_of H x" "allocated H' y = allocated H y"
  using assms by (auto simp: relinked_def allocated_def)

lemma relinked_dll: "relinked S H H' \<Longrightarrow> S \<inter> set (a # xs) = {} \<Longrightarrow> dll H' a xs = dll H a xs"
  by (rule dll_cong) (metis disjoint_iff relinkedD(3,4))

lemma LRU_Remove_spec:
  assumes d: "dll H a (xs @ e # ys)" and al: "\<And>x. x \<in> set (a # xs @ ys) \<Longrightarrow> allocated H x"
  shows "\<exists>H'. LRU_Remove e H = Some H' \<and> dll H' a (xs @ ys) \<and> relinked (set (a # xs @ ys)) H H'"
proof -
  let ?p = "last (a # xs)" and ?n = "hd (ys @ [a])"
  define H' where "H' = H\<lparr>prev_of := (prev_of H)(?n \<mapsto> ?p), next_of := (next_of H)(?p \<mapsto> ?n)\<rparr>"
  have segs: "seg H a xs e" "seg H e ys a" and dist: "distinct (a # xs @ e # ys)"
    using d by (simp_all add: dll_def seg_append)
  have pn: "?p \<in> set (a # xs)" "?n \<in> set (ys @ [a])" by (cases ys; simp)+
  then have ne: "?p \<noteq> e" "?n \<noteq> e" "?p \<in> set (a # xs @ ys)" "?n \<in> set (a # xs @ ys)" using dist by auto
  have remove: "LRU_Remove e H = Some H'"
    using seg_end [OF segs(1)] seg_start [OF segs(2)] al [OF ne(3)] al [OF ne(4)] ne(1,2)
    by (simp add: LRU_Remove_def set_next_def set_prev_def H'_def del: last.simps)
  have "seg H' a (xs @ ys) a"
  proof (cases ys)
    case Nil
    then show ?thesis using seg_redirect [OF segs(1), of a H'] dist by (simp add: H'_def)
  next
    case (Cons y zs)
    have "seg H' a xs y" using seg_redirect [OF segs(1), of y H'] dist Cons by (simp add: H'_def)
    moreover have "seg H' y zs a = seg H y zs a" using pn(1) dist Cons by (intro seg_cong) (auto simp: H'_def)
    ultimately show ?thesis using segs(2) Cons by (simp add: seg_append)
  qed
  then have "dll H' a (xs @ ys)" using dist by (simp add: dll_def)
  moreover have "relinked (set (a # xs @ ys)) H H'"
    using ne(3,4) by (auto simp: relinked_def H'_def)
  ultimately show ?thesis using remove by blast
qed

lemma LRU_Append_eq:
  assumes "prev_of H a = Some p" "p \<noteq> e" "a \<noteq> e" "allocated H a" "allocated H e" "allocated H p"
  shows "LRU_Append a e H = Some (H\<lparr>next_of := (next_of H)(e \<mapsto> a, p \<mapsto> e), prev_of := (prev_of H)(e \<mapsto> p, a \<mapsto> e)\<rparr>)"
  using assms by (simp add: LRU_Append_def set_next_def set_prev_def)

lemma LRU_Append_spec:
  assumes d: "dll H a xs" and e: "e \<notin> set (a # xs)" and al: "\<And>x. x \<in> set (a # xs @ [e]) \<Longrightarrow> allocated H x"
  shows "\<exists>H'. LRU_Append a e H = Some H' \<and> dll H' a (xs @ [e]) \<and> relinked (set (a # xs @ [e])) H H'"
proof -
  let ?p = "last (a # xs)"
  define H' where "H' = H\<lparr>next_of := (next_of H)(e \<mapsto> a, ?p \<mapsto> e), prev_of := (prev_of H)(e \<mapsto> ?p, a \<mapsto> e)\<rparr>"
  have p: "?p \<in> set (a # xs)" by simp
  then have ne: "?p \<noteq> e" "a \<noteq> e" using e by auto
  have "prev_of H a = Some ?p" using d seg_end [of H a xs a] by (simp add: dll_def del: last.simps)
  moreover have "allocated H a" "allocated H e" "allocated H ?p" using al p by auto
  ultimately have app: "LRU_Append a e H = Some H'"
    unfolding H'_def using ne by (intro LRU_Append_eq)
  have "seg (H\<lparr>next_of := (next_of H)(?p \<mapsto> e), prev_of := (prev_of H)(e \<mapsto> ?p)\<rparr>) a xs e"
    by (rule seg_redirect [of H a xs a]) (use d e in \<open>auto simp: dll_def\<close>)
  moreover have "seg H' a xs e = seg (H\<lparr>next_of := (next_of H)(?p \<mapsto> e), prev_of := (prev_of H)(e \<mapsto> ?p)\<rparr>) a xs e"
    by (rule seg_cong) (use d e ne in \<open>auto simp: H'_def dll_def\<close>)
  ultimately have "seg H' a xs e" by simp
  then have "dll H' a (xs @ [e])" using d e ne by (simp add: dll_def seg_append H'_def)
  moreover have "relinked (set (a # xs @ [e])) H H'"
    using p by (auto simp: relinked_def H'_def)
  ultimately show ?thesis using app by blast
qed

end
