(* ===== verification/LRUTable.thy ===== *)
theory LRUTable
  imports LRULists "HOL-Library.Multiset"
begin

unbundle bit_operations_syntax

text \<open>
  The hash table of the cache: its chains hold a set of handles with different keys, and lookup,
  insertion, removal and resizing act on that set.
\<close>

section \<open>Chains\<close>

primrec chain :: "(ptr \<rightharpoonup> ptr) \<Rightarrow> ptr \<Rightarrow> ptr list \<Rightarrow> bool" where
  "chain f p [] \<longleftrightarrow> p = Null"
| "chain f p (x # xs) \<longleftrightarrow> p = x \<and> x \<noteq> Null \<and> (\<exists>q. f x = Some q \<and> chain f q xs)"

lemma chain_cong: "(\<And>x. x \<in> set xs \<Longrightarrow> f x = g x) \<Longrightarrow> chain f p xs = chain g p xs"
  by (induction xs arbitrary: p) auto

lemma chain_update [simp]:
  "x \<notin> set xs \<Longrightarrow> chain (f(x := v)) p xs = chain f p xs"
  "x \<notin> set xs \<Longrightarrow> chain (\<lambda>a. if a = x then v else f a) p xs = chain f p xs"
  by (rule chain_cong; auto)+

lemma chain_start: "chain f p xs \<Longrightarrow> p = hd (xs @ [Null])"
  by (cases xs) auto

lemma chain_suffix: "chain f p (xs @ ys) \<Longrightarrow> chain f (hd (ys @ [Null])) ys"
proof (induction xs arbitrary: p)
  case Nil
  then show ?case using chain_start [of f p ys] by simp
qed auto

lemma chain_next: "chain f p (xs @ x # ys) \<Longrightarrow> x \<noteq> Null \<and> f x = Some (hd (ys @ [Null]))"
  using chain_suffix [of f p xs "x # ys"] chain_start [of f _ ys] by auto

lemma chain_redirect:
  assumes "chain f p (pre @ suf)" "pre \<noteq> []" "distinct pre" "chain f q ys" "last pre \<notin> set ys"
  shows "chain (f(last pre \<mapsto> q)) p (pre @ ys)"
  using assms
proof (induction pre arbitrary: p)
  case (Cons x pre)
  show ?case
  proof (cases pre)
    case Nil
    then show ?thesis using Cons.prems by simp
  next
    case (Cons y zs)
    then have "x \<noteq> last pre" using Cons.prems(3) last_in_set [of pre] by (metis distinct.simps(2) list.distinct(1))
    then show ?thesis using Cons.prems Cons.IH Cons by auto
  qed
qed simp

section \<open>Finding a key\<close>

definition key_of_handle :: "('v, 'd) Heap \<Rightarrow> ptr \<Rightarrow> (u32 \<times> bytes) option" where
  "key_of_handle H p = map_option (\<lambda>x. (lh_hash x, lh_key x)) (handles H p)"

definition readable :: "('v, 'd) Heap \<Rightarrow> ptr \<Rightarrow> bool" where
  "readable H p \<longleftrightarrow> handles H p \<noteq> None \<and> (\<exists>n. next_of H p = Some n \<and> n \<noteq> p)"

lemma readable_key: "readable H p \<Longrightarrow> handles H p = Some x \<Longrightarrow> LRUHandle_key H p = Some (lh_key x)"
  by (auto simp: readable_def LRUHandle_key_def)

definition slot_after :: "slot \<Rightarrow> ptr list \<Rightarrow> slot" where
  "slot_after s pre = (if pre = [] then s else NextHash (last pre))"

lemma FindLoop_spec:
  assumes "load_slot T H s = Some p" "chain (next_hash_of H) p xs" "\<And>y. y \<in> set xs \<Longrightarrow> readable H y"
  shows "\<exists>pre suf. xs = pre @ suf \<and> (\<forall>y \<in> set pre. key_of_handle H y \<noteq> Some (hash, key)) \<and>
    (suf = [] \<or> key_of_handle H (hd suf) = Some (hash, key)) \<and> FindLoop T H key hash s = Some (slot_after s pre) \<and>
    load_slot T H (slot_after s pre) = Some (hd (suf @ [Null]))"
  using assms
proof (induction xs arbitrary: s p)
  case Nil
  then have "FindLoop T H key hash s = Some s" by (simp add: FindLoop.simps)
  then show ?case using Nil by (intro exI [of _ "[]"]) (simp add: slot_after_def)
next
  case (Cons x xs)
  obtain h where h: "handles H x = Some h" using Cons.prems(3) [of x] by (auto simp: readable_def)
  have k: "LRUHandle_key H x = Some (lh_key h)" using readable_key [OF Cons.prems(3) h] by simp
  obtain q where q: "p = x" "x \<noteq> Null" "next_hash_of H x = Some q" "chain (next_hash_of H) q xs" using Cons.prems(2) by auto
  show ?case
  proof (cases "key_of_handle H x = Some (hash, key)")
    case True
    have "FindLoop T H key hash s = Some s"
      using True Cons.prems(1) h k q(1,2) by (simp add: FindLoop.simps key_of_handle_def)
    show ?thesis by (rule exI [of _ "[]"], rule exI [of _ "x # xs"]) (use \<open>FindLoop T H key hash s = Some s\<close> Cons.prems(1) True q(1) in \<open>simp_all add: slot_after_def\<close>)
  next
    case False
    then have step: "FindLoop T H key hash s = FindLoop T H key hash (NextHash x)"
      using Cons.prems(1) h k q(1,2) by (subst FindLoop.simps) (auto simp: key_of_handle_def)
    have "load_slot T H (NextHash x) = Some q" using q(3) by simp
    from Cons.IH [OF this q(4)] Cons.prems(3) obtain pre suf where
      ih: "xs = pre @ suf" "\<forall>y \<in> set pre. key_of_handle H y \<noteq> Some (hash, key)"
        "suf = [] \<or> key_of_handle H (hd suf) = Some (hash, key)"
        "FindLoop T H key hash (NextHash x) = Some (slot_after (NextHash x) pre)"
        "load_slot T H (slot_after (NextHash x) pre) = Some (hd (suf @ [Null]))" by auto
    have "slot_after (NextHash x) pre = slot_after s (x # pre)" by (simp add: slot_after_def)
    then show ?thesis using ih step False by (intro exI [of _ "x # pre"] exI [of _ suf]) auto
  qed
qed

section \<open>Buckets\<close>

definition bucket :: "u32 \<Rightarrow> u32 \<Rightarrow> nat" where
  "bucket len hash = unat (hash AND (len - 1))"

lemma bucket_less: "k < 32 \<Longrightarrow> bucket (2 ^ k) hash < 2 ^ k"
  by (simp add: bucket_def unsigned_take_bit_eq take_bit_nat_less_exp flip: mask_eq_exp_minus_1 take_bit_eq_mask)

lemma unat_pow2: "k < 32 \<Longrightarrow> unat (2 ^ k :: u32) = 2 ^ k"
proof -
  assume "k < 32"
  then have "(2::nat) ^ k < 2 ^ 32" by (rule power_strict_increasing) simp
  then show ?thesis using unat_of_nat_small [of "2 ^ k", where 'a = 32] by simp
qed

definition bucketed :: "u32 \<Rightarrow> ('v, 'd) Heap \<Rightarrow> ptr list list \<Rightarrow> bool" where
  "bucketed len H bs \<longleftrightarrow> (\<forall>i < length bs. \<forall>p \<in> set (bs ! i). \<exists>x. handles H p = Some x \<and> bucket len (lh_hash x) = i)"

lemma bucketed_update:
  assumes "bucketed len H bs" "i < length bs" "\<And>p. p \<in> set b \<Longrightarrow> \<exists>x. handles H p = Some x \<and> bucket len (lh_hash x) = i"
    "handles H' = handles H"
  shows "bucketed len H' (bs[i := b])"
  using assms by (auto simp: bucketed_def nth_list_update)

lemma bucketedD:
  "bucketed len H bs \<Longrightarrow> i < length bs \<Longrightarrow> p \<in> set (bs ! i) \<Longrightarrow> \<exists>x. handles H p = Some x \<and> bucket len (lh_hash x) = i"
  by (auto simp: bucketed_def)

definition buckets :: "HandleTable \<Rightarrow> ('v, 'd) Heap \<Rightarrow> ptr list list \<Rightarrow> bool" where
  "buckets T H bs \<longleftrightarrow> (\<exists>k < 32. ht_length T = 2 ^ k \<and> length bs = 2 ^ k) \<and>
     list_all2 (chain (next_hash_of H)) (ht_list T) bs \<and> distinct (concat bs) \<and> bucketed (ht_length T) H bs \<and>
     ht_elems T = of_nat (length (concat bs)) \<and> length (concat bs) \<le> length bs"

text \<open>The handles of a table, and that their keys differ and can be read.\<close>

definition tab :: "HandleTable \<Rightarrow> ('v, 'd) Heap \<Rightarrow> ptr set \<Rightarrow> bool" where
  "tab T H C \<longleftrightarrow> (\<exists>bs. buckets T H bs \<and> C = set (concat bs)) \<and> inj_on (key_of_handle H) C \<and> (\<forall>p \<in> C. readable H p)"

lemma mset_concat_update:
  assumes "i < length bs" "mset b + mset zs = mset (bs ! i) + mset ys"
  shows "mset (concat (bs[i := b])) + mset zs = mset (concat bs) + mset ys"
proof -
  have "bs = take i bs @ bs ! i # drop (Suc i) bs" using assms(1) by (rule id_take_nth_drop)
  then have "mset (concat bs) = mset (concat (take i bs)) + mset (bs ! i) + mset (concat (drop (Suc i) bs))"
    by (metis concat.simps(2) concat_append mset_append union_assoc)
  moreover have "mset (concat (bs[i := b])) = mset (concat (take i bs)) + mset b + mset (concat (drop (Suc i) bs))"
    using assms(1) by (simp add: upd_conv_take_nth_drop)
  ultimately show ?thesis using assms(2) by (simp add: add.commute add.left_commute)
qed

lemma distinct_concat_disjoint:
  assumes "distinct (concat bs)" "i < length bs" "j < length bs" "i \<noteq> j"
  shows "set (bs ! i) \<inter> set (bs ! j) = {}"
  using assms
proof (induction bs arbitrary: i j)
  case (Cons b bs)
  then have "set b \<inter> set (bs ! n) = {}" if "n < length bs" for n using nth_mem [OF that] by auto
  then show ?case using Cons by (cases i; cases j) auto
qed simp

text \<open>Storing into the slot after \<open>pre\<close> replaces the rest of that chain.\<close>

lemma store_slot_spec:
  assumes "list_all2 (chain (next_hash_of H)) (ht_list T) bs" "i < length bs" "bs ! i = pre @ suf" "distinct (concat bs)"
    and "chain (next_hash_of H) q ys" "set ys \<inter> set pre = {}" "\<And>x. x \<in> set pre \<Longrightarrow> allocated H x"
  shows "\<exists>hs f. store_slot (slot_after (Bucket i) pre) q T H = Some (T\<lparr>ht_list := hs\<rparr>, H\<lparr>next_hash_of := f\<rparr>) \<and>
    list_all2 (chain f) hs (bs[i := pre @ ys]) \<and> (\<forall>x. x \<notin> set pre \<longrightarrow> f x = next_hash_of H x)"
proof -
  have len: "length (ht_list T) = length bs" using assms(1) by (rule list_all2_lengthD)
  show ?thesis
  proof (cases "pre = []")
    case True
    then show ?thesis
      using assms(1,2,5) len
      by (intro exI [of _ "(ht_list T)[i := q]"] exI [of _ "next_hash_of H"])
        (simp add: slot_after_def list_all2_update_cong)
  next
    case False
    define f where "f = (next_hash_of H)(last pre \<mapsto> q)"
    have di: "distinct pre" "last pre \<in> set (bs ! i)" using False assms(2-4) distinct_concat_iff [of bs]
      by (metis distinct_append nth_mem) (simp add: assms(3) False)
    have "chain f (ht_list T ! j) ((bs[i := pre @ ys]) ! j)" if "j < length bs" for j
    proof (cases "j = i")
      case True
      have "chain (next_hash_of H) (ht_list T ! i) (pre @ suf)"
        using assms(1-3) len by (metis list_all2_nthD2)
      moreover have "last pre \<notin> set ys" using assms(6) last_in_set [OF False] by blast
      ultimately show ?thesis
        using chain_redirect [OF _ False di(1) assms(5)] True assms(2) by (simp add: f_def)
    next
      case j: False
      have "last pre \<notin> set (bs ! j)"
        using di(2) j that assms(2,4) distinct_concat_disjoint [of bs i j] by blast
      then show ?thesis using assms(1) j that len by (simp add: f_def list_all2_conv_all_nth)
    qed
    then have "list_all2 (chain f) (ht_list T) (bs[i := pre @ ys])" using len by (simp add: list_all2_conv_all_nth)
    then show ?thesis
      using False assms(7) by (intro exI [of _ "ht_list T"] exI [of _ f])
        (auto simp: slot_after_def set_next_hash_def f_def)
  qed
qed

section \<open>Resizing\<close>

lemma NewLength_spec:
  "k \<le> 31 \<Longrightarrow> elems \<le> 2 ^ 31 \<Longrightarrow> \<exists>k'. k \<le> k' \<and> k' \<le> 31 \<and> NewLength elems (2 ^ k) = Some (2 ^ k') \<and> elems \<le> 2 ^ k'"
proof (induction "31 - k" arbitrary: k)
  case 0
  then have "k = 31" by simp
  moreover have "NewLength elems (2 ^ 31) = Some (2 ^ 31)" using 0(3) by (subst NewLength.simps) (simp add: leD)
  ultimately show ?case using 0(3) by (intro exI [of _ 31]) simp
next
  case (Suc n)
  show ?case
  proof (cases "2 ^ k < elems")
    case True
    have "NewLength elems (2 ^ k) = NewLength elems (2 ^ Suc k)" using True by (subst NewLength.simps) (simp add: mult.commute)
    moreover have "n = 31 - Suc k" "Suc k \<le> 31" using Suc.hyps(2) by linarith+
    ultimately obtain k' where "NewLength elems (2 ^ k) = NewLength elems (2 ^ Suc k)" "Suc k \<le> k'" "k' \<le> 31" "NewLength elems (2 ^ Suc k) = Some (2 ^ k')" "elems \<le> 2 ^ k'"
      using Suc.hyps(1) [of "Suc k"] Suc.prems by blast
    then show ?thesis by (intro exI [of _ k']) simp
  next
    case False
    then have "NewLength elems (2 ^ k) = Some (2 ^ k)" by (subst NewLength.simps) simp
    then show ?thesis using False Suc.prems by (intro exI [of _ k]) simp
  qed
qed

text \<open>Moving handles into the new array keeps each chain well formed and in its bucket.\<close>

definition rehashed :: "u32 \<Rightarrow> ('v, 'd) Heap \<Rightarrow> ptr list \<Rightarrow> ptr list list \<Rightarrow> bool" where
  "rehashed len H hs bs \<longleftrightarrow> list_all2 (chain (next_hash_of H)) hs bs \<and> length bs = unat len \<and> bucketed len H bs"

lemma rehash_one:
  assumes "rehashed (2 ^ k) H hs bs" "k < 32" "handles H h = Some x" "h \<noteq> Null" "h \<notin> set (concat bs)"
  defines "i \<equiv> bucket (2 ^ k) (lh_hash x)"
  shows "i < length hs" "rehashed (2 ^ k) (H\<lparr>next_hash_of := (next_hash_of H)(h \<mapsto> hs ! i)\<rparr>) (hs[i := h]) (bs[i := h # bs ! i])"
    "mset (concat (bs[i := h # bs ! i])) = add_mset h (mset (concat bs))"
proof -
  have ch: "list_all2 (chain (next_hash_of H)) hs bs" and len: "length bs = 2 ^ k" and bu: "bucketed (2 ^ k) H bs"
    using assms(1,2) by (simp_all add: rehashed_def unat_pow2)
  then have lh: "length hs = length bs" by (simp add: list_all2_lengthD)
  have i: "i < length bs" using bucket_less [OF assms(2)] len by (simp add: i_def)
  then show "i < length hs" using lh by simp
  show "mset (concat (bs[i := h # bs ! i])) = add_mset h (mset (concat bs))"
    using mset_concat_update [OF i, of "h # bs ! i" "[]" "[h]"] by simp
  have ni: "h \<notin> set (bs ! j)" if "j < length bs" for j using assms(5) nth_mem [OF that] by auto
  have "chain ((next_hash_of H)(h \<mapsto> hs ! i)) ((hs[i := h]) ! j) ((bs[i := h # bs ! i]) ! j)" if "j < length bs" for j
    using ch that ni [OF that] i lh assms(4) by (cases "j = i") (auto simp: list_all2_conv_all_nth)
  then have "list_all2 (chain ((next_hash_of H)(h \<mapsto> hs ! i))) (hs[i := h]) (bs[i := h # bs ! i])"
    using lh by (simp add: list_all2_conv_all_nth)
  moreover have "bucketed (2 ^ k) (H\<lparr>next_hash_of := (next_hash_of H)(h \<mapsto> hs ! i)\<rparr>) (bs[i := h # bs ! i])"
    by (rule bucketed_update [OF bu i]) (use bucketedD [OF bu i] assms(3) i_def in auto)
  ultimately show "rehashed (2 ^ k) (H\<lparr>next_hash_of := (next_hash_of H)(h \<mapsto> hs ! i)\<rparr>) (hs[i := h]) (bs[i := h # bs ! i])"
    using len assms(2) by (simp add: rehashed_def unat_pow2)
qed

lemma RehashChain_spec:
  assumes "chain (next_hash_of H) h xs" "rehashed (2 ^ k) H hs bs" "k < 32" "distinct (xs @ concat bs)"
    and "\<And>y. y \<in> set xs \<Longrightarrow> handles H y \<noteq> None"
  shows "\<exists>f hs' bs'. RehashChain (2 ^ k) h H hs cnt = Some (H\<lparr>next_hash_of := f\<rparr>, hs', cnt + of_nat (length xs)) \<and>
    rehashed (2 ^ k) (H\<lparr>next_hash_of := f\<rparr>) hs' bs' \<and> mset (concat bs') = mset xs + mset (concat bs) \<and>
    (\<forall>y. y \<notin> set xs \<longrightarrow> f y = next_hash_of H y)"
  using assms
proof (induction xs arbitrary: h H hs bs cnt)
  case Nil
  then show ?case by (intro exI [of _ "next_hash_of H"] exI [of _ hs] exI [of _ bs]) (simp add: RehashChain.simps)
next
  case (Cons y xs)
  obtain q where q: "h = y" "y \<noteq> Null" "next_hash_of H y = Some q" "chain (next_hash_of H) q xs" using Cons.prems(1) by auto
  obtain x where x: "handles H y = Some x" using Cons.prems(5) [of y] by auto
  define i where "i = bucket (2 ^ k) (lh_hash x)"
  define H1 where "H1 = H\<lparr>next_hash_of := (next_hash_of H)(y \<mapsto> hs ! i)\<rparr>"
  have ni: "y \<notin> set (concat bs)" using Cons.prems(4) by simp
  note one = rehash_one [OF Cons.prems(2,3) x q(2) ni, folded i_def]
  have "allocated H y" by (simp add: allocated_def x)
  then have step: "RehashChain (2 ^ k) h H hs cnt = RehashChain (2 ^ k) q H1 (hs[i := y]) (cnt + 1)"
    using q x one(1) by (subst RehashChain.simps) (simp add: set_next_hash_def H1_def Let_def flip: bucket_def i_def)
  have "chain (next_hash_of H1) q xs" using q(4) Cons.prems(4) by (simp add: H1_def)
  moreover have "rehashed (2 ^ k) H1 (hs[i := y]) (bs[i := y # bs ! i])" using one(2) by (simp add: H1_def)
  moreover have "distinct (xs @ concat (bs[i := y # bs ! i]))"
  proof -
    have "mset (xs @ concat (bs[i := y # bs ! i])) = mset ((y # xs) @ concat bs)" using one(3) by simp
    then show ?thesis using Cons.prems(4) mset_eq_imp_distinct_iff by blast
  qed
  moreover have "handles H1 z \<noteq> None" if "z \<in> set xs" for z using Cons.prems(5) that by (simp add: H1_def)
  ultimately obtain f hs' bs' where ih:
      "RehashChain (2 ^ k) q H1 (hs[i := y]) (cnt + 1) = Some (H1\<lparr>next_hash_of := f\<rparr>, hs', cnt + 1 + of_nat (length xs))"
      "rehashed (2 ^ k) (H1\<lparr>next_hash_of := f\<rparr>) hs' bs'"
      "mset (concat bs') = mset xs + mset (concat (bs[i := y # bs ! i]))" "\<forall>z. z \<notin> set xs \<longrightarrow> f z = next_hash_of H1 z"
    using Cons.IH [of H1 q "hs[i := y]" "bs[i := y # bs ! i]" "cnt + 1"] Cons.prems(3) by blast
  then show ?case
    using step one(3) by (intro exI [of _ f] exI [of _ hs'] exI [of _ bs']) (auto simp: H1_def)
qed

lemma list_all2_chain_cong:
  assumes "list_all2 (chain f) ps cs" "\<And>y. y \<in> set (concat cs) \<Longrightarrow> g y = f y"
  shows "list_all2 (chain g) ps cs"
  using assms
proof (induction rule: list_all2_induct)
  case (Cons p ps c cs)
  then show ?case using chain_cong [of c g f p] by auto
qed simp

lemma RehashBuckets_spec:
  assumes "list_all2 (chain (next_hash_of H)) ps cs" "rehashed (2 ^ k) H hs bs" "k < 32" "distinct (concat cs @ concat bs)"
    and "\<And>y. y \<in> set (concat cs) \<Longrightarrow> handles H y \<noteq> None"
  shows "\<exists>f hs' bs'. RehashBuckets (2 ^ k) ps H hs cnt = Some (H\<lparr>next_hash_of := f\<rparr>, hs', cnt + of_nat (length (concat cs))) \<and>
    rehashed (2 ^ k) (H\<lparr>next_hash_of := f\<rparr>) hs' bs' \<and> mset (concat bs') = mset (concat cs) + mset (concat bs) \<and>
    (\<forall>y. y \<notin> set (concat cs) \<longrightarrow> f y = next_hash_of H y)"
  using assms
proof (induction cs arbitrary: ps H hs bs cnt rule: list.induct)
  case Nil
  then have "ps = []" by simp
  then show ?case using Nil by (intro exI [of _ "next_hash_of H"] exI [of _ hs] exI [of _ bs]) simp
next
  case (Cons c cs)
  obtain p qs where ps: "ps = p # qs" "chain (next_hash_of H) p c" "list_all2 (chain (next_hash_of H)) qs cs"
    using Cons.prems(1) by (auto simp: list_all2_Cons2)
  have dc: "distinct (c @ concat bs)" "set c \<inter> set (concat cs) = {}" using Cons.prems(4) by auto
  obtain f1 hs1 bs1 where one:
      "RehashChain (2 ^ k) p H hs cnt = Some (H\<lparr>next_hash_of := f1\<rparr>, hs1, cnt + of_nat (length c))"
      "rehashed (2 ^ k) (H\<lparr>next_hash_of := f1\<rparr>) hs1 bs1" "mset (concat bs1) = mset c + mset (concat bs)"
      "\<forall>y. y \<notin> set c \<longrightarrow> f1 y = next_hash_of H y"
    using RehashChain_spec [OF ps(2) Cons.prems(2,3) dc(1), of cnt] Cons.prems(5) by auto
  let ?H = "H\<lparr>next_hash_of := f1\<rparr>"
  have "list_all2 (chain (next_hash_of ?H)) qs cs"
    by (rule list_all2_chain_cong [OF ps(3)]) (use one(4) dc(2) in auto)
  moreover have "distinct (concat cs @ concat bs1)"
  proof -
    have "mset (concat cs @ concat bs1) = mset (concat (c # cs) @ concat bs)" using one(3) by simp
    then show ?thesis using Cons.prems(4) mset_eq_imp_distinct_iff by blast
  qed
  ultimately obtain f hs' bs' where ih:
      "RehashBuckets (2 ^ k) qs ?H hs1 (cnt + of_nat (length c)) =
        Some (?H\<lparr>next_hash_of := f\<rparr>, hs', cnt + of_nat (length c) + of_nat (length (concat cs)))"
      "rehashed (2 ^ k) (?H\<lparr>next_hash_of := f\<rparr>) hs' bs'" "mset (concat bs') = mset (concat cs) + mset (concat bs1)"
      "\<forall>y. y \<notin> set (concat cs) \<longrightarrow> f y = next_hash_of ?H y"
    using Cons.IH [of ?H qs hs1 bs1 "cnt + of_nat (length c)"] one(2) Cons.prems(3,5) by auto
  then show ?case
    using one ps(1) by (intro exI [of _ f] exI [of _ hs'] exI [of _ bs']) (simp add: algebra_simps)
qed

lemma HT_Resize_spec:
  assumes "list_all2 (chain (next_hash_of H)) (ht_list T) bs" "distinct (concat bs)" "length (concat bs) \<le> 2 ^ 31"
    "ht_elems T = of_nat (length (concat bs))" "\<And>y. y \<in> set (concat bs) \<Longrightarrow> handles H y \<noteq> None"
  shows "\<exists>T' f bs'. HT_Resize T H = Some (T', H\<lparr>next_hash_of := f\<rparr>) \<and> buckets T' (H\<lparr>next_hash_of := f\<rparr>) bs' \<and>
    mset (concat bs') = mset (concat bs)"
proof -
  have u: "unat (ht_elems T) = length (concat bs)" using assms(3,4) by (simp add: unat_of_nat_small del: length_concat)
  then have "ht_elems T \<le> 2 ^ 31" using assms(3) by (simp add: word_le_nat_alt)
  from NewLength_spec [of 2, OF _ this] obtain k where
    k: "2 \<le> k" "k \<le> 31" "NewLength (ht_elems T) 4 = Some (2 ^ k)" "ht_elems T \<le> 2 ^ k" by auto
  then have k32: "k < 32" by simp
  have small: "length (concat bs) \<le> 2 ^ k" using k(4) u unat_pow2 [OF k32] by (simp add: word_le_nat_alt)
  have "rehashed (2 ^ k) H (replicate (2 ^ k) Null) (replicate (2 ^ k) [])"
    using unat_pow2 [OF k32] by (simp add: rehashed_def bucketed_def list_all2_conv_all_nth)
  from RehashBuckets_spec [OF assms(1) this k32, of 0] assms(2,5) obtain f hs' bs' where
    r: "RehashBuckets (2 ^ k) (ht_list T) H (replicate (2 ^ k) Null) 0 = Some (H\<lparr>next_hash_of := f\<rparr>, hs', of_nat (length (concat bs)))"
      "rehashed (2 ^ k) (H\<lparr>next_hash_of := f\<rparr>) hs' bs'" "mset (concat bs') = mset (concat bs)" by (auto simp del: length_concat)
  have "distinct (concat bs')" "length (concat bs') = length (concat bs)"
    using r(3) assms(2) mset_eq_imp_distinct_iff mset_eq_length by blast+
  then have "buckets (T\<lparr>ht_length := 2 ^ k, ht_list := hs'\<rparr>) (H\<lparr>next_hash_of := f\<rparr>) bs'"
    using r(2) small k32 assms(4) unat_pow2 [OF k32] by (simp add: buckets_def rehashed_def del: length_concat)
  moreover have "HT_Resize T H = Some (T\<lparr>ht_length := 2 ^ k, ht_list := hs'\<rparr>, H\<lparr>next_hash_of := f\<rparr>)"
    using k(3) r(1) assms(4) unat_pow2 [OF k32] by (simp add: HT_Resize_def del: length_concat)
  ultimately show ?thesis using r(3) by blast
qed

section \<open>Operations on the set of handles\<close>

lemma relink_hash [simp]:
  "key_of_handle (H\<lparr>next_hash_of := f\<rparr>) = key_of_handle H" "readable (H\<lparr>next_hash_of := f\<rparr>) = readable H"
  "bucketed len (H\<lparr>next_hash_of := f\<rparr>) = bucketed len H"
  by (auto simp: key_of_handle_def readable_def bucketed_def fun_eq_iff)

lemma tabI:
  assumes "buckets T H bs" "C = set (concat bs)" "inj_on (key_of_handle H) C" "\<And>p. p \<in> C \<Longrightarrow> readable H p"
  shows "tab T H C"
  using assms by (auto simp: tab_def)

lemma FindPointer_spec:
  assumes b: "buckets T H bs" and r: "\<And>p. p \<in> set (concat bs) \<Longrightarrow> readable H p"
  shows "\<exists>i pre suf. i < length bs \<and> i = bucket (ht_length T) hash \<and> bs ! i = pre @ suf \<and>
    FindPointer T H key hash = Some (slot_after (Bucket i) pre) \<and>
    load_slot T H (slot_after (Bucket i) pre) = Some (hd (suf @ [Null])) \<and>
    (suf = [] \<and> (\<forall>p \<in> set (concat bs). key_of_handle H p \<noteq> Some (hash, key)) \<or>
     suf \<noteq> [] \<and> hd suf \<noteq> Null \<and> key_of_handle H (hd suf) = Some (hash, key))"
proof -
  obtain k where k: "k < 32" "ht_length T = 2 ^ k" "length bs = 2 ^ k" and ch: "list_all2 (chain (next_hash_of H)) (ht_list T) bs"
    and bu: "bucketed (ht_length T) H bs" using b by (auto simp: buckets_def)
  define i where "i = bucket (ht_length T) hash"
  have i: "i < length bs" using bucket_less [OF k(1)] k by (simp add: i_def)
  have len: "length (ht_list T) = length bs" using ch by (rule list_all2_lengthD)
  have ci: "chain (next_hash_of H) (ht_list T ! i) (bs ! i)" using ch i by (simp add: list_all2_nthD2)
  have ri: "readable H y" if "y \<in> set (bs ! i)" for y using r nth_mem [OF i] that by auto
  have "load_slot T H (Bucket i) = Some (ht_list T ! i)" using i len by simp
  from FindLoop_spec [OF this ci ri, of hash key] obtain pre suf where
    f: "bs ! i = pre @ suf" "\<forall>y \<in> set pre. key_of_handle H y \<noteq> Some (hash, key)"
      "suf = [] \<or> key_of_handle H (hd suf) = Some (hash, key)" "FindLoop T H key hash (Bucket i) = Some (slot_after (Bucket i) pre)"
      "load_slot T H (slot_after (Bucket i) pre) = Some (hd (suf @ [Null]))" by blast
  have "key_of_handle H p \<noteq> Some (hash, key)" if s: "suf = []" and p: "p \<in> set (concat bs)" for p
  proof
    assume eq: "key_of_handle H p = Some (hash, key)"
    obtain b where "b \<in> set bs" "p \<in> set b" using p by auto
    then obtain j where j: "j < length bs" "p \<in> set (bs ! j)" by (metis in_set_conv_nth)
    then have "j = i" using bucketedD [OF bu j] eq by (auto simp: key_of_handle_def i_def)
    then show False using j(2) f(1,2) s eq by simp
  qed
  moreover have "hd suf \<noteq> Null" if "suf \<noteq> []"
    using ci f(1) that chain_next [of _ _ pre "hd suf" "tl suf"] by auto
  ultimately show ?thesis
    using f i by (intro exI [of _ i] exI [of _ pre] exI [of _ suf]) (auto simp: FindPointer_def bucket_def i_def)
qed

lemma HT_Lookup_spec:
  assumes "tab T H C"
  shows "\<exists>p. HT_Lookup T H key hash = Some p \<and>
    (p = Null \<and> (\<forall>q \<in> C. key_of_handle H q \<noteq> Some (hash, key)) \<or> p \<noteq> Null \<and> p \<in> C \<and> key_of_handle H p = Some (hash, key))"
proof -
  obtain bs where bs: "buckets T H bs" "C = set (concat bs)" "\<And>p. p \<in> set (concat bs) \<Longrightarrow> readable H p"
    using assms by (auto simp: tab_def)
  from FindPointer_spec [OF bs(1,3), of hash key] obtain i pre suf where
    f: "i < length bs" "bs ! i = pre @ suf" "FindPointer T H key hash = Some (slot_after (Bucket i) pre)"
      "load_slot T H (slot_after (Bucket i) pre) = Some (hd (suf @ [Null]))"
      "suf = [] \<and> (\<forall>p \<in> set (concat bs). key_of_handle H p \<noteq> Some (hash, key)) \<or>
       suf \<noteq> [] \<and> hd suf \<noteq> Null \<and> key_of_handle H (hd suf) = Some (hash, key)" by blast
  have "hd suf \<in> C" if "suf \<noteq> []" using nth_mem [OF f(1)] f(2) that bs(2) by (auto intro!: bexI [of _ "bs ! i"])
  then show ?thesis using f(3-5) bs(2) by (auto simp: HT_Lookup_def)
qed

text \<open>Replacing one chain: what remains to be shown after a slot was written.\<close>

lemma buckets_update:
  assumes b: "buckets T H bs" and i: "i < length bs" and ch: "list_all2 (chain f) hs (bs[i := ys])"
    and ys: "\<And>p. p \<in> set ys \<Longrightarrow> \<exists>x. handles H p = Some x \<and> bucket (ht_length T) (lh_hash x) = i"
    and d: "distinct (concat (bs[i := ys]))" and n: "length (concat (bs[i := ys])) \<le> length bs"
  shows "buckets (T\<lparr>ht_list := hs, ht_elems := of_nat (length (concat (bs[i := ys])))\<rparr>) (H\<lparr>next_hash_of := f\<rparr>) (bs[i := ys])"
  using b ch d n bucketed_update [of "ht_length T" H bs i ys H, OF _ i ys] by (simp add: buckets_def del: length_concat)

lemma bucket_split:
  assumes b: "buckets T H bs" and r: "\<And>p. p \<in> set (concat bs) \<Longrightarrow> readable H p" and i: "i < length bs" and bi: "bs ! i = pre @ suf"
  shows "set (bs ! i) \<subseteq> set (concat bs)" "x \<in> set pre \<Longrightarrow> allocated H x" "distinct (pre @ suf)"
    "suf = p # rest \<Longrightarrow> p \<noteq> Null \<and> next_hash_of H p = Some (hd (rest @ [Null])) \<and> chain (next_hash_of H) (hd (rest @ [Null])) rest"
proof -
  show sub: "set (bs ! i) \<subseteq> set (concat bs)" using nth_mem [OF i] by auto
  then show "allocated H x" if "x \<in> set pre"
    using r [of x] that bi by (auto simp del: set_concat simp add: readable_def allocated_def)
  show "distinct (pre @ suf)" using b i bi by (metis buckets_def distinct_concat_iff nth_mem)
  assume "suf = p # rest"
  then have "chain (next_hash_of H) (ht_list T ! i) (pre @ p # rest)" using b i bi by (metis buckets_def list_all2_nthD2)
  then show "p \<noteq> Null \<and> next_hash_of H p = Some (hd (rest @ [Null])) \<and> chain (next_hash_of H) (hd (rest @ [Null])) rest"
    using chain_next [of _ _ pre p rest] chain_suffix [of _ _ "pre @ [p]" rest] by auto
qed

lemma remove_from_bucket:
  assumes b: "buckets T H bs" and r: "\<And>p. p \<in> set (concat bs) \<Longrightarrow> readable H p" and i: "i < length bs" and bi: "bs ! i = pre @ p # rest"
  shows "\<exists>hs f. store_slot (slot_after (Bucket i) pre) (hd (rest @ [Null])) T H = Some (T\<lparr>ht_list := hs\<rparr>, H\<lparr>next_hash_of := f\<rparr>) \<and>
    buckets (T\<lparr>ht_list := hs, ht_elems := ht_elems T - 1\<rparr>) (H\<lparr>next_hash_of := f\<rparr>) (bs[i := pre @ rest]) \<and>
    set (concat (bs[i := pre @ rest])) = set (concat bs) - {p}"
proof -
  have ch: "list_all2 (chain (next_hash_of H)) (ht_list T) bs" and di: "distinct (concat bs)"
    and el: "ht_elems T = of_nat (length (concat bs))" and n: "length (concat bs) \<le> length bs" and bu: "bucketed (ht_length T) H bs"
    using b by (auto simp: buckets_def)
  note sp = bucket_split [OF b r i bi]
  let ?bs = "bs[i := pre @ rest]"
  have "mset (concat ?bs) + mset [p] = mset (concat bs) + mset []" by (rule mset_concat_update [OF i]) (simp add: bi)
  then have ms: "mset (p # concat ?bs) = mset (concat bs)" by simp
  then have len: "length (concat bs) = Suc (length (concat ?bs))" by (metis length_Cons mset_eq_length)
  have dC: "distinct (p # concat ?bs)" "set (p # concat ?bs) = set (concat bs)"
    using ms di mset_eq_imp_distinct_iff mset_eq_setD by blast+
  then have C: "set (concat ?bs) = set (concat bs) - {p}" "distinct (concat ?bs)" by auto
  have "chain (next_hash_of H) (hd (rest @ [Null])) rest" "set rest \<inter> set pre = {}" using sp(3,4) by auto
  from store_slot_spec [OF ch i bi di this sp(2)] obtain hs g where
    st: "store_slot (slot_after (Bucket i) pre) (hd (rest @ [Null])) T H = Some (T\<lparr>ht_list := hs\<rparr>, H\<lparr>next_hash_of := g\<rparr>)"
      "list_all2 (chain g) hs ?bs" by auto
  have "buckets (T\<lparr>ht_list := hs, ht_elems := of_nat (length (concat ?bs))\<rparr>) (H\<lparr>next_hash_of := g\<rparr>) ?bs"
    by (rule buckets_update [OF b i st(2) _ C(2)]) (use bucketedD [OF bu i] bi len n in \<open>auto simp del: length_concat\<close>)
  moreover have "of_nat (length (concat ?bs)) = ht_elems T - 1" using el len by (simp del: length_concat)
  ultimately show ?thesis using st(1) C(1) by metis
qed

lemma HT_Remove_spec:
  assumes t: "tab T H C"
  shows "\<exists>p T' f. HT_Remove key hash T H = Some (p, T', H\<lparr>next_hash_of := f\<rparr>) \<and>
    (p = Null \<and> (\<forall>q \<in> C. key_of_handle H q \<noteq> Some (hash, key)) \<and> T' = T \<and> f = next_hash_of H \<or>
     p \<noteq> Null \<and> p \<in> C \<and> key_of_handle H p = Some (hash, key) \<and> tab T' (H\<lparr>next_hash_of := f\<rparr>) (C - {p}))"
proof -
  obtain bs where bs: "buckets T H bs" "C = set (concat bs)" "\<And>p. p \<in> set (concat bs) \<Longrightarrow> readable H p"
    and inj: "inj_on (key_of_handle H) C" using t by (auto simp: tab_def)
  from FindPointer_spec [OF bs(1,3), of hash key] obtain i pre suf where
    f: "i < length bs" "bs ! i = pre @ suf" "FindPointer T H key hash = Some (slot_after (Bucket i) pre)"
      "load_slot T H (slot_after (Bucket i) pre) = Some (hd (suf @ [Null]))"
      "suf = [] \<and> (\<forall>p \<in> set (concat bs). key_of_handle H p \<noteq> Some (hash, key)) \<or>
       suf \<noteq> [] \<and> hd suf \<noteq> Null \<and> key_of_handle H (hd suf) = Some (hash, key)" by blast
  show ?thesis
  proof (cases suf)
    case Nil
    then show ?thesis using f(3-5) bs(2)
      by (intro exI [of _ Null] exI [of _ T] exI [of _ "next_hash_of H"]) (auto simp: HT_Remove_def)
  next
    case (Cons p rest)
    have bi: "bs ! i = pre @ p # rest" using f(2) Cons by simp
    note sp = bucket_split [OF bs(1,3) f(1) bi]
    obtain hs g where st: "store_slot (slot_after (Bucket i) pre) (hd (rest @ [Null])) T H = Some (T\<lparr>ht_list := hs\<rparr>, H\<lparr>next_hash_of := g\<rparr>)"
        "buckets (T\<lparr>ht_list := hs, ht_elems := ht_elems T - 1\<rparr>) (H\<lparr>next_hash_of := g\<rparr>) (bs[i := pre @ rest])"
        "set (concat (bs[i := pre @ rest])) = C - {p}"
      using remove_from_bucket [OF bs(1,3) f(1) bi] bs(2) by auto
    let ?T = "T\<lparr>ht_list := hs, ht_elems := ht_elems T - 1\<rparr>"
    have "tab ?T (H\<lparr>next_hash_of := g\<rparr>) (C - {p})"
      by (rule tabI [OF st(2)]) (use st(3) bs(2,3) inj in \<open>auto simp: inj_on_def\<close>)
    moreover have "HT_Remove key hash T H = Some (p, ?T, H\<lparr>next_hash_of := g\<rparr>)"
      using f(3,4) Cons sp(4) st(1) by (simp add: HT_Remove_def)
    moreover have "key_of_handle H p = Some (hash, key)" "p \<in> C" "p \<noteq> Null" using f(5) Cons sp(1,4) bi bs(2) by auto
    ultimately show ?thesis by blast
  qed
qed

lemma insert_into_bucket:
  assumes b: "buckets T H bs" and r: "\<And>p. p \<in> set (concat bs) \<Longrightarrow> readable H p" and i: "i < length bs"
    and bi: "bs ! i = pre @ os @ rest" and h: "h \<notin> set (concat bs)" "h \<noteq> Null" "handles H h = Some x" "bucket (ht_length T) (lh_hash x) = i"
    and rest: "chain (next_hash_of H) (hd (rest @ [Null])) rest"
  shows "\<exists>hs f. store_slot (slot_after (Bucket i) pre) h T (H\<lparr>next_hash_of := (next_hash_of H)(h \<mapsto> hd (rest @ [Null]))\<rparr>) =
      Some (T\<lparr>ht_list := hs\<rparr>, H\<lparr>next_hash_of := f\<rparr>) \<and>
    list_all2 (chain f) hs (bs[i := pre @ h # rest]) \<and> bucketed (ht_length T) H (bs[i := pre @ h # rest])"
    "mset (concat (bs[i := pre @ h # rest])) + mset os = add_mset h (mset (concat bs))"
proof -
  let ?H = "H\<lparr>next_hash_of := (next_hash_of H)(h \<mapsto> hd (rest @ [Null]))\<rparr>"
  have ch: "list_all2 (chain (next_hash_of H)) (ht_list T) bs" and di: "distinct (concat bs)" and bu: "bucketed (ht_length T) H bs"
    using b by (auto simp: buckets_def)
  note sp = bucket_split [OF b r i bi]
  have hn: "h \<notin> set (bs ! i)" using sp(1) h(1) by blast
  have "list_all2 (chain (next_hash_of ?H)) (ht_list T) bs"
    by (rule list_all2_chain_cong [OF ch]) (use h(1) in auto)
  moreover have "chain (next_hash_of ?H) h (h # rest)" using rest h(2) hn bi by simp
  moreover have "set (h # rest) \<inter> set pre = {}" using sp(3) hn bi by auto
  moreover have "allocated ?H y" if "y \<in> set pre" for y using sp(2) that by simp
  ultimately obtain hs g where "store_slot (slot_after (Bucket i) pre) h T ?H = Some (T\<lparr>ht_list := hs\<rparr>, ?H\<lparr>next_hash_of := g\<rparr>)"
      "list_all2 (chain g) hs (bs[i := pre @ h # rest])"
    using store_slot_spec [of ?H T bs i pre "os @ rest" h "h # rest", OF _ i bi di] by blast
  moreover have "bucketed (ht_length T) H (bs[i := pre @ h # rest])"
    by (rule bucketed_update [OF bu i]) (use bucketedD [OF bu i] bi h(3,4) in auto)
  ultimately show "\<exists>hs f. store_slot (slot_after (Bucket i) pre) h T ?H = Some (T\<lparr>ht_list := hs\<rparr>, H\<lparr>next_hash_of := f\<rparr>) \<and>
    list_all2 (chain f) hs (bs[i := pre @ h # rest]) \<and> bucketed (ht_length T) H (bs[i := pre @ h # rest])" by auto
  show "mset (concat (bs[i := pre @ h # rest])) + mset os = add_mset h (mset (concat bs))"
    using mset_concat_update [OF i, of "pre @ h # rest" os "[h]"] bi by simp
qed

text \<open>A new element: the table grows when it has more elements than buckets.\<close>

lemma grow_spec:
  assumes b: "buckets T H bs" and ch: "list_all2 (chain f) hs bs'" and l: "length bs' = length bs" and bu: "bucketed (ht_length T) H bs'"
    and ms: "mset (concat bs') = add_mset h (mset (concat bs))" and h: "h \<notin> set (concat bs)"
    and n: "card (set (concat bs)) < 2 ^ 31"
  defines "T2 \<equiv> T\<lparr>ht_list := hs, ht_elems := ht_elems T + 1\<rparr>"
  shows "\<exists>T' g bs''. (if ht_length T2 < ht_elems T2 then HT_Resize T2 (H\<lparr>next_hash_of := f\<rparr>) else Some (T2, H\<lparr>next_hash_of := f\<rparr>)) =
      Some (T', H\<lparr>next_hash_of := g\<rparr>) \<and> buckets T' (H\<lparr>next_hash_of := g\<rparr>) bs'' \<and> set (concat bs'') = insert h (set (concat bs))"
proof -
  obtain k where k: "k < 32" "ht_length T = 2 ^ k" "length bs = 2 ^ k" and di: "distinct (concat bs)"
    and el: "ht_elems T = of_nat (length (concat bs))" using b by (auto simp: buckets_def)
  have ms': "mset (concat bs') = mset (h # concat bs)" using ms by simp
  have S: "set (concat bs') = insert h (set (concat bs))" using mset_eq_setD [OF ms'] by (simp only: list.set)
  have d': "distinct (concat bs')" using mset_eq_imp_distinct_iff [OF ms'] h di by simp
  have len: "length (concat bs') = Suc (length (concat bs))" using mset_eq_length [OF ms'] by simp
  then have small: "length (concat bs') \<le> 2 ^ 31" using n distinct_card [OF di] by simp
  have el': "ht_elems T2 = of_nat (length (concat bs'))" using el len by (simp add: T2_def del: length_concat)
  have un: "unat (ht_elems T2) = length (concat bs')" unfolding el' using small by (simp add: unat_of_nat_small del: length_concat)
  show ?thesis
  proof (cases "ht_length T2 < ht_elems T2")
    case True
    have "handles (H\<lparr>next_hash_of := f\<rparr>) y \<noteq> None" if y: "y \<in> set (concat bs')" for y
    proof -
      from y obtain c where "c \<in> set bs'" "y \<in> set c" by auto
      then obtain j where "j < length bs'" "y \<in> set (bs' ! j)" by (metis in_set_conv_nth)
      from bucketedD [OF bu this] show ?thesis by auto
    qed
    from HT_Resize_spec [of "H\<lparr>next_hash_of := f\<rparr>" T2 bs', OF _ d' small el' this] ch obtain T' g bs'' where
      "HT_Resize T2 (H\<lparr>next_hash_of := f\<rparr>) = Some (T', H\<lparr>next_hash_of := g\<rparr>)" "buckets T' (H\<lparr>next_hash_of := g\<rparr>) bs''"
      "mset (concat bs'') = mset (concat bs')" by (auto simp: T2_def)
    then show ?thesis using True S mset_eq_setD by (metis (no_types, lifting))
  next
    case False
    then have "length (concat bs') \<le> 2 ^ k" using un unat_pow2 [OF k(1)] k(2) by (simp add: T2_def word_less_nat_alt)
    then have "buckets T2 (H\<lparr>next_hash_of := f\<rparr>) bs'"
      using k ch l bu d' el' by (simp add: buckets_def T2_def del: length_concat)
    then show ?thesis using False S by auto
  qed
qed

lemma replace_spec:
  assumes b: "buckets T H bs" and ch: "list_all2 (chain f) hs bs'" and l: "length bs' = length bs" and bu: "bucketed (ht_length T) H bs'"
    and ms: "mset (p # concat bs') = mset (h # concat bs)" and h: "h \<notin> set (concat bs)" and p: "p \<in> set (concat bs)"
  shows "buckets (T\<lparr>ht_list := hs\<rparr>) (H\<lparr>next_hash_of := f\<rparr>) bs'" "set (concat bs') = insert h (set (concat bs) - {p})"
proof -
  have di: "distinct (h # concat bs)" using b h by (simp add: buckets_def)
  have d': "distinct (p # concat bs')" using mset_eq_imp_distinct_iff [OF ms] di by blast
  have "length (concat bs') = length (concat bs)" using mset_eq_length [OF ms] by simp
  then show "buckets (T\<lparr>ht_list := hs\<rparr>) (H\<lparr>next_hash_of := f\<rparr>) bs'"
    using b ch l bu d' by (simp add: buckets_def del: length_concat)
  have "insert p (set (concat bs')) = insert h (set (concat bs))" using mset_eq_setD [OF ms] by (simp only: list.set)
  moreover have "set (concat bs') = insert p (set (concat bs')) - {p}" using d' by (simp del: set_concat)
  moreover have "p \<noteq> h" using h p by blast
  ultimately show "set (concat bs') = insert h (set (concat bs) - {p})" by (simp only: insert_Diff_if) simp
qed

lemma inj_on_insert_key: "inj_on k C \<Longrightarrow> \<forall>p \<in> C. k p \<noteq> k h \<Longrightarrow> inj_on k (insert h C)"
  unfolding inj_on_def by (metis insertE)

lemma inj_on_replace_key: "inj_on k C \<Longrightarrow> p \<in> C \<Longrightarrow> k p = k h \<Longrightarrow> inj_on k (insert h (C - {p}))"
  unfolding inj_on_def by (metis Diff_iff insertE singletonI)

lemma HT_Insert_spec:
  assumes t: "tab T H C" and h: "readable H h" "h \<notin> C" "h \<noteq> Null" and n: "card C < 2 ^ 31"
  shows "\<exists>old T' f. HT_Insert h T H = Some (old, T', H\<lparr>next_hash_of := f\<rparr>) \<and>
    (old = Null \<and> (\<forall>p \<in> C. key_of_handle H p \<noteq> key_of_handle H h) \<and> tab T' (H\<lparr>next_hash_of := f\<rparr>) (insert h C) \<or>
     old \<noteq> Null \<and> old \<in> C \<and> key_of_handle H old = key_of_handle H h \<and> tab T' (H\<lparr>next_hash_of := f\<rparr>) (insert h (C - {old})))"
proof -
  obtain bs where bs: "buckets T H bs" "C = set (concat bs)" "\<And>p. p \<in> set (concat bs) \<Longrightarrow> readable H p"
    and inj: "inj_on (key_of_handle H) C" using t by (auto simp: tab_def)
  obtain x where x: "handles H h = Some x" using h(1) by (auto simp: readable_def)
  have kh: "LRUHandle_key H h = Some (lh_key x)" "key_of_handle H h = Some (lh_hash x, lh_key x)"
    using readable_key [OF h(1) x] x by (simp_all add: key_of_handle_def)
  from FindPointer_spec [OF bs(1,3), of "lh_hash x" "lh_key x"] obtain i pre suf where
    f: "i < length bs" "bs ! i = pre @ suf" "FindPointer T H (lh_key x) (lh_hash x) = Some (slot_after (Bucket i) pre)"
      "load_slot T H (slot_after (Bucket i) pre) = Some (hd (suf @ [Null]))" "i = bucket (ht_length T) (lh_hash x)"
      "suf = [] \<and> (\<forall>p \<in> set (concat bs). key_of_handle H p \<noteq> Some (lh_hash x, lh_key x)) \<or>
       suf \<noteq> [] \<and> hd suf \<noteq> Null \<and> key_of_handle H (hd suf) = Some (lh_hash x, lh_key x)" by blast
  have al: "allocated H h" by (simp add: allocated_def x)
  have hb: "h \<notin> set (concat bs)" using h(2) bs(2) by simp
  show ?thesis
  proof (cases suf)
    case Nil
    then have bi: "bs ! i = pre @ [] @ []" and new: "\<forall>p \<in> C. key_of_handle H p \<noteq> key_of_handle H h"
      using f(2,6) bs(2) kh(2) by simp_all
    note ins = insert_into_bucket [OF bs(1,3) f(1) bi hb h(3) x f(5) [symmetric]]
    obtain hs g where st: "store_slot (slot_after (Bucket i) pre) h T (H\<lparr>next_hash_of := (next_hash_of H)(h \<mapsto> Null)\<rparr>) =
        Some (T\<lparr>ht_list := hs\<rparr>, H\<lparr>next_hash_of := g\<rparr>)" "list_all2 (chain g) hs (bs[i := pre @ [h]])"
        "bucketed (ht_length T) H (bs[i := pre @ [h]])" using ins(1) by auto
    have ms: "mset (concat (bs[i := pre @ [h]])) = add_mset h (mset (concat bs))" using ins(2) by simp
    from grow_spec [OF bs(1) st(2) _ st(3) ms hb] n bs(2) obtain T' g' bs'' where
      gr: "(if ht_length T < ht_elems T + 1 then HT_Resize (T\<lparr>ht_list := hs, ht_elems := ht_elems T + 1\<rparr>) (H\<lparr>next_hash_of := g\<rparr>)
          else Some (T\<lparr>ht_list := hs, ht_elems := ht_elems T + 1\<rparr>, H\<lparr>next_hash_of := g\<rparr>)) = Some (T', H\<lparr>next_hash_of := g'\<rparr>)"
        "buckets T' (H\<lparr>next_hash_of := g'\<rparr>) bs''" "set (concat bs'') = insert h C" by auto
    have "tab T' (H\<lparr>next_hash_of := g'\<rparr>) (insert h C)"
      using gr(3) bs(2,3) h(1) inj_on_insert_key [OF inj new] by (intro tabI [OF gr(2)]) (auto simp del: set_concat)
    moreover have "HT_Insert h T H = Some (Null, T', H\<lparr>next_hash_of := g'\<rparr>)"
      using gr(1) f(3,4) Nil x kh(1) al st(1) by (simp add: HT_Insert_def set_next_hash_def Let_def split: if_splits)
    ultimately show ?thesis using new by blast
  next
    case (Cons p rest)
    have bi: "bs ! i = pre @ [p] @ rest" using f(2) Cons by simp
    note sp = bucket_split [OF bs(1,3) f(1) bi]
    have p: "p \<noteq> Null" "next_hash_of H p = Some (hd (rest @ [Null]))" "chain (next_hash_of H) (hd (rest @ [Null])) rest"
        "p \<in> C" "key_of_handle H p = key_of_handle H h"
      using sp(1,4) bi bs(2) f(6) Cons kh(2) by auto
    note ins = insert_into_bucket [OF bs(1,3) f(1) bi hb h(3) x f(5) [symmetric]]
    obtain hs g where st: "store_slot (slot_after (Bucket i) pre) h T (H\<lparr>next_hash_of := (next_hash_of H)(h \<mapsto> hd (rest @ [Null]))\<rparr>) =
        Some (T\<lparr>ht_list := hs\<rparr>, H\<lparr>next_hash_of := g\<rparr>)" "list_all2 (chain g) hs (bs[i := pre @ h # rest])"
        "bucketed (ht_length T) H (bs[i := pre @ h # rest])" using ins(1) p(3) by auto
    have ms: "mset (p # concat (bs[i := pre @ h # rest])) = mset (h # concat bs)" using ins(2) p(3) by simp
    have B: "buckets (T\<lparr>ht_list := hs\<rparr>) (H\<lparr>next_hash_of := g\<rparr>) (bs[i := pre @ h # rest])"
        "set (concat (bs[i := pre @ h # rest])) = insert h (C - {p})"
      using replace_spec [OF bs(1) st(2) _ st(3) ms hb] bs(2) p(4) by auto
    have "tab (T\<lparr>ht_list := hs\<rparr>) (H\<lparr>next_hash_of := g\<rparr>) (insert h (C - {p}))"
      using B(2) bs(2,3) h(1) inj_on_replace_key [OF inj p(4,5)] by (intro tabI [OF B(1)]) (auto simp del: set_concat)
    moreover have "HT_Insert h T H = Some (p, T\<lparr>ht_list := hs\<rparr>, H\<lparr>next_hash_of := g\<rparr>)"
      using f(3,4) Cons x kh(1) al st(1) p(1,2) by (simp add: HT_Insert_def set_next_hash_def)
    ultimately show ?thesis using p by blast
  qed
qed

end
