(* ===== verification/LRUSpec.thy ===== *)
theory LRUSpec
  imports LRUTable
begin

text \<open>
  An abstract cache: entries, the list of unused entries from the oldest to the newest, the entries
  in use and how many handles of each the clients hold. Every operation of a shard refines the
  operation of the same name here.
\<close>

section \<open>The abstract cache\<close>

record ('v, 'd) entry =
  e_value :: 'v
  e_deleter :: 'd
  e_charge :: u64
  e_hash :: u32
  e_key :: bytes

record ('v, 'd) acache =
  ac_capacity :: u64
  ac_entries :: "ptr \<rightharpoonup> ('v, 'd) entry"
  ac_lru :: "ptr list"
  ac_in_use :: "ptr list"
  ac_held :: "ptr \<Rightarrow> nat"
  ac_deleted :: "('d \<times> bytes \<times> 'v) list"

definition cached :: "('v, 'd) acache \<Rightarrow> ptr set" where
  "cached a = set (ac_lru a) \<union> set (ac_in_use a)"

definition entry_key :: "('v, 'd) acache \<Rightarrow> ptr \<Rightarrow> (u32 \<times> bytes) option" where
  "entry_key a p = map_option (\<lambda>e. (e_hash e, e_key e)) (ac_entries a p)"

definition charge_of :: "('v, 'd) acache \<Rightarrow> ptr \<Rightarrow> u64" where
  "charge_of a p = (case ac_entries a p of None \<Rightarrow> 0 | Some e \<Rightarrow> e_charge e)"

definition a_usage :: "('v, 'd) acache \<Rightarrow> u64" where
  "a_usage a = (\<Sum>p \<leftarrow> ac_lru a @ ac_in_use a. charge_of a p)"

definition a_find :: "u32 \<Rightarrow> bytes \<Rightarrow> ('v, 'd) acache \<Rightarrow> ptr option" where
  "a_find hash key a = find (\<lambda>p. entry_key a p = Some (hash, key)) (ac_lru a @ ac_in_use a)"

text \<open>The last reference is gone: the entry is passed to its deleter.\<close>

definition a_free :: "ptr \<Rightarrow> ('v, 'd) acache \<Rightarrow> ('v, 'd) acache" where
  "a_free p a =
     (case ac_entries a p of
        None \<Rightarrow> a
      | Some e \<Rightarrow> a\<lparr>ac_entries := (ac_entries a)(p := None), ac_deleted := ac_deleted a @ [(e_deleter e, e_key e, e_value e)]\<rparr>)"

definition a_uncache :: "ptr \<Rightarrow> ('v, 'd) acache \<Rightarrow> ('v, 'd) acache" where
  "a_uncache p a =
     (let a1 = a\<lparr>ac_lru := remove1 p (ac_lru a), ac_in_use := remove1 p (ac_in_use a)\<rparr>
      in if ac_held a p = 0 then a_free p a1 else a1)"

definition a_ref :: "ptr \<Rightarrow> ('v, 'd) acache \<Rightarrow> ('v, 'd) acache" where
  "a_ref p a =
     (let a1 = a\<lparr>ac_held := (ac_held a)(p := Suc (ac_held a p))\<rparr>
      in if ac_held a p = 0 then a1\<lparr>ac_lru := remove1 p (ac_lru a), ac_in_use := ac_in_use a @ [p]\<rparr> else a1)"

definition a_release :: "ptr \<Rightarrow> ('v, 'd) acache \<Rightarrow> ('v, 'd) acache" where
  "a_release p a =
     (let a1 = a\<lparr>ac_held := (ac_held a)(p := ac_held a p - 1)\<rparr>
      in if ac_held a p \<noteq> 1 then a1
         else if p \<in> cached a then a1\<lparr>ac_in_use := remove1 p (ac_in_use a), ac_lru := ac_lru a @ [p]\<rparr>
         else a_free p a1)"

definition a_lookup :: "bytes \<Rightarrow> u32 \<Rightarrow> ('v, 'd) acache \<Rightarrow> ptr \<times> ('v, 'd) acache" where
  "a_lookup key hash a = (case a_find hash key a of None \<Rightarrow> (Null, a) | Some p \<Rightarrow> (p, a_ref p a))"

definition a_erase :: "bytes \<Rightarrow> u32 \<Rightarrow> ('v, 'd) acache \<Rightarrow> ('v, 'd) acache" where
  "a_erase key hash a = (case a_find hash key a of None \<Rightarrow> a | Some p \<Rightarrow> a_uncache p a)"

lemma a_uncache_lru: "ac_lru (a_uncache p a) = remove1 p (ac_lru a)"
  by (simp add: a_uncache_def a_free_def Let_def split: option.splits)

function a_evict :: "('v, 'd) acache \<Rightarrow> ('v, 'd) acache" where
  "a_evict a = (if ac_capacity a < a_usage a \<and> ac_lru a \<noteq> [] then a_evict (a_uncache (hd (ac_lru a)) a) else a)"
  by pat_completeness auto
termination
  by (relation "measure (\<lambda>a. length (ac_lru a))") (auto simp: a_uncache_lru length_remove1)

function a_prune :: "('v, 'd) acache \<Rightarrow> ('v, 'd) acache" where
  "a_prune a = (if ac_lru a \<noteq> [] then a_prune (a_uncache (hd (ac_lru a)) a) else a)"
  by pat_completeness auto
termination
  by (relation "measure (\<lambda>a. length (ac_lru a))") (auto simp: a_uncache_lru length_remove1)

declare a_evict.simps [simp del] a_prune.simps [simp del]

definition a_alloc :: "ptr \<Rightarrow> bytes \<Rightarrow> u32 \<Rightarrow> 'v \<Rightarrow> u64 \<Rightarrow> 'd \<Rightarrow> ('v, 'd) acache \<Rightarrow> ('v, 'd) acache" where
  "a_alloc p key hash v charge deleter a =
     a\<lparr>ac_entries := (ac_entries a)(p \<mapsto> \<lparr>e_value = v, e_deleter = deleter, e_charge = charge, e_hash = hash, e_key = key\<rparr>),
       ac_held := (ac_held a)(p := 1)\<rparr>"

definition a_cache :: "ptr \<Rightarrow> ('v, 'd) acache \<Rightarrow> ('v, 'd) acache" where
  "a_cache p a = a\<lparr>ac_in_use := ac_in_use a @ [p]\<rparr>"

definition a_insert :: "ptr \<Rightarrow> bytes \<Rightarrow> u32 \<Rightarrow> 'v \<Rightarrow> u64 \<Rightarrow> 'd \<Rightarrow> ('v, 'd) acache \<Rightarrow> ('v, 'd) acache" where
  "a_insert p key hash v charge deleter a =
     (let a1 = a_alloc p key hash v charge deleter a
      in a_evict
           (if 0 < ac_capacity a then
              (case a_find hash key a of None \<Rightarrow> a_cache p a1 | Some q \<Rightarrow> a_uncache q (a_cache p a1))
            else a1))"

definition a_new :: "u64 \<Rightarrow> ('v, 'd) acache" where
  "a_new cap = \<lparr>ac_capacity = cap, ac_entries = Map.empty, ac_lru = [], ac_in_use = [], ac_held = (\<lambda>p. 0), ac_deleted = []\<rparr>"

section \<open>Well-formed abstract caches\<close>

definition alive :: "('v, 'd) acache \<Rightarrow> ptr set" where
  "alive a = dom (ac_entries a)"

definition a_wf :: "('v, 'd) acache \<Rightarrow> bool" where
  "a_wf a \<longleftrightarrow> distinct (ac_lru a @ ac_in_use a) \<and> cached a \<subseteq> alive a \<and> alive a \<subseteq> range Ptr \<and>
     (\<forall>p \<in> set (ac_lru a). ac_held a p = 0) \<and> (\<forall>p \<in> set (ac_in_use a). 0 < ac_held a p) \<and>
     (\<forall>p \<in> alive a. p \<notin> cached a \<longrightarrow> 0 < ac_held a p) \<and> (\<forall>p. p \<notin> alive a \<longrightarrow> ac_held a p = 0) \<and>
     (\<forall>p. ac_held a p + 1 < 2 ^ 32)"

text \<open>Between the steps of an insertion two cached entries may have the same key.\<close>

definition a_ok :: "('v, 'd) acache \<Rightarrow> bool" where
  "a_ok a \<longleftrightarrow> a_wf a \<and> inj_on (entry_key a) (cached a)"

lemma a_wfI:
  assumes "distinct (ac_lru a @ ac_in_use a)" "cached a \<subseteq> alive a" "alive a \<subseteq> range Ptr"
    "\<And>p. p \<in> set (ac_lru a) \<Longrightarrow> ac_held a p = 0" "\<And>p. p \<in> set (ac_in_use a) \<Longrightarrow> 0 < ac_held a p"
    "\<And>p. p \<in> alive a \<Longrightarrow> p \<notin> cached a \<Longrightarrow> 0 < ac_held a p" "\<And>p. p \<notin> alive a \<Longrightarrow> ac_held a p = 0"
    "\<And>p. ac_held a p + 1 < 2 ^ 32"
  shows "a_wf a"
  unfolding a_wf_def using assms by blast

lemma a_wfD:
  assumes "a_wf a"
  shows "distinct (ac_lru a @ ac_in_use a)" "cached a \<subseteq> alive a" "alive a \<subseteq> range Ptr"
    "p \<in> set (ac_lru a) \<Longrightarrow> ac_held a p = 0" "p \<in> set (ac_in_use a) \<Longrightarrow> 0 < ac_held a p"
    "p \<in> alive a \<Longrightarrow> p \<notin> cached a \<Longrightarrow> 0 < ac_held a p" "p \<notin> alive a \<Longrightarrow> ac_held a p = 0"
    "ac_held a p + 1 < 2 ^ 32"
  using assms unfolding a_wf_def by blast+

lemma a_okD: "a_ok a \<Longrightarrow> a_wf a" "a_ok a \<Longrightarrow> inj_on (entry_key a) (cached a)"
  by (simp_all add: a_ok_def)

lemma cached_held:
  assumes "a_wf a" "p \<in> cached a"
  shows "p \<in> set (ac_lru a) \<longleftrightarrow> ac_held a p = 0" "p \<in> set (ac_in_use a) \<longleftrightarrow> ac_held a p \<noteq> 0"
  using a_wfD(4,5) [OF assms(1), of p] assms(2) by (auto simp: cached_def)

lemma a_ok_new: "a_ok (a_new cap)"
  by (simp add: a_ok_def a_wf_def a_new_def cached_def alive_def)

lemma find_SomeD: "find P xs = Some x \<Longrightarrow> x \<in> set xs \<and> P x"
  by (induction xs) (auto split: if_splits)

lemma a_find_None: "a_find hash key a = None \<longleftrightarrow> (\<forall>p \<in> cached a. entry_key a p \<noteq> Some (hash, key))"
  by (auto simp: a_find_def find_None_iff cached_def)

lemma a_find_Some:
  assumes "a_ok a"
  shows "a_find hash key a = Some p \<longleftrightarrow> p \<in> cached a \<and> entry_key a p = Some (hash, key)"
proof
  assume "a_find hash key a = Some p"
  from find_SomeD [OF this [unfolded a_find_def]] show "p \<in> cached a \<and> entry_key a p = Some (hash, key)" by (auto simp: cached_def)
next
  assume p: "p \<in> cached a \<and> entry_key a p = Some (hash, key)"
  then obtain q where q: "a_find hash key a = Some q" using a_find_None [of hash key a] by (cases "a_find hash key a") auto
  from find_SomeD [OF this [unfolded a_find_def]] have "q \<in> cached a" "entry_key a q = Some (hash, key)" by (auto simp: cached_def)
  with p have "q = p" using inj_on_eq_iff [OF a_okD(2) [OF assms], of q p] by simp
  with q show "a_find hash key a = Some p" by simp
qed

lemma a_uncache_fields:
  assumes "a_wf a"
  shows "cached (a_uncache p a) = cached a - {p}" "ac_lru (a_uncache p a) = remove1 p (ac_lru a)"
    "ac_in_use (a_uncache p a) = remove1 p (ac_in_use a)" "ac_held (a_uncache p a) = ac_held a" "ac_capacity (a_uncache p a) = ac_capacity a"
    "ac_entries (a_uncache p a) = (if ac_held a p = 0 then (ac_entries a)(p := None) else ac_entries a)"
    "alive (a_uncache p a) = (if ac_held a p = 0 then alive a - {p} else alive a)"
  using a_wfD(1) [OF assms]
  by (auto simp: a_uncache_def a_free_def Let_def cached_def alive_def set_remove1_eq fun_upd_idem split: option.splits)

lemma a_ref_fields:
  assumes "a_wf a" "p \<in> cached a"
  shows "cached (a_ref p a) = cached a" "ac_entries (a_ref p a) = ac_entries a" "ac_held (a_ref p a) = (ac_held a)(p := Suc (ac_held a p))"
    "ac_lru (a_ref p a) = (if ac_held a p = 0 then remove1 p (ac_lru a) else ac_lru a)"
    "ac_in_use (a_ref p a) = (if ac_held a p = 0 then ac_in_use a @ [p] else ac_in_use a)"
    "ac_capacity (a_ref p a) = ac_capacity a" "ac_deleted (a_ref p a) = ac_deleted a" "alive (a_ref p a) = alive a"
  using a_wfD(1) [OF assms(1)] assms(2) cached_held [OF assms]
  by (auto simp: a_ref_def Let_def cached_def alive_def set_remove1_eq)

lemma a_release_fields:
  assumes "a_wf a" "0 < ac_held a p"
  shows "cached (a_release p a) = cached a" "ac_held (a_release p a) = (ac_held a)(p := ac_held a p - 1)"
    "ac_entries (a_release p a) = (if ac_held a p = 1 \<and> p \<notin> cached a then (ac_entries a)(p := None) else ac_entries a)"
    "ac_lru (a_release p a) = (if ac_held a p = 1 \<and> p \<in> cached a then ac_lru a @ [p] else ac_lru a)"
    "ac_in_use (a_release p a) = (if ac_held a p = 1 \<and> p \<in> cached a then remove1 p (ac_in_use a) else ac_in_use a)"
    "ac_capacity (a_release p a) = ac_capacity a" "alive (a_release p a) = (if ac_held a p = 1 \<and> p \<notin> cached a then alive a - {p} else alive a)"
  using a_wfD(1) [OF assms(1)] assms(2)
  by (auto simp: a_release_def a_free_def Let_def cached_def alive_def set_remove1_eq fun_upd_idem split: option.splits)

lemma entry_key_cong: "(\<And>p. p \<in> C \<Longrightarrow> ac_entries a p = ac_entries b p) \<Longrightarrow> inj_on (entry_key a) C = inj_on (entry_key b) C"
  by (rule inj_on_cong) (simp add: entry_key_def)

lemma a_wf_uncache:
  assumes "a_wf a"
  shows "a_wf (a_uncache p a)"
proof -
  note f = a_uncache_fields [OF assms, of p] and D = a_wfD [OF assms]
  have S: "set (remove1 p (ac_lru a)) = set (ac_lru a) - {p}" "set (remove1 p (ac_in_use a)) = set (ac_in_use a) - {p}"
    and d: "distinct (remove1 p (ac_lru a) @ remove1 p (ac_in_use a))"
    using D(1) by (auto simp: set_remove1_eq)
  show ?thesis
    by (rule a_wfI; simp only: f S) (use d D(2-8) in \<open>auto split: if_splits\<close>)
qed

lemma a_ok_uncache:
  assumes "a_wf a" "inj_on (entry_key a) (cached a - {p})"
  shows "a_ok (a_uncache p a)"
proof -
  note f = a_uncache_fields [OF assms(1), of p]
  have "inj_on (entry_key (a_uncache p a)) (cached a - {p}) = inj_on (entry_key a) (cached a - {p})"
    by (rule entry_key_cong) (simp add: f(6))
  then show ?thesis using a_wf_uncache [OF assms(1)] assms(2) f(1) by (simp add: a_ok_def)
qed

lemma a_ok_uncache': "a_ok a \<Longrightarrow> a_ok (a_uncache p a)"
  by (rule a_ok_uncache) (simp_all add: a_okD inj_on_diff)

lemma a_ok_ref:
  assumes "a_ok a" "p \<in> cached a" "ac_held a p + 2 < 2 ^ 32"
  shows "a_ok (a_ref p a)"
proof -
  note wf = a_okD(1) [OF assms(1)]
  note f = a_ref_fields [OF wf assms(2)] and D = a_wfD [OF wf]
  have "inj_on (entry_key (a_ref p a)) (cached a)"
    using entry_key_cong [of "cached a" "a_ref p a" a] a_okD(2) [OF assms(1)] f(2) by simp
  moreover have "a_wf (a_ref p a)"
  proof (cases "ac_held a p = 0")
    case True
    have S: "set (remove1 p (ac_lru a)) = set (ac_lru a) - {p}" using D(1) by (simp add: set_remove1_eq)
    have d: "distinct (remove1 p (ac_lru a) @ ac_in_use a @ [p])"
      using D(1) cached_held [OF wf assms(2)] True by (auto simp: set_remove1_eq)
    show ?thesis
      by (rule a_wfI; simp only: f True S if_True) (use d D(2-8) assms(2) True S in auto)
  next
    case False
    then have g: "ac_lru (a_ref p a) = ac_lru a" "ac_in_use (a_ref p a) = ac_in_use a" using f(4,5) by simp_all
    show ?thesis
      by (rule a_wfI; simp only: f(1,3,8) g)
        (use D(1-8) False assms(2,3) in \<open>auto split: if_splits\<close>)
  qed
  ultimately show ?thesis using f(1) by (simp add: a_ok_def)
qed

lemma a_ok_release:
  assumes "a_ok a" "0 < ac_held a p"
  shows "a_ok (a_release p a)"
proof -
  note wf = a_okD(1) [OF assms(1)]
  note f = a_release_fields [OF wf assms(2)] and D = a_wfD [OF wf]
  have "inj_on (entry_key (a_release p a)) (cached a) = inj_on (entry_key a) (cached a)"
    by (rule entry_key_cong) (auto simp: f(3))
  moreover have "a_wf (a_release p a)"
  proof (cases "ac_held a p = 1 \<and> p \<in> cached a")
    case True
    have S: "set (remove1 p (ac_in_use a)) = set (ac_in_use a) - {p}" using D(1) by (simp add: set_remove1_eq)
    have d: "distinct ((ac_lru a @ [p]) @ remove1 p (ac_in_use a))" using D(1) D(4) [of p] True by (auto simp: set_remove1_eq)
    show ?thesis
      by (rule a_wfI; simp only: f True S if_True) (use d D(2-8) True S in auto)
  next
    case False
    then have g: "ac_lru (a_release p a) = ac_lru a" "ac_in_use (a_release p a) = ac_in_use a" using f(4,5) by auto
    have "ac_held a p \<noteq> 1" if "p \<in> set (ac_in_use a)" using False that by (auto simp: cached_def)
    moreover have "ac_held a p - 1 < 2 ^ 32 - 1" using D(8) [of p] by simp
    ultimately show ?thesis
      by (intro a_wfI; simp only: f(1,2,7) g)
        (use D(1-8) False assms(2) in \<open>auto split: if_splits\<close>)
  qed
  ultimately show ?thesis using f(1) a_okD(2) [OF assms(1)] by (simp add: a_ok_def)
qed

lemma a_evict_ok: "a_ok a \<Longrightarrow> a_ok (a_evict a)"
proof (induction a rule: a_evict.induct)
  case (1 a)
  then show ?case by (subst a_evict.simps) (auto intro: a_ok_uncache')
qed

lemma a_prune_ok: "a_ok a \<Longrightarrow> a_ok (a_prune a)"
proof (induction a rule: a_prune.induct)
  case (1 a)
  then show ?case by (subst a_prune.simps) (auto intro: a_ok_uncache')
qed

text \<open>A new entry that is held once, before and after it is entered into the cache.\<close>

lemma a_alloc_fields:
  "cached (a_alloc p key hash v charge deleter a) = cached a" "alive (a_alloc p key hash v charge deleter a) = insert p (alive a)"
  "ac_held (a_alloc p key hash v charge deleter a) = (ac_held a)(p := 1)" "ac_lru (a_alloc p key hash v charge deleter a) = ac_lru a"
  "ac_in_use (a_alloc p key hash v charge deleter a) = ac_in_use a" "ac_capacity (a_alloc p key hash v charge deleter a) = ac_capacity a"
  "ac_deleted (a_alloc p key hash v charge deleter a) = ac_deleted a"
  "ac_entries (a_alloc p key hash v charge deleter a) =
     (ac_entries a)(p \<mapsto> \<lparr>e_value = v, e_deleter = deleter, e_charge = charge, e_hash = hash, e_key = key\<rparr>)"
  by (auto simp: a_alloc_def cached_def alive_def)

lemma a_cache_fields:
  "cached (a_cache p a) = insert p (cached a)" "alive (a_cache p a) = alive a" "ac_held (a_cache p a) = ac_held a"
  "ac_lru (a_cache p a) = ac_lru a" "ac_in_use (a_cache p a) = ac_in_use a @ [p]" "ac_capacity (a_cache p a) = ac_capacity a"
  "ac_deleted (a_cache p a) = ac_deleted a" "ac_entries (a_cache p a) = ac_entries a"
  by (auto simp: a_cache_def cached_def alive_def)

lemma a_wf_alloc:
  assumes "a_wf a" "Ptr n \<notin> alive a"
  shows "a_wf (a_alloc (Ptr n) key hash v charge deleter a)"
proof -
  note D = a_wfD [OF assms(1)]
  have "Ptr n \<notin> cached a" using D(2) assms(2) by blast
  then show ?thesis
    by (intro a_wfI; simp only: a_alloc_fields) (use D assms(2) in \<open>auto simp: cached_def\<close>)
qed

lemma a_wf_cache:
  assumes "a_wf a" "p \<in> alive a" "p \<notin> cached a"
  shows "a_wf (a_cache p a)"
proof -
  note D = a_wfD [OF assms(1)]
  have "0 < ac_held a p" using D(6) assms(2,3) by blast
  then show ?thesis
    by (intro a_wfI; simp only: a_cache_fields) (use D assms(2,3) in \<open>auto simp: cached_def\<close>)
qed

end
