(* ===== verification/LRURefine.thy ===== *)
theory LRURefine
  imports LRUSpec
begin

text \<open>
  One shard of the cache refines the abstract cache: from a shard that represents an abstract cache
  every operation returns, without undefined behaviour or a failed assertion, a shard that
  represents the result of the abstract operation.
\<close>

section \<open>Representation\<close>

definition handle_for :: "('v, 'd) acache \<Rightarrow> ptr \<Rightarrow> ('v, 'd) LRUHandle option" where
  "handle_for a p = map_option (\<lambda>e. \<lparr>lh_value = e_value e, lh_deleter = e_deleter e, lh_charge = e_charge e,
     lh_in_cache = (p \<in> cached a), lh_refs = of_nat (ac_held a p + (if p \<in> cached a then 1 else 0)),
     lh_hash = e_hash e, lh_key = e_key e\<rparr>) (ac_entries a p)"

definition lists_ok :: "('v, 'd) Heap \<Rightarrow> ('v, 'd) acache \<Rightarrow> bool" where
  "lists_ok H a \<longleftrightarrow> dll H LruHead (ac_lru a) \<and> dll H InUseHead (ac_in_use a) \<and>
     (\<forall>p \<in> alive a. \<exists>n. next_of H p = Some n \<and> n \<noteq> p)"

definition rep :: "('v, 'd) LRUCache \<Rightarrow> ('v, 'd) acache \<Rightarrow> bool" where
  "rep c a \<longleftrightarrow> a_ok a \<and> handles (heap c) = handle_for a \<and> lists_ok (heap c) a \<and> tab (table c) (heap c) (cached a) \<and>
     usage c = a_usage a \<and> capacity c = ac_capacity a \<and> deleted c = ac_deleted a"

lemma repD:
  assumes "rep c a"
  shows "a_ok a" "a_wf a" "handles (heap c) = handle_for a" "lists_ok (heap c) a" "tab (table c) (heap c) (cached a)"
    "usage c = a_usage a" "capacity c = ac_capacity a" "deleted c = ac_deleted a"
  using assms by (auto simp: rep_def a_ok_def)

lemma repI:
  assumes "a_ok a" "handles (heap c) = handle_for a" "lists_ok (heap c) a" "tab (table c) (heap c) (cached a)"
    "usage c = a_usage a" "capacity c = ac_capacity a" "deleted c = ac_deleted a"
  shows "rep c a"
  using assms by (simp add: rep_def)

lemma lists_okD:
  assumes "lists_ok H a"
  shows "dll H LruHead (ac_lru a)" "dll H InUseHead (ac_in_use a)" "p \<in> alive a \<Longrightarrow> \<exists>n. next_of H p = Some n \<and> n \<noteq> p"
  using assms by (auto simp: lists_ok_def)

lemma lists_okI:
  assumes "dll H LruHead (ac_lru a)" "dll H InUseHead (ac_in_use a)"
    "\<And>p. p \<in> alive a \<Longrightarrow> p \<notin> cached a \<Longrightarrow> \<exists>n. next_of H p = Some n \<and> n \<noteq> p"
  shows "lists_ok H a"
proof -
  have "\<exists>n. next_of H p = Some n \<and> n \<noteq> p" if "p \<in> alive a" for p
  proof (cases "p \<in> cached a")
    case True
    then have "p \<in> set (ac_lru a) \<or> p \<in> set (ac_in_use a)" by (auto simp: cached_def)
    then show ?thesis
      using dll_next [OF assms(1), of p] dll_next [OF assms(2), of p] by fastforce
  qed (use assms(3) that in blast)
  then show ?thesis using assms(1,2) by (simp add: lists_ok_def)
qed

lemma handle_for_alive: "handle_for a p \<noteq> None \<longleftrightarrow> p \<in> alive a"
  by (auto simp: handle_for_def alive_def)

lemma dom_handle_for [simp]: "dom (handle_for a) = alive a"
  by (auto simp: handle_for_def alive_def)

lemma key_of_handle_for: "handles H = handle_for a \<Longrightarrow> key_of_handle H = entry_key a"
  by (rule ext) (simp add: key_of_handle_def entry_key_def handle_for_def option.map_comp comp_def)

lemma readable_alive: "handles H = handle_for a \<Longrightarrow> lists_ok H a \<Longrightarrow> p \<in> alive a \<Longrightarrow> readable H p"
  using lists_okD(3) [of H a p] handle_for_alive [of a p] by (auto simp: readable_def)

lemma tab_frame:
  assumes "tab T H C" "\<And>p. p \<in> C \<Longrightarrow> key_of_handle H' p = key_of_handle H p"
    "\<And>p. p \<in> C \<Longrightarrow> next_hash_of H' p = next_hash_of H p" "\<And>p. p \<in> C \<Longrightarrow> readable H' p"
  shows "tab T H' C"
proof -
  obtain bs where bs: "buckets T H bs" "C = set (concat bs)" "inj_on (key_of_handle H) C" using assms(1) by (auto simp: tab_def)
  have "bucketed (ht_length T) H' bs"
    unfolding bucketed_def
  proof (intro allI impI ballI)
    fix i p assume ip: "i < length bs" "p \<in> set (bs ! i)"
    then have "p \<in> C" using bs(2) nth_mem [OF ip(1)] by auto
    moreover obtain x where "handles H p = Some x" "bucket (ht_length T) (lh_hash x) = i"
      using bs(1) bucketedD [of "ht_length T" H bs i p] ip by (auto simp: buckets_def)
    ultimately show "\<exists>x. handles H' p = Some x \<and> bucket (ht_length T) (lh_hash x) = i"
      using assms(2) [of p] by (cases "handles H' p") (auto simp: key_of_handle_def)
  qed
  moreover have "list_all2 (chain (next_hash_of H')) (ht_list T) bs"
    by (rule list_all2_chain_cong) (use bs(1,2) assms(3) in \<open>auto simp: buckets_def\<close>)
  ultimately have "buckets T H' bs" using bs(1) by (simp add: buckets_def)
  moreover have "inj_on (key_of_handle H') C = inj_on (key_of_handle H) C" by (rule inj_on_cong) (rule assms(2))
  ultimately show ?thesis using bs(2,3) assms(4) by (intro tabI) simp_all
qed

lemma of_nat_refs: "n < 2 ^ 32 \<Longrightarrow> of_nat n = (1 :: u32) \<longleftrightarrow> n = 1" "n < 2 ^ 32 \<Longrightarrow> of_nat n = (0 :: u32) \<longleftrightarrow> n = 0"
  using unat_of_nat_small [of n, where 'a = 32] by (auto simp del: unsigned_of_nat)

section \<open>Moving a handle from one list to the other\<close>

lemma move_spec:
  assumes "dll H A (xs @ e # ys)" "dll H B zs" "set (A # xs @ e # ys) \<inter> set (B # zs) = {}"
    and al: "\<And>x. x \<in> set (A # xs @ e # ys) \<union> set (B # zs) \<Longrightarrow> allocated H x"
  shows "\<exists>H'. LRU_Remove e H \<bind> LRU_Append B e = Some H' \<and> dll H' A (xs @ ys) \<and> dll H' B (zs @ [e]) \<and>
    relinked (set (A # xs @ e # ys) \<union> set (B # zs)) H H'"
proof -
  obtain H1 where H1: "LRU_Remove e H = Some H1" "dll H1 A (xs @ ys)" "relinked (set (A # xs @ ys)) H H1"
    using LRU_Remove_spec [OF assms(1)] al by auto
  note r1 = relinkedD [OF H1(3)]
  have e: "e \<notin> set (B # zs)" "e \<notin> set (A # xs @ ys)" using assms(1,3) by (auto simp: dll_def)
  have "dll H1 B zs" using relinked_dll [OF H1(3), of B zs] assms(2,3) by auto
  from LRU_Append_spec [OF this e(1)] al r1(5) obtain H2 where
    H2: "LRU_Append B e H1 = Some H2" "dll H2 B (zs @ [e])" "relinked (set (B # zs @ [e])) H1 H2" by auto
  note r2 = relinkedD [OF H2(3)]
  have "dll H2 A (xs @ ys)" using relinked_dll [OF H2(3), of A "xs @ ys"] H1(2) assms(3) e by auto
  moreover have "relinked (set (A # xs @ e # ys) \<union> set (B # zs)) H H2"
    using r1(1-4) r2(1-4) by (auto simp: relinked_def)
  ultimately show ?thesis using H1(1) H2(1,2) by auto
qed

text \<open>The two lists and their heads are allocated and disjoint.\<close>

lemma lists_apart:
  assumes "a_wf a" "dom (handles H) = alive a" "p \<in> set (ac_lru a) \<or> p \<in> set (ac_in_use a)"
  shows "allocated H p" "p \<noteq> LruHead" "p \<noteq> InUseHead" "p \<noteq> Null"
proof -
  have "p \<in> alive a" using a_wfD(2) [OF assms(1)] assms(3) by (auto simp: cached_def)
  then show "allocated H p" "p \<noteq> LruHead" "p \<noteq> InUseHead" "p \<noteq> Null"
    using a_wfD(3) [OF assms(1)] assms(2) by (auto simp: allocated_def)
qed

lemma heads_apart:
  assumes "a_wf a" "dom (handles H) = alive a"
  shows "set (LruHead # ac_lru a) \<inter> set (InUseHead # ac_in_use a) = {}"
    "x \<in> set (LruHead # ac_lru a) \<union> set (InUseHead # ac_in_use a) \<Longrightarrow> allocated H x"
  using lists_apart [OF assms] a_wfD(1) [OF assms(1)] by auto

lemma split_remove1: "distinct xs \<Longrightarrow> e \<in> set xs \<Longrightarrow> \<exists>us vs. xs = us @ e # vs \<and> remove1 e xs = us @ vs"
  by (metis remove1_append remove1.simps(2) split_list_first)

lemma move_to_in_use:
  assumes "a_wf a" "dom (handles H) = alive a" "lists_ok H a" "e \<in> set (ac_lru a)"
  shows "\<exists>H'. LRU_Remove e H \<bind> LRU_Append InUseHead e = Some H' \<and> dll H' LruHead (remove1 e (ac_lru a)) \<and>
    dll H' InUseHead (ac_in_use a @ [e]) \<and> handles H' = handles H \<and> next_hash_of H' = next_hash_of H \<and>
    (\<forall>p. p \<in> alive a \<longrightarrow> p \<notin> cached a \<longrightarrow> next_of H' p = next_of H p)"
proof -
  note h = heads_apart [OF assms(1,2)] and L = lists_okD [OF assms(3)]
  obtain us vs where sp: "ac_lru a = us @ e # vs" "remove1 e (ac_lru a) = us @ vs"
    using split_remove1 [of "ac_lru a" e] a_wfD(1) [OF assms(1)] assms(4) by auto
  obtain H' where H': "LRU_Remove e H \<bind> LRU_Append InUseHead e = Some H'" "dll H' LruHead (us @ vs)"
      "dll H' InUseHead (ac_in_use a @ [e])" "relinked (set (LruHead # us @ e # vs) \<union> set (InUseHead # ac_in_use a)) H H'"
    using move_spec [of H LruHead us e vs InUseHead "ac_in_use a"] L(1,2) h sp(1) by auto
  have "next_of H' p = next_of H p" if p: "p \<in> alive a" "p \<notin> cached a" for p
    using relinkedD(3) [OF H'(4), of p] p a_wfD(3) [OF assms(1)] sp(1) by (auto simp: cached_def)
  then show ?thesis using H' relinkedD(1,2) [OF H'(4)] sp(2) by auto
qed

lemma move_to_lru:
  assumes "a_wf a" "dom (handles H) = alive a" "lists_ok H a" "e \<in> set (ac_in_use a)"
  shows "\<exists>H'. LRU_Remove e H \<bind> LRU_Append LruHead e = Some H' \<and> dll H' InUseHead (remove1 e (ac_in_use a)) \<and>
    dll H' LruHead (ac_lru a @ [e]) \<and> handles H' = handles H \<and> next_hash_of H' = next_hash_of H \<and>
    (\<forall>p. p \<in> alive a \<longrightarrow> p \<notin> cached a \<longrightarrow> next_of H' p = next_of H p)"
proof -
  note h = heads_apart [OF assms(1,2)] and L = lists_okD [OF assms(3)]
  obtain us vs where sp: "ac_in_use a = us @ e # vs" "remove1 e (ac_in_use a) = us @ vs"
    using split_remove1 [of "ac_in_use a" e] a_wfD(1) [OF assms(1)] assms(4) by auto
  obtain H' where H': "LRU_Remove e H \<bind> LRU_Append LruHead e = Some H'" "dll H' InUseHead (us @ vs)"
      "dll H' LruHead (ac_lru a @ [e])" "relinked (set (InUseHead # us @ e # vs) \<union> set (LruHead # ac_lru a)) H H'"
    using move_spec [of H InUseHead us e vs LruHead "ac_lru a"] L(1,2) h sp(1) by (auto simp: Int_commute)
  have "next_of H' p = next_of H p" if p: "p \<in> alive a" "p \<notin> cached a" for p
    using relinkedD(3) [OF H'(4), of p] p a_wfD(3) [OF assms(1)] sp(1) by (auto simp: cached_def)
  then show ?thesis using H' relinkedD(1,2) [OF H'(4)] sp(2) by auto
qed

section \<open>Usage\<close>

lemma a_usage_sum: "a_wf a \<Longrightarrow> a_usage a = (\<Sum>p \<in> cached a. charge_of a p)"
  using a_wfD(1) [of a] by (simp add: a_usage_def cached_def sum_list_distinct_conv_sum_set sum.union_disjoint)

lemma a_usage_cong:
  assumes "a_wf a" "a_wf b" "cached a = cached b" "\<And>p. p \<in> cached b \<Longrightarrow> ac_entries a p = ac_entries b p"
  shows "a_usage a = a_usage b"
  using assms by (auto simp: a_usage_sum charge_of_def intro!: sum.cong)

lemma finite_cached [simp]: "finite (cached a)"
  by (simp add: cached_def)

lemma a_usage_uncache:
  assumes "a_wf a" "p \<in> cached a"
  shows "a_usage (a_uncache p a) = a_usage a - charge_of a p"
proof -
  note f = a_uncache_fields [OF assms(1), of p]
  have "a_usage (a_uncache p a) = (\<Sum>q \<in> cached a - {p}. charge_of a q)"
    using a_wf_uncache [OF assms(1)] f by (auto simp: a_usage_sum charge_of_def intro!: sum.cong)
  also have "\<dots> = a_usage a - charge_of a p" using assms by (simp add: a_usage_sum sum_diff1)
  finally show ?thesis .
qed

section \<open>References\<close>

text \<open>Updating the data of a handle leaves its links alone.\<close>

lemma dll_handles [simp]: "dll (H\<lparr>handles := f\<rparr>) l xs = dll H l xs"
  by (rule dll_cong) simp

lemma LRU_Ref_refines:
  assumes r: "rep c a" and e: "e \<in> cached a" "ac_held a e + 2 < 2 ^ 32"
  shows "\<exists>c'. LRU_Ref e c = Some c' \<and> rep c' (a_ref e a)"
proof -
  note R = repD [OF r] and f = a_ref_fields [OF repD(2) [OF r] e(1)]
  let ?a = "a_ref e a"
  obtain x where x: "handle_for a e = Some x" using handle_for_alive [of a e] a_wfD(2) [OF R(2)] e(1) by auto
  have refs: "lh_refs x = 1 \<longleftrightarrow> ac_held a e = 0" "lh_in_cache x"
    using x e of_nat_refs(1) [of "ac_held a e + 1"] by (auto simp: handle_for_def)
  obtain H1 where H1: "(if lh_refs x = 1 \<and> lh_in_cache x then LRU_Remove e (heap c) \<bind> LRU_Append InUseHead e else Some (heap c)) = Some H1"
      "dll H1 LruHead (ac_lru ?a)" "dll H1 InUseHead (ac_in_use ?a)" "handles H1 = handle_for a" "next_hash_of H1 = next_hash_of (heap c)"
      "\<And>p. p \<in> alive a \<Longrightarrow> p \<notin> cached a \<Longrightarrow> next_of H1 p = next_of (heap c) p"
  proof (cases "ac_held a e = 0")
    case True
    then have "e \<in> set (ac_lru a)" using cached_held [OF R(2) e(1)] by simp
    then show ?thesis using move_to_in_use [OF R(2) _ R(4)] that True refs f(4,5) R(3) by auto
  next
    case False
    then show ?thesis using that [of "heap c"] refs f(4,5) R(3) lists_okD(1,2) [OF R(4)] by simp
  qed
  let ?H = "H1\<lparr>handles := (handles H1)(e \<mapsto> x\<lparr>lh_refs := lh_refs x + 1\<rparr>)\<rparr>"
  have "LRU_Ref e c = Some (c\<lparr>heap := ?H\<rparr>)"
    using x H1(1,4) R(3) by (simp add: LRU_Ref_def upd_handle_def)
  moreover have h: "handles ?H = handle_for ?a"
    using x e(1) H1(4) by (auto simp: handle_for_def f fun_eq_iff)
  moreover have l: "lists_ok ?H ?a"
    by (rule lists_okI) (use H1(2,3,6) f(1,8) lists_okD(3) [OF R(4)] in auto)
  moreover have "tab (table c) ?H (cached a)"
  proof (rule tab_frame [OF R(5)])
    show "readable ?H p" if "p \<in> cached a" for p
      using readable_alive [OF h l, of p] a_wfD(2) [OF R(2)] that f(8) by auto
  qed (use H1(5) key_of_handle_for [OF h] key_of_handle_for [OF R(3)] f(2) in \<open>simp_all add: entry_key_def\<close>)
  moreover have "a_usage ?a = a_usage a"
    by (rule a_usage_cong) (use a_okD(1) [OF a_ok_ref [OF R(1) e]] R(2) f(1,2) in auto)
  ultimately show ?thesis
    using a_ok_ref [OF R(1) e] R(6-8) f by (intro exI [of _ "c\<lparr>heap := ?H\<rparr>"]) (simp add: rep_def)
qed

text \<open>Giving up a reference to an entry that is not in the cache.\<close>

lemma LRU_Unref_detached:
  assumes "handles (heap c) e = Some x" "\<not> lh_in_cache x" "lh_refs x \<noteq> 0" "readable (heap c) e"
  shows "LRU_Unref e c = Some (if lh_refs x = 1
    then c\<lparr>heap := free_handle e (heap c), deleted := deleted c @ [(lh_deleter x, lh_key x, lh_value x)]\<rparr>
    else c\<lparr>heap := (heap c)\<lparr>handles := (handles (heap c))(e \<mapsto> x\<lparr>lh_refs := lh_refs x - 1\<rparr>)\<rparr>\<rparr>)"
proof -
  have "LRUHandle_key ((heap c)\<lparr>handles := (handles (heap c))(e \<mapsto> x\<lparr>lh_refs := n\<rparr>)\<rparr>) e = Some (lh_key x)" for n
    using assms(4) by (auto simp: LRUHandle_key_def readable_def)
  then show ?thesis using assms(1-3) by (simp add: LRU_Unref_def upd_handle_def free_handle_def)
qed

lemma tab_free:
  assumes "tab T H C" "e \<notin> C"
  shows "tab T (free_handle e H) C" "tab T (H\<lparr>handles := (handles H)(e := v)\<rparr>) C"
proof -
  have r: "readable H p" if "p \<in> C" for p using assms(1) that by (auto simp: tab_def)
  show "tab T (free_handle e H) C"
    by (rule tab_frame [OF assms(1)]) (use assms(2) r in \<open>auto simp: free_handle_def key_of_handle_def readable_def\<close>)
  show "tab T (H\<lparr>handles := (handles H)(e := v)\<rparr>) C"
    by (rule tab_frame [OF assms(1)]) (use assms(2) r in \<open>auto simp: key_of_handle_def readable_def\<close>)
qed

lemma dll_free: "e \<notin> set (l # xs) \<Longrightarrow> dll (free_handle e H) l xs = dll H l xs"
  by (rule dll_cong) (auto simp: free_handle_def)

lemma lists_ok_free:
  assumes "lists_ok H a" "e \<notin> cached a" "e \<noteq> LruHead" "e \<noteq> InUseHead" "ac_lru b = ac_lru a" "ac_in_use b = ac_in_use a" "alive b = alive a - {e}"
  shows "lists_ok (free_handle e H) b"
proof (rule lists_okI)
  show "dll (free_handle e H) LruHead (ac_lru b)" "dll (free_handle e H) InUseHead (ac_in_use b)"
    using lists_okD(1,2) [OF assms(1)] assms(2-6) by (auto simp: cached_def dll_free)
qed (use assms(7) lists_okD(3) [OF assms(1)] in \<open>auto simp: free_handle_def\<close>)

lemma lists_ok_cong:
  "lists_ok (H\<lparr>handles := f\<rparr>) b \<longleftrightarrow> lists_ok H b"
  "ac_lru b = ac_lru a \<Longrightarrow> ac_in_use b = ac_in_use a \<Longrightarrow> alive b = alive a \<Longrightarrow> lists_ok H b = lists_ok H a"
  by (simp_all add: lists_ok_def)

lemma release_detached:
  assumes r: "rep c a" and e: "0 < ac_held a e" "e \<notin> cached a"
  shows "\<exists>c'. LRU_Release e c = Some c' \<and> rep c' (a_release e a)"
proof -
  note R = repD [OF r] and f = a_release_fields [OF repD(2) [OF r] e(1)]
  let ?a = "a_release e a"
  have al: "e \<in> alive a" using a_wfD(7) [OF R(2), of e] e(1) by auto
  then obtain y where y: "ac_entries a e = Some y" by (auto simp: alive_def)
  then obtain x where x: "handle_for a e = Some x" "lh_deleter x = e_deleter y" "lh_key x = e_key y" "lh_value x = e_value y"
      "\<not> lh_in_cache x" "lh_refs x = of_nat (ac_held a e)"
    using e(2) by (simp add: handle_for_def)
  have n: "ac_held a e < 2 ^ 32" using a_wfD(8) [OF R(2), of e] by simp
  have refs: "lh_refs x \<noteq> 0" "lh_refs x = 1 \<longleftrightarrow> ac_held a e = 1" using of_nat_refs [OF n] x(6) e(1) by auto
  have ok: "a_ok ?a" by (rule a_ok_release [OF R(1) e(1)])
  have us: "a_usage ?a = a_usage a" by (rule a_usage_cong) (use a_okD(1) [OF ok] R(2) f(1,3) e(2) in auto)
  have ptr: "e \<noteq> LruHead" "e \<noteq> InUseHead" using a_wfD(3) [OF R(2)] al by auto
  note un = LRU_Unref_detached [OF _ x(5) refs(1), of c e] R(3) x(1) readable_alive [OF R(3,4) al]
  show ?thesis
  proof (cases "ac_held a e = 1")
    case True
    let ?c = "c\<lparr>heap := free_handle e (heap c), deleted := deleted c @ [(e_deleter y, e_key y, e_value y)]\<rparr>"
    have "LRU_Release e c = Some ?c" using un True refs(2) x(2-4) by (simp add: LRU_Release_def)
    moreover have "ac_deleted ?a = ac_deleted a @ [(e_deleter y, e_key y, e_value y)]"
      using True e(2) y by (simp add: a_release_def a_free_def)
    moreover have "handles (heap ?c) = handle_for ?a"
      using R(3) True e(2) by (auto simp: free_handle_def handle_for_def f fun_eq_iff)
    moreover have "lists_ok (heap ?c) ?a"
      using lists_ok_free [OF R(4) e(2) ptr, of ?a] True e(2) f by simp
    ultimately show ?thesis
      using ok us R(5-8) f(1,6) tab_free(1) [OF R(5) e(2)] by (intro exI [of _ ?c]) (simp add: rep_def)
  next
    case False
    let ?H = "(heap c)\<lparr>handles := (handles (heap c))(e \<mapsto> x\<lparr>lh_refs := lh_refs x - 1\<rparr>)\<rparr>"
    have "LRU_Release e c = Some (c\<lparr>heap := ?H\<rparr>)" using un False refs(2) by (simp add: LRU_Release_def)
    moreover have "handles ?H = handle_for ?a"
      using x e R(3) False by (auto simp: handle_for_def f fun_eq_iff of_nat_diff)
    moreover have "lists_ok ?H ?a" using R(4) lists_ok_cong(2) [of ?a a] False f by (simp add: lists_ok_cong(1))
    moreover have "ac_deleted ?a = ac_deleted a" using False by (simp add: a_release_def)
    ultimately show ?thesis
      using ok us R(6-8) f(1,6) tab_free(2) [OF R(5) e(2), of "Some (x\<lparr>lh_refs := lh_refs x - 1\<rparr>)"]
      by (intro exI [of _ "c\<lparr>heap := ?H\<rparr>"]) (simp add: rep_def)
  qed
qed

lemma release_cached:
  assumes r: "rep c a" and e: "0 < ac_held a e" "e \<in> cached a"
  shows "\<exists>c'. LRU_Release e c = Some c' \<and> rep c' (a_release e a)"
proof -
  note R = repD [OF r] and f = a_release_fields [OF repD(2) [OF r] e(1)]
  let ?a = "a_release e a"
  have u: "e \<in> set (ac_in_use a)" using cached_held [OF R(2) e(2)] e(1) by simp
  obtain x where x: "handle_for a e = Some x" using handle_for_alive [of a e] a_wfD(2) [OF R(2)] e(2) by auto
  have n: "ac_held a e + 1 < 2 ^ 32" by (rule a_wfD(8) [OF R(2)])
  have refs: "lh_refs x \<noteq> 0" "lh_refs x - 1 \<noteq> 0" "lh_refs x - 1 = 1 \<longleftrightarrow> ac_held a e = 1" "lh_in_cache x"
    using x e n of_nat_refs [of "ac_held a e"] of_nat_refs(2) [of "ac_held a e + 1"] by (auto simp: handle_for_def)
  define H1 where "H1 = (heap c)\<lparr>handles := (handle_for a)(e \<mapsto> x\<lparr>lh_refs := lh_refs x - 1\<rparr>)\<rparr>"
  have H1: "dom (handles H1) = alive a" "lists_ok H1 a" using R(4) x by (auto simp: H1_def lists_ok_cong(1) insert_absorb dom_def handle_for_def alive_def)
  obtain H2 where H2: "(if lh_refs x - 1 = 1 then LRU_Remove e H1 \<bind> LRU_Append LruHead e else Some H1) = Some H2"
      "dll H2 LruHead (ac_lru ?a)" "dll H2 InUseHead (ac_in_use ?a)" "handles H2 = handles H1" "next_hash_of H2 = next_hash_of (heap c)"
      "\<And>p. p \<in> alive a \<Longrightarrow> p \<notin> cached a \<Longrightarrow> next_of H2 p = next_of (heap c) p"
  proof (cases "ac_held a e = 1")
    case True
    then show ?thesis using move_to_lru [OF R(2) H1 u] that refs(3) f(4,5) e(2) by (auto simp: H1_def)
  next
    case False
    then show ?thesis using that [of H1] refs(3) f(4,5) lists_okD(1,2) [OF H1(2)] by (simp add: H1_def)
  qed
  have "LRU_Release e c = Some (c\<lparr>heap := H2\<rparr>)"
    using x R(3) refs H2(1) by (auto simp: LRU_Release_def LRU_Unref_def upd_handle_def H1_def Option.bind_eq_Some_conv split: if_splits)
  moreover have h: "handles H2 = handle_for ?a"
    using x e H2(4) by (auto simp: H1_def handle_for_def f fun_eq_iff of_nat_diff)
  moreover have l: "lists_ok H2 ?a"
    by (rule lists_okI) (use H2(2,3,6) f(1,7) e(2) lists_okD(3) [OF R(4)] in auto)
  moreover have "tab (table c) H2 (cached a)"
  proof (rule tab_frame [OF R(5)])
    show "readable H2 p" if "p \<in> cached a" for p
      using readable_alive [OF h l, of p] a_wfD(2) [OF R(2)] that f(7) e(2) by auto
  qed (use H2(5) key_of_handle_for [OF h] key_of_handle_for [OF R(3)] f(3) e(2) in \<open>simp_all add: entry_key_def\<close>)
  moreover have "a_usage ?a = a_usage a"
    by (rule a_usage_cong) (use a_okD(1) [OF a_ok_release [OF R(1) e(1)]] R(2) f(1,3) e(2) in auto)
  moreover have "ac_deleted ?a = ac_deleted a" using e(2) by (simp add: a_release_def Let_def)
  ultimately show ?thesis
    using a_ok_release [OF R(1) e(1)] R(6-8) f by (intro exI [of _ "c\<lparr>heap := H2\<rparr>"]) (simp add: rep_def)
qed

lemma LRU_Release_refines:
  "rep c a \<Longrightarrow> 0 < ac_held a e \<Longrightarrow> \<exists>c'. LRU_Release e c = Some c' \<and> rep c' (a_release e a)"
  using release_cached [of c a e] release_detached [of c a e] by blast

section \<open>Lookup\<close>

lemma LRU_Lookup_refines:
  assumes r: "rep c a" and n: "\<And>p. p \<in> cached a \<Longrightarrow> ac_held a p + 2 < 2 ^ 32"
  shows "\<exists>p c'. LRU_Lookup key hash c = Some (p, c') \<and> fst (a_lookup key hash a) = p \<and> rep c' (snd (a_lookup key hash a))"
proof -
  note R = repD [OF r]
  obtain p where p: "HT_Lookup (table c) (heap c) key hash = Some p"
      "p = Null \<and> (\<forall>q \<in> cached a. entry_key a q \<noteq> Some (hash, key)) \<or> p \<noteq> Null \<and> p \<in> cached a \<and> entry_key a p = Some (hash, key)"
    using HT_Lookup_spec [OF R(5), of key hash] key_of_handle_for [OF R(3)] by auto
  show ?thesis
  proof (cases "p = Null")
    case True
    then have "a_find hash key a = None" using p(2) a_find_None [of hash key a] by blast
    then show ?thesis using True p(1) r by (simp add: LRU_Lookup_def a_lookup_def)
  next
    case False
    then have c: "p \<in> cached a" "a_find hash key a = Some p" using p(2) a_find_Some [OF R(1), of hash key p] by auto
    then show ?thesis using False p(1) LRU_Ref_refines [OF r c(1) n [OF c(1)]] by (auto simp: LRU_Lookup_def a_lookup_def)
  qed
qed

section \<open>Erasing\<close>

lemma lists_ok_next_hash: "lists_ok (H\<lparr>next_hash_of := f\<rparr>) a = lists_ok H a"
  using dll_cong [of _ _ "H\<lparr>next_hash_of := f\<rparr>" H] by (simp add: lists_ok_def)

lemma unlink_spec:
  assumes "a_wf a" "dom (handles H) = alive a" "lists_ok H a" "e \<in> cached a"
  shows "\<exists>H'. LRU_Remove e H = Some H' \<and> dll H' LruHead (remove1 e (ac_lru a)) \<and> dll H' InUseHead (remove1 e (ac_in_use a)) \<and>
    handles H' = handles H \<and> next_hash_of H' = next_hash_of H \<and>
    (\<forall>p. p \<in> alive a \<longrightarrow> p \<notin> cached a \<or> p = e \<longrightarrow> next_of H' p = next_of H p)"
proof -
  note h = heads_apart [OF assms(1,2)] and L = lists_okD [OF assms(3)] and D = a_wfD [OF assms(1)]
  have ap: "e \<noteq> LruHead" "e \<noteq> InUseHead" using lists_apart [OF assms(1,2), of e] assms(4) by (auto simp: cached_def)
  have keep: "next_of H' p = next_of H p"
    if "relinked (set (l # us @ vs)) H H'" "l = LruHead \<or> l = InUseHead" "set us \<union> set vs \<subseteq> cached a - {e}"
      "p \<in> alive a" "p \<notin> cached a \<or> p = e" for H' l us vs p
    using relinkedD(3) [OF that(1), of p] that(2-5) D(3) by auto
  consider "e \<in> set (ac_lru a)" "e \<notin> set (ac_in_use a)" | "e \<in> set (ac_in_use a)" "e \<notin> set (ac_lru a)"
    using assms(4) D(1) by (auto simp: cached_def)
  then show ?thesis
  proof cases
    case 1
    then obtain us vs where sp: "ac_lru a = us @ e # vs" "remove1 e (ac_lru a) = us @ vs"
      using split_remove1 [of "ac_lru a" e] D(1) by auto
    obtain H' where H': "LRU_Remove e H = Some H'" "dll H' LruHead (us @ vs)" "relinked (set (LruHead # us @ vs)) H H'"
      using LRU_Remove_spec [of H LruHead us e vs] L(1) h(2) sp(1) by auto
    have "dll H' InUseHead (ac_in_use a)" using relinked_dll [OF H'(3), of InUseHead "ac_in_use a"] L(2) h(1) sp(1) by auto
    moreover have "set us \<union> set vs \<subseteq> cached a - {e}" using sp(1) D(1) by (auto simp: cached_def)
    ultimately show ?thesis
      using H' relinkedD(1,2) [OF H'(3)] sp(2) 1(2) keep [OF H'(3)] by (auto simp: remove1_idem)
  next
    case 2
    then obtain us vs where sp: "ac_in_use a = us @ e # vs" "remove1 e (ac_in_use a) = us @ vs"
      using split_remove1 [of "ac_in_use a" e] D(1) by auto
    obtain H' where H': "LRU_Remove e H = Some H'" "dll H' InUseHead (us @ vs)" "relinked (set (InUseHead # us @ vs)) H H'"
      using LRU_Remove_spec [of H InUseHead us e vs] L(2) h(2) sp(1) by auto
    have "dll H' LruHead (ac_lru a)" using relinked_dll [OF H'(3), of LruHead "ac_lru a"] L(1) h(1) sp(1) by auto
    moreover have "set us \<union> set vs \<subseteq> cached a - {e}" using sp(1) D(1) by (auto simp: cached_def)
    ultimately show ?thesis
      using H' relinkedD(1,2) [OF H'(3)] sp(2) 2(2) keep [OF H'(3)] by (auto simp: remove1_idem)
  qed
qed

text \<open>A shard whose table has lost the entry \<open>e\<close> but whose lists still hold it.\<close>

definition erasing :: "('v, 'd) LRUCache \<Rightarrow> ('v, 'd) acache \<Rightarrow> ptr \<Rightarrow> bool" where
  "erasing c a e \<longleftrightarrow> a_wf a \<and> e \<in> cached a \<and> handles (heap c) = handle_for a \<and> lists_ok (heap c) a \<and>
     tab (table c) (heap c) (cached a - {e}) \<and> usage c = a_usage a \<and> capacity c = ac_capacity a \<and> deleted c = ac_deleted a"

lemma erasing_unlink:
  assumes "erasing c a e"
  shows "\<exists>y x H2. ac_entries a e = Some y \<and> handle_for a e = Some x \<and> lists_ok H2 (a_uncache e a) \<and> readable H2 e \<and>
    handles H2 = (handle_for a)(e \<mapsto> x\<lparr>lh_in_cache := False\<rparr>) \<and> tab (table c) H2 (cached a - {e}) \<and>
    FinishErase e c = map_option (Pair True) (LRU_Unref e (c\<lparr>heap := H2, usage := a_usage a - charge_of a e\<rparr>)) \<and> a_ok (a_uncache e a)"
proof -
  have E: "a_wf a" "e \<in> cached a" "handles (heap c) = handle_for a" "lists_ok (heap c) a" "tab (table c) (heap c) (cached a - {e})"
      "usage c = a_usage a" using assms by (auto simp: erasing_def)
  note D = a_wfD [OF E(1)] and f = a_uncache_fields [OF E(1), of e]
  let ?a = "a_uncache e a"
  have al: "e \<in> alive a" using D(2) E(2) by blast
  then obtain y where y: "ac_entries a e = Some y" by (auto simp: alive_def)
  then obtain x where x: "handle_for a e = Some x" "lh_in_cache x" "lh_charge x = e_charge y" using E(2) by (simp add: handle_for_def)
  obtain H1 where H1: "LRU_Remove e (heap c) = Some H1" "dll H1 LruHead (ac_lru ?a)" "dll H1 InUseHead (ac_in_use ?a)"
      "handles H1 = handle_for a" "next_hash_of H1 = next_hash_of (heap c)"
      "\<And>p. p \<in> alive a \<Longrightarrow> p \<notin> cached a \<or> p = e \<Longrightarrow> next_of H1 p = next_of (heap c) p"
    using unlink_spec [OF E(1) _ E(4) E(2)] E(3) f(2,3) by auto
  define H2 where "H2 = H1\<lparr>handles := (handle_for a)(e \<mapsto> x\<lparr>lh_in_cache := False\<rparr>)\<rparr>"
  have l2: "lists_ok H2 ?a"
    by (rule lists_okI) (use H1(2,3,6) f(1,7) lists_okD(3) [OF E(4)] in \<open>auto simp: H2_def split: if_splits\<close>)
  have "e \<noteq> Null" using D(3) al by auto
  then have "FinishErase e c = map_option (Pair True) (LRU_Unref e (c\<lparr>heap := H2, usage := a_usage a - charge_of a e\<rparr>))"
    using E(3,6) x y H1(1,4) by (simp add: FinishErase_def upd_handle_def H2_def charge_of_def)
  moreover have "readable H2 e" using H1(6) [OF al] lists_okD(3) [OF E(4) al] by (simp add: readable_def H2_def)
  moreover have "tab (table c) H2 (cached a - {e})"
  proof (rule tab_frame [OF E(5)])
    fix p assume p: "p \<in> cached a - {e}"
    then have "p \<in> alive ?a" "p \<in> alive a" using D(2) f(7) by auto
    then show "readable H2 p"
      using lists_okD(3) [OF l2, of p] handle_for_alive [of a p] p by (auto simp: readable_def H2_def)
  qed (use H1(5) E(3) in \<open>auto simp: H2_def key_of_handle_def\<close>)
  moreover have "a_ok ?a" using E(5) key_of_handle_for [OF E(3)] by (intro a_ok_uncache [OF E(1)]) (simp add: tab_def)
  ultimately show ?thesis using x(1) y l2 by (intro exI [of _ y] exI [of _ x] exI [of _ H2]) (simp add: H2_def)
qed

lemma FinishErase_refines:
  assumes "erasing c a e"
  shows "\<exists>c'. FinishErase e c = Some (True, c') \<and> rep c' (a_uncache e a)"
proof -
  have E: "a_wf a" "e \<in> cached a" "handles (heap c) = handle_for a" "capacity c = ac_capacity a" "deleted c = ac_deleted a"
    using assms by (auto simp: erasing_def)
  note D = a_wfD [OF E(1)] and f = a_uncache_fields [OF E(1), of e] and us = a_usage_uncache [OF E(1,2)]
  let ?a = "a_uncache e a"
  obtain y x H2 where U: "ac_entries a e = Some y" "handle_for a e = Some x" "lists_ok H2 ?a" "readable H2 e"
      "handles H2 = (handle_for a)(e \<mapsto> x\<lparr>lh_in_cache := False\<rparr>)" "tab (table c) H2 (cached a - {e})"
      "FinishErase e c = map_option (Pair True) (LRU_Unref e (c\<lparr>heap := H2, usage := a_usage a - charge_of a e\<rparr>))" "a_ok ?a"
    using erasing_unlink [OF assms] by blast
  have x: "lh_deleter x = e_deleter y" "lh_key x = e_key y" "lh_value x = e_value y" "lh_refs x = of_nat (ac_held a e + 1)"
    using E(2) U(1,2) by (auto simp: handle_for_def)
  have refs: "lh_refs x \<noteq> 0" "lh_refs x = 1 \<longleftrightarrow> ac_held a e = 0" using of_nat_refs [OF D(8) [of e]] x(4) by auto
  define c2 where "c2 = c\<lparr>heap := H2, usage := a_usage a - charge_of a e\<rparr>"
  have un: "LRU_Unref e c2 = Some (if ac_held a e = 0
      then c2\<lparr>heap := free_handle e H2, deleted := deleted c @ [(e_deleter y, e_key y, e_value y)]\<rparr>
      else c2\<lparr>heap := H2\<lparr>handles := (handles H2)(e \<mapsto> x\<lparr>lh_in_cache := False, lh_refs := lh_refs x - 1\<rparr>)\<rparr>\<rparr>)"
    using LRU_Unref_detached [of c2 e "x\<lparr>lh_in_cache := False\<rparr>"] refs x(1-3) U(4,5) by (simp add: c2_def)
  show ?thesis
  proof (cases "ac_held a e = 0")
    case True
    let ?c = "c2\<lparr>heap := free_handle e H2, deleted := deleted c @ [(e_deleter y, e_key y, e_value y)]\<rparr>"
    have "handles (heap ?c) = handle_for ?a"
      using U(5) True by (auto simp: free_handle_def handle_for_def f fun_eq_iff)
    moreover have "lists_ok (heap ?c) ?a"
      using lists_ok_free [OF U(3), of e ?a] D(2,3) E(2) f(1,7) True by auto
    moreover have "ac_deleted ?a = ac_deleted a @ [(e_deleter y, e_key y, e_value y)]"
      using True U(1) by (simp add: a_uncache_def a_free_def)
    ultimately have "rep ?c ?a" using tab_free(1) [OF U(6), of e] U(8) us E(4,5) f(1,5) by (simp add: rep_def c2_def)
    then show ?thesis using U(7) un True by (simp flip: c2_def)
  next
    case False
    let ?c = "c2\<lparr>heap := H2\<lparr>handles := (handles H2)(e \<mapsto> x\<lparr>lh_in_cache := False, lh_refs := lh_refs x - 1\<rparr>)\<rparr>\<rparr>"
    have "handles (heap ?c) = handle_for ?a" using U(1,2,5) E(2) False by (auto simp: handle_for_def f fun_eq_iff)
    moreover have "lists_ok (heap ?c) ?a" using U(3) by (simp add: lists_ok_cong(1))
    moreover have "ac_deleted ?a = ac_deleted a" using False by (simp add: a_uncache_def)
    moreover have "tab (table c) (heap ?c) (cached a - {e})" using tab_free(2) [OF U(6), of e] by simp
    ultimately have "rep ?c ?a" using U(8) us E(4,5) f(1,5) by (simp add: rep_def c2_def)
    then show ?thesis using U(7) un False by (simp flip: c2_def)
  qed
qed

lemma remove_and_finish_refines:
  assumes r: "rep c a"
  shows "\<exists>b c'. remove_and_finish key hash c = Some (b, c') \<and>
    (case a_find hash key a of None \<Rightarrow> \<not> b \<and> rep c' a | Some p \<Rightarrow> b \<and> rep c' (a_uncache p a))"
proof -
  note R = repD [OF r] and K = key_of_handle_for [OF repD(3) [OF r]]
  obtain p T' f where p: "HT_Remove key hash (table c) (heap c) = Some (p, T', (heap c)\<lparr>next_hash_of := f\<rparr>)"
     "p = Null \<and> (\<forall>q \<in> cached a. entry_key a q \<noteq> Some (hash, key)) \<and> T' = table c \<and> f = next_hash_of (heap c) \<or>
      p \<noteq> Null \<and> p \<in> cached a \<and> entry_key a p = Some (hash, key) \<and> tab T' ((heap c)\<lparr>next_hash_of := f\<rparr>) (cached a - {p})"
    using HT_Remove_spec [OF R(5), of key hash] K by auto
  show ?thesis
  proof (cases "p = Null")
    case True
    then have "a_find hash key a = None" using p(2) a_find_None [of hash key a] by blast
    then show ?thesis using True p r by (intro exI [of _ False]) (simp add: remove_and_finish_def FinishErase_def)
  next
    case False
    then have c: "p \<in> cached a" "a_find hash key a = Some p" "tab T' ((heap c)\<lparr>next_hash_of := f\<rparr>) (cached a - {p})"
      using p(2) a_find_Some [OF R(1), of hash key p] by auto
    have "lists_ok ((heap c)\<lparr>next_hash_of := f\<rparr>) a" using R(4) by (simp add: lists_ok_next_hash)
    then have "erasing (c\<lparr>table := T', heap := (heap c)\<lparr>next_hash_of := f\<rparr>\<rparr>) a p"
      using R c(1,3) by (simp add: erasing_def)
    from FinishErase_refines [OF this] show ?thesis using p(1) c(2) by (auto simp: remove_and_finish_def)
  qed
qed

lemma LRU_Erase_refines: "rep c a \<Longrightarrow> \<exists>c'. LRU_Erase key hash c = Some c' \<and> rep c' (a_erase key hash a)"
proof -
  assume "rep c a"
  from remove_and_finish_refines [OF this] obtain b c' where
    "remove_and_finish key hash c = Some (b, c')" "case a_find hash key a of None \<Rightarrow> \<not> b \<and> rep c' a | Some p \<Rightarrow> b \<and> rep c' (a_uncache p a)"
    by blast
  then show ?thesis by (cases "a_find hash key a") (simp_all add: LRU_Erase_def a_erase_def)
qed

section \<open>Eviction\<close>

lemma drop_oldest_refines:
  assumes r: "rep c a" and e: "e \<in> set (ac_lru a)"
  shows "\<exists>c'. drop_oldest e c = Some c' \<and> rep c' (a_uncache e a)"
proof -
  note R = repD [OF r]
  have c: "e \<in> cached a" "ac_held a e = 0" using e a_wfD(4) [OF R(2)] by (simp_all add: cached_def)
  then have al: "e \<in> alive a" using a_wfD(2) [OF R(2)] by blast
  then obtain y where y: "ac_entries a e = Some y" by (auto simp: alive_def)
  then obtain x where x: "handles (heap c) e = Some x" "lh_refs x = 1" "lh_key x = e_key y" "lh_hash x = e_hash y"
    using c R(3) by (simp add: handle_for_def)
  have key: "LRUHandle_key (heap c) e = Some (e_key y)" using readable_key [OF readable_alive [OF R(3,4) al] x(1)] x(3) by simp
  have "a_find (e_hash y) (e_key y) a = Some e" using a_find_Some [OF R(1)] c(1) y by (simp add: entry_key_def)
  then show ?thesis
    using remove_and_finish_refines [OF r, of "e_key y" "e_hash y"] x key by (fastforce simp: drop_oldest_def)
qed

lemma lru_front:
  assumes "rep c a"
  shows "next_of (heap c) LruHead = Some (hd (ac_lru a @ [LruHead]))" "hd (ac_lru a @ [LruHead]) = LruHead \<longleftrightarrow> ac_lru a = []"
proof -
  note R = repD [OF assms]
  show "next_of (heap c) LruHead = Some (hd (ac_lru a @ [LruHead]))" using lists_okD(1) [OF R(4)] by (rule dll_head)
  have "LruHead \<notin> set (ac_lru a)" using lists_okD(1) [OF R(4)] by (simp add: dll_def)
  then show "hd (ac_lru a @ [LruHead]) = LruHead \<longleftrightarrow> ac_lru a = []" by (cases "ac_lru a") auto
qed

lemma EvictLoop_refines: "rep c a \<Longrightarrow> \<exists>c'. EvictLoop c = Some c' \<and> rep c' (a_evict a)"
proof (induction a arbitrary: c rule: a_evict.induct)
  case (1 a)
  note R = repD [OF 1(2)] and fr = lru_front [OF 1(2)]
  show ?case
  proof (cases "ac_capacity a < a_usage a \<and> ac_lru a \<noteq> []")
    case True
    then have "hd (ac_lru a) \<in> set (ac_lru a)" by simp
    from drop_oldest_refines [OF 1(2) this] obtain c1 where c1: "drop_oldest (hd (ac_lru a)) c = Some c1" "rep c1 (a_uncache (hd (ac_lru a)) a)" by blast
    have "EvictLoop c = EvictLoop c1" using True c1(1) R(6,7) fr by (subst EvictLoop.simps) auto
    then show ?thesis using 1(1) [OF True c1(2)] True by (simp add: a_evict.simps [of a])
  next
    case False
    then have "EvictLoop c = Some c" using R(6,7) fr by (subst EvictLoop.simps) auto
    then show ?thesis using False 1(2) by (auto simp: a_evict.simps [of a])
  qed
qed

lemma LRU_Prune_refines: "rep c a \<Longrightarrow> \<exists>c'. LRU_Prune c = Some c' \<and> rep c' (a_prune a)"
proof (induction a arbitrary: c rule: a_prune.induct)
  case (1 a)
  note fr = lru_front [OF 1(2)]
  show ?case
  proof (cases "ac_lru a = []")
    case False
    then have "hd (ac_lru a) \<in> set (ac_lru a)" by simp
    from drop_oldest_refines [OF 1(2) this] obtain c1 where c1: "drop_oldest (hd (ac_lru a)) c = Some c1" "rep c1 (a_uncache (hd (ac_lru a)) a)" by blast
    have "LRU_Prune c = LRU_Prune c1" using False c1(1) fr by (subst LRU_Prune.simps) auto
    then show ?thesis using 1(1) [OF False c1(2)] False by (simp add: a_prune.simps [of a])
  next
    case True
    then have "LRU_Prune c = Some c" using fr by (subst LRU_Prune.simps) auto
    then show ?thesis using True 1(2) by (auto simp: a_prune.simps [of a])
  qed
qed

section \<open>Insertion\<close>

definition new_handle :: "bytes \<Rightarrow> u32 \<Rightarrow> 'v \<Rightarrow> u64 \<Rightarrow> 'd \<Rightarrow> ('v, 'd) LRUHandle" where
  "new_handle key hash v charge deleter = \<lparr>lh_value = v, lh_deleter = deleter, lh_charge = charge, lh_in_cache = False,
     lh_refs = 1, lh_hash = hash, lh_key = key\<rparr>"

lemma alloc_refines:
  assumes r: "rep c a" and p: "Ptr n \<notin> alive a" and x: "x = new_handle key hash v charge deleter"
  shows "\<exists>H. malloc_handle (Ptr n) x (heap c) = Some H \<and> handles H = handle_for (a_alloc (Ptr n) key hash v charge deleter a) \<and>
    handles H (Ptr n) = Some x \<and> dll H LruHead (ac_lru a) \<and> dll H InUseHead (ac_in_use a) \<and> tab (table c) H (cached a) \<and>
    (\<forall>q \<in> alive a. next_of H q = next_of (heap c) q)"
proof -
  note R = repD [OF r] and D = a_wfD [OF repD(2) [OF r]]
  define H where "H = \<lparr>handles = (handles (heap c))(Ptr n \<mapsto> x), next_of = (next_of (heap c))(Ptr n := None),
    prev_of = (prev_of (heap c))(Ptr n := None), next_hash_of = (next_hash_of (heap c))(Ptr n := None)\<rparr>"
  have nc: "Ptr n \<notin> cached a" "Ptr n \<notin> set (ac_lru a)" "Ptr n \<notin> set (ac_in_use a)" using D(2) p by (auto simp: cached_def)
  have "malloc_handle (Ptr n) x (heap c) = Some H" using R(3) handle_for_alive [of a "Ptr n"] p by (simp add: H_def)
  moreover have "handles H = handle_for (a_alloc (Ptr n) key hash v charge deleter a)"
    using R(3) nc(1) by (auto simp: H_def x new_handle_def handle_for_def a_alloc_fields fun_eq_iff)
  moreover have "dll H LruHead (ac_lru a) = dll (heap c) LruHead (ac_lru a)" "dll H InUseHead (ac_in_use a) = dll (heap c) InUseHead (ac_in_use a)"
    by (rule dll_cong; use nc in \<open>auto simp: H_def\<close>)+
  moreover have "tab (table c) H (cached a)"
  proof (rule tab_frame [OF R(5)])
    fix q assume q: "q \<in> cached a"
    then have "readable (heap c) q" using R(5) by (simp add: tab_def)
    then show "readable H q" using q nc(1) by (auto simp: readable_def H_def)
  qed (use nc(1) in \<open>auto simp: H_def key_of_handle_def\<close>)
  moreover have "handles H (Ptr n) = Some x" "\<forall>q \<in> alive a. next_of H q = next_of (heap c) q" using p by (auto simp: H_def)
  ultimately show ?thesis using lists_okD [OF R(4)] by (intro exI [of _ H]) simp
qed

text \<open>The new entry enters the list of entries in use and the table.\<close>

lemma a_usage_cache:
  assumes "a_wf a" "Ptr n \<notin> alive a"
  shows "a_usage (a_cache (Ptr n) (a_alloc (Ptr n) key hash v charge deleter a)) = a_usage a + charge"
proof -
  let ?a = "a_alloc (Ptr n) key hash v charge deleter a"
  have n: "Ptr n \<notin> cached a" using a_wfD(2) [OF assms(1)] assms(2) by blast
  have wf: "a_wf (a_cache (Ptr n) ?a)"
    by (rule a_wf_cache) (use a_wf_alloc [OF assms] n in \<open>simp_all add: a_alloc_fields\<close>)
  have "(\<Sum>q \<in> cached a. charge_of (a_cache (Ptr n) ?a) q) = (\<Sum>q \<in> cached a. charge_of a q)"
    by (rule sum.cong) (use n in \<open>auto simp: charge_of_def a_cache_fields a_alloc_fields\<close>)
  then show ?thesis
    using wf assms(1) n by (simp add: a_usage_sum a_cache_fields a_alloc_fields charge_of_def)
qed

lemma link_new:
  assumes r: "rep c a" and p: "Ptr n \<notin> alive a" and x_def: "x = new_handle key hash v charge deleter"
    and b_def: "b = a_cache (Ptr n) (a_alloc (Ptr n) key hash v charge deleter a)"
  shows "\<exists>H1 H2 H3 H4. malloc_handle (Ptr n) x (heap c) = Some H1 \<and> upd_handle (Ptr n) (\<lambda>x. x\<lparr>lh_refs := lh_refs x + 1\<rparr>) H1 = Some H2 \<and>
    upd_handle (Ptr n) (\<lambda>x. x\<lparr>lh_in_cache := True\<rparr>) H2 = Some H3 \<and> LRU_Append InUseHead (Ptr n) H3 = Some H4 \<and>
    handles H4 = handle_for b \<and> lists_ok H4 b \<and> tab (table c) H4 (cached a)"
proof -
  note R = repD [OF r] and D = a_wfD [OF repD(2) [OF r]]
  let ?p = "Ptr n" let ?a = "a_alloc (Ptr n) key hash v charge deleter a"
  have nc: "?p \<notin> cached a" using D(2) p by blast
  obtain H1 where H1: "malloc_handle ?p x (heap c) = Some H1" "handles H1 = handle_for ?a" "handles H1 ?p = Some x"
      "dll H1 LruHead (ac_lru a)" "dll H1 InUseHead (ac_in_use a)" "tab (table c) H1 (cached a)"
      "\<And>q. q \<in> alive a \<Longrightarrow> next_of H1 q = next_of (heap c) q"
    using alloc_refines [OF r p x_def] by auto
  define H2 where "H2 = H1\<lparr>handles := (handles H1)(?p \<mapsto> x\<lparr>lh_refs := lh_refs x + 1\<rparr>)\<rparr>"
  define H3 where "H3 = H1\<lparr>handles := (handles H1)(?p \<mapsto> x\<lparr>lh_refs := lh_refs x + 1, lh_in_cache := True\<rparr>)\<rparr>"
  have up: "upd_handle ?p (\<lambda>x. x\<lparr>lh_refs := lh_refs x + 1\<rparr>) H1 = Some H2" "upd_handle ?p (\<lambda>x. x\<lparr>lh_in_cache := True\<rparr>) H2 = Some H3"
    using H1(3) by (simp_all add: upd_handle_def H2_def H3_def)
  have al: "allocated H3 q" if "q \<in> set (InUseHead # ac_in_use a @ [?p])" for q
    using that D(2) handle_for_alive [of ?a q] H1(2) by (auto simp: allocated_def H3_def cached_def a_alloc_fields)
  have "dll H3 InUseHead (ac_in_use a)" "?p \<notin> set (InUseHead # ac_in_use a)" using H1(5) nc by (auto simp: H3_def cached_def)
  from LRU_Append_spec [OF this al] obtain H4 where
    H4: "LRU_Append InUseHead ?p H3 = Some H4" "dll H4 InUseHead (ac_in_use a @ [?p])" "relinked (set (InUseHead # ac_in_use a @ [?p])) H3 H4"
    by auto
  note r4 = relinkedD [OF H4(3)]
  have "dll H4 LruHead (ac_lru a) = dll H3 LruHead (ac_lru a)"
    by (rule relinked_dll [OF H4(3)]) (use nc D(1) heads_apart(1) [OF R(2), of "heap c"] R(3) in \<open>auto simp: cached_def\<close>)
  then have lru: "dll H4 LruHead (ac_lru a)" using H1(4) by (simp add: H3_def)
  have hb: "handles H4 = handle_for b"
    using r4(1) H1(2) nc by (auto simp: H3_def b_def x_def new_handle_def handle_for_def a_cache_fields a_alloc_fields fun_eq_iff)
  have lb: "lists_ok H4 b"
  proof (rule lists_okI)
    fix q assume q: "q \<in> alive b" "q \<notin> cached b"
    then have "q \<in> alive a" "q \<notin> set (InUseHead # ac_in_use a @ [?p])"
      using D(3) by (auto simp: b_def a_cache_fields a_alloc_fields cached_def)
    then show "\<exists>m. next_of H4 q = Some m \<and> m \<noteq> q" using r4(3) [of q] H1(7) [of q] lists_okD(3) [OF R(4), of q] by (simp add: H3_def)
  qed (use lru H4(2) in \<open>simp_all add: b_def a_cache_fields a_alloc_fields\<close>)
  have "tab (table c) H4 (cached a)"
  proof (rule tab_frame [OF H1(6)])
    fix q assume "q \<in> cached a"
    then have "q \<in> alive b" using D(2) by (auto simp: b_def a_cache_fields a_alloc_fields)
    then show "readable H4 q" by (rule readable_alive [OF hb lb])
  qed (use nc r4(1,2) in \<open>auto simp: H3_def key_of_handle_def\<close>)
  then show ?thesis using H1(1) up H4(1) hb lb by blast
qed

text \<open>The table entry: an older entry with the same key leaves the table and is erased next.\<close>

lemma enter_new:
  assumes r: "rep c a" and p: "Ptr n \<notin> alive a" and small: "card (cached a) < 2 ^ 31"
    and b_def: "b = a_cache (Ptr n) (a_alloc (Ptr n) key hash v charge deleter a)"
    and H: "handles H = handle_for b" "lists_ok H b" "tab (table c) H (cached a)"
  shows "\<exists>old T H5. HT_Insert (Ptr n) (table c) H = Some (old, T, H5) \<and>
    (case a_find hash key a of
       None \<Rightarrow> old = Null \<and> rep (c\<lparr>heap := H5, table := T, usage := usage c + charge\<rparr>) b
     | Some q \<Rightarrow> old = q \<and> erasing (c\<lparr>heap := H5, table := T, usage := usage c + charge\<rparr>) b q)"
proof -
  note R = repD [OF r] and D = a_wfD [OF repD(2) [OF r]]
  have nc: "Ptr n \<notin> cached a" using D(2) p by blast
  have B: "cached b = insert (Ptr n) (cached a)" "alive b = insert (Ptr n) (alive a)" "ac_capacity b = ac_capacity a" "ac_deleted b = ac_deleted a"
      "entry_key b (Ptr n) = Some (hash, key)"
    by (auto simp: b_def a_cache_fields a_alloc_fields entry_key_def)
  have kb: "entry_key b q = entry_key a q" if "q \<in> cached a" for q
    using that nc by (auto simp: b_def a_cache_fields a_alloc_fields entry_key_def)
  have wf: "a_wf b" unfolding b_def
    by (rule a_wf_cache) (use a_wf_alloc [OF R(2) p] nc in \<open>simp_all add: a_alloc_fields\<close>)
  have us: "usage c + charge = a_usage b" using a_usage_cache [OF R(2) p] R(6) by (simp add: b_def)
  have rd: "readable H (Ptr n)" by (rule readable_alive [OF H(1,2)]) (simp add: B)
  note K = key_of_handle_for [OF H(1)]
  obtain old T f where I: "HT_Insert (Ptr n) (table c) H = Some (old, T, H\<lparr>next_hash_of := f\<rparr>)"
    "old = Null \<and> (\<forall>q \<in> cached a. entry_key a q \<noteq> Some (hash, key)) \<and> tab T (H\<lparr>next_hash_of := f\<rparr>) (insert (Ptr n) (cached a)) \<or>
     old \<noteq> Null \<and> old \<in> cached a \<and> entry_key a old = Some (hash, key) \<and> tab T (H\<lparr>next_hash_of := f\<rparr>) (insert (Ptr n) (cached a - {old}))"
    using HT_Insert_spec [OF H(3) rd nc _ small] K B(5) kb by auto
  let ?c = "c\<lparr>heap := H\<lparr>next_hash_of := f\<rparr>, table := T, usage := usage c + charge\<rparr>"
  show ?thesis
  proof (cases "old = Null")
    case True
    then have none: "a_find hash key a = None" and t: "tab T (H\<lparr>next_hash_of := f\<rparr>) (cached b)" using I(2) a_find_None [of hash key a] B(1) by auto
    have "a_ok b" using wf t K by (simp add: a_ok_def tab_def)
    then have "rep ?c b" using H(1,2) t us R(7,8) B(3,4) by (simp add: rep_def lists_ok_next_hash)
    then show ?thesis using I(1) True none by simp
  next
    case False
    then have q: "old \<in> cached a" "a_find hash key a = Some old" using I(2) a_find_Some [OF R(1), of hash key old] by auto
    then have "insert (Ptr n) (cached a - {old}) = cached b - {old}" using nc B(1) by auto
    then have "erasing ?c b old" using False I(2) wf q(1) B H(1,2) us R(7,8) by (simp add: erasing_def lists_ok_next_hash)
    then show ?thesis using I(1) q(2) by simp
  qed
qed

text \<open>With capacity 0 the new entry is only handed to the client.\<close>

lemma insert_uncached:
  assumes r: "rep c a" and p: "Ptr n \<notin> alive a" and x: "x = new_handle key hash v charge deleter"
  shows "\<exists>H1 H2. malloc_handle (Ptr n) x (heap c) = Some H1 \<and> set_next (Ptr n) Null H1 = Some H2 \<and>
    rep (c\<lparr>heap := H2\<rparr>) (a_alloc (Ptr n) key hash v charge deleter a)"
proof -
  note R = repD [OF r] and D = a_wfD [OF repD(2) [OF r]]
  let ?a = "a_alloc (Ptr n) key hash v charge deleter a"
  obtain H1 where H1: "malloc_handle (Ptr n) x (heap c) = Some H1" "handles H1 = handle_for ?a" "handles H1 (Ptr n) = Some x"
      "dll H1 LruHead (ac_lru a)" "dll H1 InUseHead (ac_in_use a)" "tab (table c) H1 (cached a)"
      "\<And>q. q \<in> alive a \<Longrightarrow> next_of H1 q = next_of (heap c) q"
    using alloc_refines [OF r p x] by auto
  have nc: "Ptr n \<notin> cached a" using D(2) p by blast
  define H2 where "H2 = H1\<lparr>next_of := (next_of H1)(Ptr n \<mapsto> Null)\<rparr>"
  have "dll H2 LruHead (ac_lru a) = dll H1 LruHead (ac_lru a)" "dll H2 InUseHead (ac_in_use a) = dll H1 InUseHead (ac_in_use a)"
    by (rule dll_cong; use nc in \<open>auto simp: H2_def cached_def\<close>)+
  then have l: "lists_ok H2 ?a"
    by (intro lists_okI) (use H1(4,5,7) lists_okD(3) [OF R(4)] in \<open>auto simp: H2_def a_alloc_fields\<close>)
  have h: "handles H2 = handle_for ?a" using H1(2) by (simp add: H2_def)
  have t: "tab (table c) H2 (cached a)"
  proof (rule tab_frame [OF H1(6)])
    fix q assume "q \<in> cached a"
    then have "q \<in> alive ?a" using D(2) by (auto simp: a_alloc_fields)
    then show "readable H2 q" by (rule readable_alive [OF h l])
  qed (simp_all add: H2_def key_of_handle_def)
  have wf: "a_wf ?a" by (rule a_wf_alloc [OF R(2) p])
  have "a_ok ?a" using wf t key_of_handle_for [OF h] by (simp add: a_ok_def tab_def a_alloc_fields)
  moreover have "a_usage ?a = a_usage a" by (rule a_usage_cong) (use wf R(2) nc in \<open>auto simp: a_alloc_fields\<close>)
  ultimately have "rep (c\<lparr>heap := H2\<rparr>) ?a" using h l t R(6-8) by (simp add: rep_def a_alloc_fields)
  then show ?thesis using H1(1,3) by (auto simp: set_next_def allocated_def H2_def)
qed

lemma LRU_Insert_refines:
  assumes r: "rep c a" and p: "Ptr n \<notin> alive a" and small: "card (cached a) < 2 ^ 31"
  shows "\<exists>c'. LRU_Insert (Ptr n) key hash v charge deleter c = Some (Ptr n, c') \<and> rep c' (a_insert (Ptr n) key hash v charge deleter a)"
proof -
  note R = repD [OF r]
  let ?a = "a_alloc (Ptr n) key hash v charge deleter a" let ?x = "new_handle key hash v charge deleter"
  have x: "?x = \<lparr>lh_value = v, lh_deleter = deleter, lh_charge = charge, lh_in_cache = False, lh_refs = 1, lh_hash = hash, lh_key = key\<rparr>"
    by (simp add: new_handle_def)
  show ?thesis
  proof (cases "0 < ac_capacity a")
    case True
    let ?b = "a_cache (Ptr n) ?a"
    obtain H1 H2 H3 H4 where H: "malloc_handle (Ptr n) ?x (heap c) = Some H1" "upd_handle (Ptr n) (\<lambda>x. x\<lparr>lh_refs := lh_refs x + 1\<rparr>) H1 = Some H2"
        "upd_handle (Ptr n) (\<lambda>x. x\<lparr>lh_in_cache := True\<rparr>) H2 = Some H3" "LRU_Append InUseHead (Ptr n) H3 = Some H4"
        "handles H4 = handle_for ?b" "lists_ok H4 ?b" "tab (table c) H4 (cached a)"
      using link_new [OF r p refl refl] by blast
    obtain old T H5 where E: "HT_Insert (Ptr n) (table c) H4 = Some (old, T, H5)"
      "case a_find hash key a of None \<Rightarrow> old = Null \<and> rep (c\<lparr>heap := H5, table := T, usage := usage c + charge\<rparr>) ?b
       | Some q \<Rightarrow> old = q \<and> erasing (c\<lparr>heap := H5, table := T, usage := usage c + charge\<rparr>) ?b q"
      using enter_new [OF r p small refl H(5-7)] by blast
    obtain b c1 where F: "FinishErase old (c\<lparr>heap := H5, table := T, usage := usage c + charge\<rparr>) = Some (b, c1)"
        "rep c1 (case a_find hash key a of None \<Rightarrow> ?b | Some q \<Rightarrow> a_uncache q ?b)"
    proof (cases "a_find hash key a")
      case None
      then show ?thesis using E(2) that [of False] by (simp add: FinishErase_def)
    next
      case (Some q)
      then have "old = q" and er: "erasing (c\<lparr>heap := H5, table := T, usage := usage c + charge\<rparr>) ?b q" using E(2) by simp_all
      then show ?thesis using FinishErase_refines [OF er] that [of True] Some by auto
    qed
    from EvictLoop_refines [OF F(2)] obtain c2 where "EvictLoop c1 = Some c2"
        "rep c2 (a_evict (case a_find hash key a of None \<Rightarrow> ?b | Some q \<Rightarrow> a_uncache q ?b))" by blast
    then show ?thesis
      using True H(1-4) E(1) F(1) R(7) by (simp add: LRU_Insert_def a_insert_def Let_def flip: x)
  next
    case False
    obtain H1 H2 where H: "malloc_handle (Ptr n) ?x (heap c) = Some H1" "set_next (Ptr n) Null H1 = Some H2" "rep (c\<lparr>heap := H2\<rparr>) ?a"
      using insert_uncached [OF r p refl] by blast
    from EvictLoop_refines [OF H(3)] obtain c2 where "EvictLoop (c\<lparr>heap := H2\<rparr>) = Some c2" "rep c2 (a_evict ?a)" by blast
    then show ?thesis
      using False H(1,2) R(7) by (simp add: LRU_Insert_def a_insert_def flip: x)
  qed
qed

end
