(* ===== verification/LRUClient.thy ===== *)
theory LRUClient
  imports LRURefine
begin

text \<open>
  What the clients of a shard of the cache see: creation and destruction, the calls they are
  allowed to make, eviction from the oldest unused entry on, and that every entry is passed to its
  deleter exactly once.
\<close>

section \<open>Creation\<close>

lemma HandleTable_new_spec: "\<exists>T f. HandleTable_new H = Some (T, H\<lparr>next_hash_of := f\<rparr>) \<and> tab T (H\<lparr>next_hash_of := f\<rparr>) {}"
proof -
  obtain T f bs where "HandleTable_new H = Some (T, H\<lparr>next_hash_of := f\<rparr>)" "buckets T (H\<lparr>next_hash_of := f\<rparr>) bs" "mset (concat bs) = {#}"
    using HT_Resize_spec [of H "\<lparr>ht_length = 0, ht_elems = 0, ht_list = []\<rparr>" "[]"] by (auto simp: HandleTable_new_def)
  moreover from this(3) have "set (concat bs) = {}" by (metis set_mset_empty set_mset_mset)
  ultimately show ?thesis using tabI [of T "H\<lparr>next_hash_of := f\<rparr>" bs "{}"] by auto
qed

lemma LRUCache_new_rep: "\<exists>c :: ('v, 'd) LRUCache. LRUCache_new = Some c \<and> rep (SetCapacity n c) (a_new n)"
proof -
  define E :: "('v, 'd) Heap" where "E = empty_lists"
  obtain T f where T: "HandleTable_new E = Some (T, E\<lparr>next_hash_of := f\<rparr>)" "tab T (E\<lparr>next_hash_of := f\<rparr>) {}"
    using HandleTable_new_spec [of E] by blast
  have "lists_ok (E\<lparr>next_hash_of := f\<rparr>) (a_new n)"
    by (simp add: lists_ok_def a_new_def dll_def E_def empty_lists_def alive_def)
  moreover have "handles (E\<lparr>next_hash_of := f\<rparr>) = handle_for (a_new n)"
    by (rule ext) (simp add: E_def empty_lists_def handle_for_def a_new_def)
  ultimately have "rep (SetCapacity n \<lparr>capacity = 0, usage = 0, heap = E\<lparr>next_hash_of := f\<rparr>, table = T, deleted = []\<rparr>) (a_new n)"
    using T(2) a_ok_new [of n] by (intro repI) (simp_all add: SetCapacity_def cached_def a_new_def a_usage_def)
  then show ?thesis using T(1) by (simp add: LRUCache_new_def flip: E_def)
qed

section \<open>Destruction\<close>

fun next_path :: "('v, 'd) Heap \<Rightarrow> ptr list \<Rightarrow> ptr \<Rightarrow> bool" where
  "next_path H [] z \<longleftrightarrow> True"
| "next_path H (x # xs) z \<longleftrightarrow> next_of H x = Some (hd (xs @ [z])) \<and> next_path H xs z"

lemma seg_next_path: "seg H x xs z \<Longrightarrow> next_path H xs z"
proof (induction xs arbitrary: x)
  case (Cons y ys)
  then show ?case by (cases ys) auto
qed simp

lemma next_path_cong: "(\<And>x. x \<in> set xs \<Longrightarrow> next_of H' x = next_of H x) \<Longrightarrow> next_path H' xs z = next_path H xs z"
  by (induction xs) auto

definition goodbye :: "('v, 'd) Heap \<Rightarrow> ptr \<Rightarrow> 'd \<times> bytes \<times> 'v" where
  "goodbye H p = (case handles H p of Some x \<Rightarrow> (lh_deleter x, lh_key x, lh_value x))"

lemma DestroyLoop_spec:
  assumes "next_path (heap c) xs LruHead" "distinct (LruHead # xs)" "\<And>p. p \<in> set xs \<Longrightarrow> readable (heap c) p"
    "\<And>p x. p \<in> set xs \<Longrightarrow> handles (heap c) p = Some x \<Longrightarrow> lh_in_cache x \<and> lh_refs x = 1"
  shows "\<exists>c'. DestroyLoop (hd (xs @ [LruHead])) c = Some c' \<and> deleted c' = deleted c @ map (goodbye (heap c)) xs \<and>
    (\<forall>p. handles (heap c') p = (if p \<in> set xs then None else handles (heap c) p))"
  using assms
proof (induction xs arbitrary: c)
  case Nil
  then show ?case by (simp add: DestroyLoop.simps)
next
  case (Cons e xs)
  obtain x where x: "handles (heap c) e = Some x" "lh_in_cache x" "lh_refs x = 1" using Cons.prems(3,4) [of e] by (auto simp: readable_def)
  let ?H = "(heap c)\<lparr>handles := (handles (heap c))(e \<mapsto> x\<lparr>lh_in_cache := False\<rparr>)\<rparr>"
  let ?c = "c\<lparr>heap := free_handle e ?H, deleted := deleted c @ [goodbye (heap c) e]\<rparr>"
  have "LRU_Unref e (c\<lparr>heap := ?H\<rparr>) = Some ?c"
    using LRU_Unref_detached [of "c\<lparr>heap := ?H\<rparr>" e "x\<lparr>lh_in_cache := False\<rparr>"] x Cons.prems(3) [of e]
    by (simp add: readable_def goodbye_def)
  then have step: "DestroyLoop (hd ((e # xs) @ [LruHead])) c = DestroyLoop (hd (xs @ [LruHead])) ?c"
    using x Cons.prems(1,2) by (subst DestroyLoop.simps) (auto simp: upd_handle_def)
  have keep: "handles (heap ?c) p = handles (heap c) p" "next_of (heap ?c) p = next_of (heap c) p" if "p \<in> set xs" for p
    using that Cons.prems(2) by (auto simp: free_handle_def)
  have "next_path (heap ?c) xs LruHead = next_path (heap c) xs LruHead" by (rule next_path_cong) (rule keep(2))
  then obtain c' where c': "DestroyLoop (hd (xs @ [LruHead])) ?c = Some c'" "deleted c' = deleted ?c @ map (goodbye (heap ?c)) xs"
      "\<forall>p. handles (heap c') p = (if p \<in> set xs then None else handles (heap ?c) p)"
    using Cons.IH [of ?c] Cons.prems keep by (auto simp: readable_def)
  have "map (goodbye (heap ?c)) xs = map (goodbye (heap c)) xs" using keep(1) by (simp add: goodbye_def)
  then show ?case using c' step Cons.prems(2) by (auto simp: free_handle_def)
qed

definition farewell :: "('v, 'd) acache \<Rightarrow> ptr \<Rightarrow> 'd \<times> bytes \<times> 'v" where
  "farewell a p = (case ac_entries a p of Some e \<Rightarrow> (e_deleter e, e_key e, e_value e))"

lemma LRUCache_delete_spec:
  assumes r: "rep c a" and u: "ac_in_use a = []"
  shows "\<exists>c'. LRUCache_delete c = Some c' \<and> deleted c' = ac_deleted a @ map (farewell a) (ac_lru a) \<and>
    (\<forall>p. handles (heap c') p \<noteq> None \<longleftrightarrow> p \<in> alive a - cached a)"
proof -
  note R = repD [OF r] and D = a_wfD [OF repD(2) [OF r]] and L = lists_okD [OF repD(4) [OF r]]
  have C: "cached a = set (ac_lru a)" using u by (simp add: cached_def)
  have al: "p \<in> alive a" if "p \<in> set (ac_lru a)" for p using that D(2) C by blast
  have "next_path (heap c) (ac_lru a) LruHead" "distinct (LruHead # ac_lru a)" using L(1) seg_next_path by (auto simp: dll_def)
  moreover have "readable (heap c) p" if "p \<in> set (ac_lru a)" for p using readable_alive [OF R(3,4) al [OF that]] .
  moreover have "lh_in_cache x \<and> lh_refs x = 1" if "p \<in> set (ac_lru a)" "handles (heap c) p = Some x" for p x
    using that R(3) D(4) C by (auto simp: handle_for_def)
  ultimately obtain c' where c': "DestroyLoop (hd (ac_lru a @ [LruHead])) c = Some c'" "deleted c' = deleted c @ map (goodbye (heap c)) (ac_lru a)"
      "\<forall>p. handles (heap c') p = (if p \<in> set (ac_lru a) then None else handles (heap c) p)"
    using DestroyLoop_spec [of c "ac_lru a"] by blast
  have "goodbye (heap c) p = farewell a p" if "p \<in> set (ac_lru a)" for p
    using al [OF that] R(3) by (auto simp: goodbye_def farewell_def handle_for_def alive_def)
  then have "deleted c' = ac_deleted a @ map (farewell a) (ac_lru a)" using c'(2) R(8) by simp
  moreover have "next_of (heap c) InUseHead = Some InUseHead" using dll_head [OF L(2)] u by simp
  then have "LRUCache_delete c = Some c'" using c'(1) lru_front(1) [OF r] by (simp add: LRUCache_delete_def)
  moreover have "handles (heap c') p \<noteq> None \<longleftrightarrow> p \<in> alive a - cached a" for p
    using c'(3) R(3) handle_for_alive [of a p] C by simp
  ultimately show ?thesis by blast
qed

section \<open>Every entry is passed to its deleter exactly once\<close>

text \<open>The entries that were passed to their deleter, and those that are still alive.\<close>

definition accounted :: "('v, 'd) acache \<Rightarrow> ('d \<times> bytes \<times> 'v) multiset" where
  "accounted a = mset (ac_deleted a) + image_mset (farewell a) (mset_set (alive a))"

lemma accounted_cong: "ac_entries b = ac_entries a \<Longrightarrow> ac_deleted b = ac_deleted a \<Longrightarrow> accounted b = accounted a"
proof -
  assume "ac_entries b = ac_entries a" "ac_deleted b = ac_deleted a"
  moreover from this have "farewell b = farewell a" by (simp add: fun_eq_iff farewell_def)
  ultimately show ?thesis by (simp add: accounted_def alive_def)
qed

lemma accounted_free:
  assumes "finite (alive a)" "p \<in> alive a"
  shows "accounted (a_free p a) = accounted a"
proof -
  obtain e where e: "ac_entries a p = Some e" using assms(2) by (auto simp: alive_def)
  have "alive (a_free p a) = alive a - {p}" using e by (auto simp: a_free_def alive_def)
  moreover have "image_mset (farewell (a_free p a)) (mset_set (alive a - {p})) = image_mset (farewell a) (mset_set (alive a - {p}))"
    using assms(1) e by (intro image_mset_cong) (auto simp: farewell_def a_free_def)
  moreover have "mset_set (alive a) = add_mset p (mset_set (alive a - {p}))" using assms by (simp add: mset_set.remove)
  ultimately show ?thesis using e by (simp add: accounted_def a_free_def farewell_def)
qed

lemma accounted_uncache: "finite (alive a) \<Longrightarrow> p \<in> alive a \<Longrightarrow> accounted (a_uncache p a) = accounted a"
proof -
  assume f: "finite (alive a)" "p \<in> alive a"
  let ?b = "a\<lparr>ac_lru := remove1 p (ac_lru a), ac_in_use := remove1 p (ac_in_use a)\<rparr>"
  have "accounted ?b = accounted a" by (rule accounted_cong) simp_all
  moreover have "alive ?b = alive a" by (simp add: alive_def)
  ultimately show ?thesis using accounted_free [of ?b p] f by (simp add: a_uncache_def Let_def)
qed

lemma accounted_ref: "accounted (a_ref p a) = accounted a"
  by (rule accounted_cong) (simp_all add: a_ref_def Let_def)

lemma accounted_release: "finite (alive a) \<Longrightarrow> p \<in> alive a \<Longrightarrow> accounted (a_release p a) = accounted a"
proof -
  assume f: "finite (alive a)" "p \<in> alive a"
  have b: "accounted (a\<lparr>ac_held := h\<rparr>) = accounted a" "accounted (a\<lparr>ac_held := h, ac_in_use := xs, ac_lru := ys\<rparr>) = accounted a" for h xs ys
    by (rule accounted_cong; simp)+
  have "accounted (a_free p (a\<lparr>ac_held := h\<rparr>)) = accounted a" for h
    using accounted_free [of "a\<lparr>ac_held := h\<rparr>" p] f b(1) by (simp add: alive_def)
  then show ?thesis using b by (simp add: a_release_def Let_def)
qed

lemma accounted_alloc:
  assumes "finite (alive a)" "p \<notin> alive a"
  shows "accounted (a_alloc p key hash v charge deleter a) = add_mset (deleter, key, v) (accounted a)"
proof -
  have "image_mset (farewell (a_alloc p key hash v charge deleter a)) (mset_set (alive a)) = image_mset (farewell a) (mset_set (alive a))"
    using assms by (intro image_mset_cong) (auto simp: farewell_def a_alloc_fields)
  then show ?thesis using assms by (simp add: accounted_def a_alloc_fields farewell_def)
qed

lemma finite_alive_uncache: "a_wf a \<Longrightarrow> finite (alive a) \<Longrightarrow> finite (alive (a_uncache p a))"
  by (simp add: a_uncache_fields(7))

lemma accounted_evict: "a_ok a \<Longrightarrow> finite (alive a) \<Longrightarrow> accounted (a_evict a) = accounted a \<and> finite (alive (a_evict a))"
proof (induction a rule: a_evict.induct)
  case (1 a)
  show ?case
  proof (cases "ac_capacity a < a_usage a \<and> ac_lru a \<noteq> []")
    case True
    let ?p = "hd (ac_lru a)"
    note wf = a_okD(1) [OF 1(2)]
    have p: "?p \<in> alive a" using True a_wfD(2) [OF wf] by (auto simp: cached_def)
    show ?thesis
      using 1(1) [OF True a_ok_uncache' [OF 1(2)] finite_alive_uncache [OF wf 1(3)]] accounted_uncache [OF 1(3) p] True
      by (simp add: a_evict.simps [of a])
  qed (use 1(3) in \<open>auto simp: a_evict.simps [of a]\<close>)
qed

lemma accounted_prune: "a_ok a \<Longrightarrow> finite (alive a) \<Longrightarrow> accounted (a_prune a) = accounted a \<and> finite (alive (a_prune a))"
proof (induction a rule: a_prune.induct)
  case (1 a)
  show ?case
  proof (cases "ac_lru a = []")
    case False
    let ?p = "hd (ac_lru a)"
    note wf = a_okD(1) [OF 1(2)]
    have p: "?p \<in> alive a" using False a_wfD(2) [OF wf] by (auto simp: cached_def)
    show ?thesis
      using 1(1) [OF False a_ok_uncache' [OF 1(2)] finite_alive_uncache [OF wf 1(3)]] accounted_uncache [OF 1(3) p] False
      by (simp add: a_prune.simps [of a])
  qed (use 1(3) in \<open>simp add: a_prune.simps [of a]\<close>)
qed

text \<open>The state of an insertion before eviction.\<close>

definition a_entered :: "ptr \<Rightarrow> bytes \<Rightarrow> u32 \<Rightarrow> 'v \<Rightarrow> u64 \<Rightarrow> 'd \<Rightarrow> ('v, 'd) acache \<Rightarrow> ('v, 'd) acache" where
  "a_entered p key hash v charge deleter a =
     (let a1 = a_alloc p key hash v charge deleter a
      in if 0 < ac_capacity a then
           (case a_find hash key a of None \<Rightarrow> a_cache p a1 | Some q \<Rightarrow> a_uncache q (a_cache p a1))
         else a1)"

lemma a_insert_entered: "a_insert p key hash v charge deleter a = a_evict (a_entered p key hash v charge deleter a)"
  by (simp add: a_insert_def a_entered_def Let_def)

lemma a_entered_ok:
  assumes ok: "a_ok a" and p: "Ptr n \<notin> alive a"
  shows "a_ok (a_entered (Ptr n) key hash v charge deleter a)"
proof -
  note wf = a_okD(1) [OF ok]
  let ?a = "a_alloc (Ptr n) key hash v charge deleter a" let ?b = "a_cache (Ptr n) ?a"
  have nc: "Ptr n \<notin> cached a" using a_wfD(2) [OF wf] p by blast
  have wfb: "a_wf ?a" "a_wf ?b" using a_wf_alloc [OF wf p] a_wf_cache [of ?a "Ptr n"] nc by (simp_all add: a_alloc_fields)
  have ka: "entry_key ?a q = entry_key a q" "entry_key ?b q = entry_key a q" if "q \<in> cached a" for q
    using that nc by (auto simp: entry_key_def a_alloc_fields a_cache_fields)
  have kp: "entry_key ?b (Ptr n) = Some (hash, key)" by (simp add: entry_key_def a_alloc_fields a_cache_fields)
  have inj: "inj_on (entry_key ?a) (cached a)" "inj_on (entry_key ?b) (cached a)"
    using a_okD(2) [OF ok] inj_on_cong [of "cached a" "entry_key ?a" "entry_key a"] inj_on_cong [of "cached a" "entry_key ?b" "entry_key a"] ka by auto
  show ?thesis
  proof (cases "0 < ac_capacity a")
    case True
    show ?thesis
    proof (cases "a_find hash key a")
      case None
      then have "inj_on (entry_key ?b) (cached ?b)"
        using inj_on_insert_key [OF inj(2), of "Ptr n"] a_find_None [of hash key a] ka(2) kp by (simp add: a_cache_fields a_alloc_fields)
      then show ?thesis using True None wfb(2) by (simp add: a_entered_def a_ok_def)
    next
      case (Some q)
      then have q: "q \<in> cached a" "entry_key a q = Some (hash, key)" using a_find_Some [OF ok] by auto
      have "cached ?b - {q} = insert (Ptr n) (cached a - {q})" using q(1) nc by (auto simp: a_cache_fields a_alloc_fields)
      then have "inj_on (entry_key ?b) (cached ?b - {q})"
        using inj_on_replace_key [OF inj(2) q(1), of "Ptr n"] ka(2) [OF q(1)] q(2) kp by simp
      then show ?thesis using True Some a_ok_uncache [OF wfb(2)] by (simp add: a_entered_def)
    qed
  next
    case False
    then show ?thesis using wfb(1) inj(1) by (simp add: a_entered_def a_ok_def a_alloc_fields)
  qed
qed

lemma accounted_entered:
  assumes ok: "a_ok a" and p: "Ptr n \<notin> alive a" and f: "finite (alive a)"
  shows "accounted (a_entered (Ptr n) key hash v charge deleter a) = add_mset (deleter, key, v) (accounted a) \<and>
    finite (alive (a_entered (Ptr n) key hash v charge deleter a))"
proof -
  let ?a = "a_alloc (Ptr n) key hash v charge deleter a" let ?b = "a_cache (Ptr n) ?a"
  have fa: "finite (alive ?a)" "finite (alive ?b)" using f by (simp_all add: a_alloc_fields a_cache_fields)
  have b: "accounted ?b = accounted ?a" by (rule accounted_cong) (simp_all add: a_cache_fields)
  have a: "accounted ?a = add_mset (deleter, key, v) (accounted a)" by (rule accounted_alloc [OF f p])
  have "accounted (a_uncache q ?b) = accounted ?b" "finite (alive (a_uncache q ?b))" if "a_find hash key a = Some q" for q
  proof -
    have "q \<in> alive a" using that a_find_Some [OF ok] a_wfD(2) [OF a_okD(1) [OF ok]] by blast
    then show "accounted (a_uncache q ?b) = accounted ?b" using accounted_uncache [OF fa(2), of q] by (simp add: a_alloc_fields a_cache_fields)
    have "alive (a_uncache q ?b) \<subseteq> alive ?b" by (auto simp: a_uncache_def a_free_def alive_def Let_def split: option.splits if_splits)
    then show "finite (alive (a_uncache q ?b))" using fa(2) finite_subset by blast
  qed
  then show ?thesis using fa a b by (cases "a_find hash key a") (simp_all add: a_entered_def Let_def)
qed

section \<open>Runs of a client\<close>

datatype ('v, 'd) call =
  Call_Insert nat bytes u32 'v u64 'd
| Call_Lookup bytes u32
| Call_Release ptr
| Call_Erase bytes u32
| Call_Prune

fun call_exec :: "('v, 'd) call \<Rightarrow> ('v, 'd) LRUCache \<Rightarrow> (ptr \<times> ('v, 'd) LRUCache) option" where
  "call_exec (Call_Insert n key hash v charge deleter) c = LRU_Insert (Ptr n) key hash v charge deleter c"
| "call_exec (Call_Lookup key hash) c = LRU_Lookup key hash c"
| "call_exec (Call_Release p) c = map_option (Pair Null) (LRU_Release p c)"
| "call_exec (Call_Erase key hash) c = map_option (Pair Null) (LRU_Erase key hash c)"
| "call_exec Call_Prune c = map_option (Pair Null) (LRU_Prune c)"

fun a_exec :: "('v, 'd) call \<Rightarrow> ('v, 'd) acache \<Rightarrow> ptr \<times> ('v, 'd) acache" where
  "a_exec (Call_Insert n key hash v charge deleter) a = (Ptr n, a_insert (Ptr n) key hash v charge deleter a)"
| "a_exec (Call_Lookup key hash) a = a_lookup key hash a"
| "a_exec (Call_Release p) a = (Null, a_release p a)"
| "a_exec (Call_Erase key hash) a = (Null, a_erase key hash a)"
| "a_exec Call_Prune a = (Null, a_prune a)"

text \<open>
  What a client may do: a new entry gets an unused address, a handle is released only by whoever
  holds it, and the 32-bit counters of references and of entries do not overflow.
\<close>

fun allowed :: "('v, 'd) call \<Rightarrow> ('v, 'd) acache \<Rightarrow> bool" where
  "allowed (Call_Insert n key hash v charge deleter) a \<longleftrightarrow> ac_entries a (Ptr n) = None \<and> length (ac_lru a) + length (ac_in_use a) < 2 ^ 31"
| "allowed (Call_Lookup key hash) a \<longleftrightarrow> list_all (\<lambda>p. ac_held a p + 2 < 2 ^ 32) (ac_lru a @ ac_in_use a)"
| "allowed (Call_Release p) a \<longleftrightarrow> 0 < ac_held a p"
| "allowed (Call_Erase key hash) a \<longleftrightarrow> True"
| "allowed Call_Prune a \<longleftrightarrow> True"

lemma call_refines:
  assumes r: "rep c a" and al: "allowed x a"
  shows "\<exists>c'. call_exec x c = Some (fst (a_exec x a), c') \<and> rep c' (snd (a_exec x a))"
proof (cases x)
  case (Call_Insert n key hash v charge deleter)
  have "card (cached a) \<le> length (ac_lru a) + length (ac_in_use a)"
    using card_length [of "ac_lru a @ ac_in_use a"] by (simp add: cached_def)
  then have "card (cached a) < 2 ^ 31" using al Call_Insert by simp
  then show ?thesis using LRU_Insert_refines [OF r, of n] al Call_Insert by (simp add: alive_def domIff)
next
  case (Call_Lookup key hash)
  then have "ac_held a p + 2 < 2 ^ 32" if "p \<in> cached a" for p using al that by (auto simp: list_all_iff cached_def)
  then show ?thesis using LRU_Lookup_refines [OF r, of key hash] Call_Lookup by auto
next
  case (Call_Release p)
  then show ?thesis using LRU_Release_refines [OF r, of p] al by auto
next
  case (Call_Erase key hash)
  then show ?thesis using LRU_Erase_refines [OF r, of key hash] by auto
next
  case Call_Prune
  then show ?thesis using LRU_Prune_refines [OF r] by auto
qed

fun call_run :: "('v, 'd) call list \<Rightarrow> ('v, 'd) LRUCache \<Rightarrow> (ptr list \<times> ('v, 'd) LRUCache) option" where
  "call_run [] c = Some ([], c)"
| "call_run (x # xs) c = do { (r, c1) \<leftarrow> call_exec x c; (rs, c2) \<leftarrow> call_run xs c1; Some (r # rs, c2) }"

fun a_run :: "('v, 'd) call list \<Rightarrow> ('v, 'd) acache \<Rightarrow> ptr list \<times> ('v, 'd) acache" where
  "a_run [] a = ([], a)"
| "a_run (x # xs) a = (let (r, a1) = a_exec x a; (rs, a2) = a_run xs a1 in (r # rs, a2))"

fun allowed_run :: "('v, 'd) call list \<Rightarrow> ('v, 'd) acache \<Rightarrow> bool" where
  "allowed_run [] a \<longleftrightarrow> True"
| "allowed_run (x # xs) a \<longleftrightarrow> allowed x a \<and> allowed_run xs (snd (a_exec x a))"

lemma a_run_append: "a_run (xs @ ys) a = (fst (a_run xs a) @ fst (a_run ys (snd (a_run xs a))), snd (a_run ys (snd (a_run xs a))))"
  by (induction xs arbitrary: a) (simp_all add: case_prod_unfold Let_def)

lemma allowed_run_append: "allowed_run (xs @ ys) a \<longleftrightarrow> allowed_run xs a \<and> allowed_run ys (snd (a_run xs a))"
  by (induction xs arbitrary: a) (simp_all add: case_prod_unfold Let_def)

lemma run_refines:
  "rep c a \<Longrightarrow> allowed_run xs a \<Longrightarrow> \<exists>c'. call_run xs c = Some (fst (a_run xs a), c') \<and> rep c' (snd (a_run xs a))"
proof (induction xs arbitrary: c a)
  case (Cons x xs)
  obtain c1 where c1: "call_exec x c = Some (fst (a_exec x a), c1)" "rep c1 (snd (a_exec x a))"
    using call_refines [OF Cons.prems(1)] Cons.prems(2) by auto
  from Cons.IH [OF c1(2)] Cons.prems(2) obtain c2 where
    "call_run xs c1 = Some (fst (a_run xs (snd (a_exec x a))), c2)" "rep c2 (snd (a_run xs (snd (a_exec x a))))" by auto
  then show ?case using c1(1) by (simp add: case_prod_unfold Let_def)
qed simp

fun inserted :: "('v, 'd) call list \<Rightarrow> ('d \<times> bytes \<times> 'v) list" where
  "inserted [] = []"
| "inserted (Call_Insert n key hash v charge deleter # xs) = (deleter, key, v) # inserted xs"
| "inserted (x # xs) = inserted xs"

lemma accounted_exec:
  assumes ok: "a_ok a" and f: "finite (alive a)" and al: "allowed x a"
  shows "finite (alive (snd (a_exec x a))) \<and> accounted (snd (a_exec x a)) = mset (inserted [x]) + accounted a"
proof (cases x)
  case (Call_Insert n key hash v charge deleter)
  then have p: "Ptr n \<notin> alive a" using al by (simp add: alive_def domIff)
  show ?thesis
    using accounted_entered [OF ok p f, of key hash v charge deleter] a_entered_ok [OF ok p, of key hash v charge deleter]
      accounted_evict [of "a_entered (Ptr n) key hash v charge deleter a"] Call_Insert
    by (simp add: a_insert_entered)
next
  case (Call_Lookup key hash)
  have "alive (a_ref p a) = alive a" for p by (simp add: a_ref_def alive_def Let_def)
  then show ?thesis using Call_Lookup f by (cases "a_find hash key a") (simp_all add: a_lookup_def accounted_ref)
next
  case (Call_Release p)
  then have h: "0 < ac_held a p" using al by simp
  then have "p \<in> alive a" using a_wfD(7) [OF a_okD(1) [OF ok], of p] by auto
  then show ?thesis using Call_Release accounted_release [OF f] a_release_fields(7) [OF a_okD(1) [OF ok] h] f by simp
next
  case (Call_Erase key hash)
  show ?thesis
  proof (cases "a_find hash key a")
    case (Some p)
    then have "p \<in> alive a" using a_find_Some [OF ok] a_wfD(2) [OF a_okD(1) [OF ok]] by blast
    then show ?thesis
      using Some Call_Erase accounted_uncache [OF f] finite_alive_uncache [OF a_okD(1) [OF ok] f] by (simp add: a_erase_def)
  qed (use Call_Erase f in \<open>simp add: a_erase_def\<close>)
next
  case Call_Prune
  then show ?thesis using accounted_prune [OF ok f] by simp
qed

lemma accounted_run:
  "rep c a \<Longrightarrow> finite (alive a) \<Longrightarrow> allowed_run xs a \<Longrightarrow>
    finite (alive (snd (a_run xs a))) \<and> accounted (snd (a_run xs a)) = mset (inserted xs) + accounted a"
proof (induction xs arbitrary: c a)
  case (Cons x xs)
  obtain c1 where c1: "rep c1 (snd (a_exec x a))" using call_refines [OF Cons.prems(1)] Cons.prems(3) by auto
  note e = accounted_exec [OF repD(1) [OF Cons.prems(1)] Cons.prems(2), of x]
  have "mset (inserted (x # xs)) = mset (inserted [x]) + mset (inserted xs)" by (cases x) simp_all
  then show ?case using Cons.IH [OF c1] e Cons.prems(3) by (auto simp: case_prod_unfold Let_def)
qed simp

section \<open>Eviction order\<close>

lemma a_evict_prefix:
  "a_wf a \<Longrightarrow> \<exists>k. ac_lru (a_evict a) = drop k (ac_lru a) \<and> ac_in_use (a_evict a) = ac_in_use a \<and> ac_capacity (a_evict a) = ac_capacity a \<and>
     (\<forall>j < k. ac_capacity a < (\<Sum>p \<leftarrow> drop j (ac_lru a) @ ac_in_use a. charge_of a p)) \<and>
     (a_usage (a_evict a) \<le> ac_capacity a \<or> ac_lru (a_evict a) = [])"
proof (induction a rule: a_evict.induct)
  case (1 a)
  show ?case
  proof (cases "ac_capacity a < a_usage a \<and> ac_lru a \<noteq> []")
    case True
    obtain p ps where lru: "ac_lru a = p # ps" using True by (cases "ac_lru a") auto
    let ?b = "a_uncache p a"
    note f = a_uncache_fields [OF 1(2), of p]
    have d: "p \<notin> set (ac_in_use a)" "p \<notin> set ps" using a_wfD(1) [OF 1(2)] lru by auto
    then have b: "ac_lru ?b = ps" "ac_in_use ?b = ac_in_use a" using f(2,3) lru by (simp_all add: remove1_idem)
    have ch: "charge_of ?b q = charge_of a q" if "q \<noteq> p" for q using that f(6) by (simp add: charge_of_def)
    have sum: "(\<Sum>q \<leftarrow> drop j ps @ ac_in_use a. charge_of ?b q) = (\<Sum>q \<leftarrow> drop j ps @ ac_in_use a. charge_of a q)" for j
      using d ch by (intro arg_cong [of _ _ sum_list] map_cong refl) (metis Un_iff in_set_dropD set_append)
    from 1(1) [OF True] a_wf_uncache [OF 1(2), of p] lru obtain k where k: "ac_lru (a_evict ?b) = drop k ps" "ac_in_use (a_evict ?b) = ac_in_use a"
        "ac_capacity (a_evict ?b) = ac_capacity a" "\<forall>j < k. ac_capacity a < (\<Sum>q \<leftarrow> drop j ps @ ac_in_use a. charge_of a q)"
        "a_usage (a_evict ?b) \<le> ac_capacity a \<or> ac_lru (a_evict ?b) = []"
      using b f(5) sum by auto
    have "ac_capacity a < (\<Sum>q \<leftarrow> drop j (ac_lru a) @ ac_in_use a. charge_of a q)" if "j < Suc k" for j
      using that k(4) True lru by (cases j) (auto simp: a_usage_def)
    moreover have "a_evict a = a_evict ?b" using True lru by (simp add: a_evict.simps [of a])
    ultimately show ?thesis using k lru by (intro exI [of _ "Suc k"]) simp
  next
    case False
    then have "a_evict a = a" by (auto simp: a_evict.simps [of a])
    then show ?thesis using False by (intro exI [of _ 0]) auto
  qed
qed

lemma a_evict_keeps: "a_wf a \<Longrightarrow> p \<notin> set (ac_lru a) \<Longrightarrow> ac_entries (a_evict a) p = ac_entries a p \<and> ac_held (a_evict a) p = ac_held a p"
proof (induction a rule: a_evict.induct)
  case (1 a)
  show ?case
  proof (cases "ac_capacity a < a_usage a \<and> ac_lru a \<noteq> []")
    case True
    note f = a_uncache_fields [OF 1(2), of "hd (ac_lru a)"]
    have "p \<noteq> hd (ac_lru a)" "p \<notin> set (remove1 (hd (ac_lru a)) (ac_lru a))" using True 1(3) by (auto dest: notin_set_remove1)
    then show ?thesis using 1(1) [OF True a_wf_uncache [OF 1(2)]] f True by (simp add: a_evict.simps [of a])
  qed (auto simp: a_evict.simps [of a])
qed

text \<open>A new entry is cached, in use and found by its key; eviction does not touch it.\<close>

lemma a_entered_new:
  assumes ok: "a_ok a" and p: "Ptr n \<notin> alive a" and cap: "0 < ac_capacity a"
    and b_def: "b = a_entered (Ptr n) key hash v charge deleter a"
  shows "Ptr n \<in> set (ac_in_use b)" "Ptr n \<notin> set (ac_lru b)"
    "ac_entries b (Ptr n) = Some \<lparr>e_value = v, e_deleter = deleter, e_charge = charge, e_hash = hash, e_key = key\<rparr>" "ac_held b (Ptr n) = 1"
proof -
  note wf = a_okD(1) [OF ok]
  let ?b = "a_cache (Ptr n) (a_alloc (Ptr n) key hash v charge deleter a)"
  have nc: "Ptr n \<notin> cached a" using a_wfD(2) [OF wf] p by blast
  have wfb: "a_wf ?b" by (rule a_wf_cache) (use a_wf_alloc [OF wf p] nc in \<open>simp_all add: a_alloc_fields\<close>)
  have new: "Ptr n \<in> set (ac_in_use ?b)" "Ptr n \<notin> set (ac_lru ?b)" "ac_held ?b (Ptr n) = 1"
    "ac_entries ?b (Ptr n) = Some \<lparr>e_value = v, e_deleter = deleter, e_charge = charge, e_hash = hash, e_key = key\<rparr>"
    using nc by (simp_all add: a_cache_fields a_alloc_fields cached_def)
  have "q \<noteq> Ptr n" if "a_find hash key a = Some q" for q using that a_find_Some [OF ok] nc by auto
  then show "Ptr n \<in> set (ac_in_use b)" "Ptr n \<notin> set (ac_lru b)" "ac_held b (Ptr n) = 1"
    "ac_entries b (Ptr n) = Some \<lparr>e_value = v, e_deleter = deleter, e_charge = charge, e_hash = hash, e_key = key\<rparr>"
    using new cap a_uncache_fields [OF wfb]
    by (auto simp: b_def a_entered_def Let_def dest: notin_set_remove1 split: option.splits)
qed

lemma a_insert_new:
  assumes ok: "a_ok a" and p: "Ptr n \<notin> alive a" and cap: "0 < ac_capacity a"
    and b_def: "b = a_insert (Ptr n) key hash v charge deleter a"
  shows "a_find hash key b = Some (Ptr n)" "ac_held b (Ptr n) = 1"
    "ac_entries b (Ptr n) = Some \<lparr>e_value = v, e_deleter = deleter, e_charge = charge, e_hash = hash, e_key = key\<rparr>"
proof -
  let ?e = "a_entered (Ptr n) key hash v charge deleter a"
  note new = a_entered_new [OF ok p cap refl, of key hash v charge deleter] and eok = a_entered_ok [OF ok p, of key hash v charge deleter]
  have k: "ac_entries b (Ptr n) = ac_entries ?e (Ptr n)" "ac_held b (Ptr n) = ac_held ?e (Ptr n)"
    using a_evict_keeps [OF a_okD(1) [OF eok] new(2)] by (simp_all add: b_def a_insert_entered)
  then show "ac_held b (Ptr n) = 1"
    "ac_entries b (Ptr n) = Some \<lparr>e_value = v, e_deleter = deleter, e_charge = charge, e_hash = hash, e_key = key\<rparr>" using new(3,4) by simp_all
  moreover have "Ptr n \<in> cached b"
    using a_evict_prefix [OF a_okD(1) [OF eok]] new(1) by (auto simp: b_def a_insert_entered cached_def)
  moreover have "a_ok b" using a_evict_ok [OF eok] by (simp add: b_def a_insert_entered)
  ultimately show "a_find hash key b = Some (Ptr n)" by (simp add: a_find_Some entry_key_def)
qed

lemma a_uncache_capacity [simp]: "ac_capacity (a_uncache p a) = ac_capacity a"
  by (simp add: a_uncache_def a_free_def Let_def split: option.splits)

lemma a_evict_capacity: "ac_capacity (a_evict a) = ac_capacity a"
  by (induction a rule: a_evict.induct) (subst a_evict.simps, simp)

lemma a_prune_capacity: "ac_capacity (a_prune a) = ac_capacity a"
  by (induction a rule: a_prune.induct) (subst a_prune.simps, simp)

lemma a_run_capacity: "ac_capacity (snd (a_run xs a)) = ac_capacity a"
proof (induction xs arbitrary: a)
  case (Cons x xs)
  have "ac_capacity (snd (a_exec x a)) = ac_capacity a"
    by (cases x) (auto simp: a_insert_def a_evict_capacity a_prune_capacity a_alloc_def a_cache_def a_lookup_def a_ref_def a_release_def
        a_free_def a_erase_def Let_def split: option.splits)
  then show ?case using Cons.IH by (simp add: case_prod_unfold Let_def)
qed simp

text \<open>A shard without capacity caches nothing.\<close>

lemma a_exec_uncached:
  assumes "ac_capacity a = 0" "ac_lru a = []" "ac_in_use a = []"
  shows "ac_lru (snd (a_exec x a)) = [] \<and> ac_in_use (snd (a_exec x a)) = []"
  using assms
  by (cases x) (auto simp: a_insert_def a_evict.simps a_prune.simps a_alloc_def a_find_def a_lookup_def a_release_def a_free_def
      a_erase_def cached_def a_usage_def Let_def split: option.splits)

lemma a_run_uncached:
  "ac_capacity a = 0 \<Longrightarrow> ac_lru a = [] \<Longrightarrow> ac_in_use a = [] \<Longrightarrow>
   ac_lru (snd (a_run xs a)) = [] \<and> ac_in_use (snd (a_run xs a)) = []"
proof (induction xs arbitrary: a)
  case (Cons x xs)
  then show ?case using a_exec_uncached [of a x] a_run_capacity [of "[x]" a] by (simp add: case_prod_unfold Let_def)
qed simp

section \<open>Properties\<close>

definition run_shard :: "u64 \<Rightarrow> ('v, 'd) call list \<Rightarrow> (ptr list \<times> ('v, 'd) LRUCache) option" where
  "run_shard cap xs = LRUCache_new \<bind> (\<lambda>c. call_run xs (SetCapacity cap c))"

lemma run_shard_rep:
  fixes xs :: "('v, 'd) call list"
  assumes "allowed_run xs (a_new cap)"
  shows "\<exists>c. run_shard cap xs = Some (fst (a_run xs (a_new cap)), c) \<and> rep c (snd (a_run xs (a_new cap)))"
proof -
  obtain c0 :: "('v, 'd) LRUCache" where c0: "LRUCache_new = Some c0" "rep (SetCapacity cap c0) (a_new cap)"
    using LRUCache_new_rep by blast
  have "run_shard cap xs = call_run xs (SetCapacity cap c0)" by (simp add: run_shard_def c0(1))
  then show ?thesis using run_refines [OF c0(2) assms] by simp
qed

text \<open>A run for the witnesses: the second insertion evicts the first entry.\<close>

definition some_calls :: "(nat, nat) call list" where
  "some_calls = [Call_Insert 0 [1] 7 10 3 100, Call_Release (Ptr 0), Call_Insert 1 [2] 11 20 3 100, Call_Lookup [2] 11,
     Call_Release (Ptr 1), Call_Release (Ptr 1)]"

lemmas a_ops = a_insert_def a_alloc_def a_cache_def a_find_def entry_key_def a_evict.simps a_usage_def charge_of_def a_uncache_def
  a_free_def a_release_def a_lookup_def a_ref_def cached_def Let_def

lemma some_calls_run:
  "allowed_run some_calls (a_new 5)" "fst (a_run some_calls (a_new 5)) = [Ptr 0, Null, Ptr 1, Ptr 1, Null, Null]"
  "a_usage (snd (a_run some_calls (a_new 5))) = 3" "ac_held (snd (a_run some_calls (a_new 5))) p = 0"
  by (simp_all add: some_calls_def a_new_def a_ops)

text \<open>C29: Any sequence of calls that a client may make on a new shard of the cache runs without
  undefined behaviour and without a failed assertion, returns the handles that an abstract cache
  returns, and leaves a shard that represents the abstract cache: its linked lists hold the unused
  entries from the oldest to the newest and the entries in use, its hash table finds exactly the
  cached entries, its usage is the sum of their charges and its reference counters count the handles.\<close>

theorem lru_refines_abstract_cache:
  assumes "allowed_run xs (a_new cap)"
  shows "\<exists>c. run_shard cap xs = Some (fst (a_run xs (a_new cap)), c) \<and> rep c (snd (a_run xs (a_new cap))) \<and>
    TotalCharge c = a_usage (snd (a_run xs (a_new cap)))"
proof -
  obtain c where "run_shard cap xs = Some (fst (a_run xs (a_new cap)), c)" "rep c (snd (a_run xs (a_new cap)))"
    using run_shard_rep [OF assms] by blast
  then show ?thesis using repD(6) by (auto simp: TotalCharge_def)
qed

theorem lru_refines_abstract_cache_witness:
  "\<exists>c. run_shard 5 some_calls = Some ([Ptr 0, Null, Ptr 1, Ptr 1, Null, Null], c) \<and> TotalCharge c = 3"
  using lru_refines_abstract_cache [OF some_calls_run(1)] some_calls_run(2,3) by auto

text \<open>C30: However a client uses a shard, once it has released every handle and the shard is destroyed,
  every entry that was inserted has been passed to its deleter exactly once, and no handle is left
  allocated.\<close>

theorem every_entry_is_deleted_once:
  fixes xs :: "('v, 'd) call list"
  assumes "allowed_run xs (a_new cap)" "\<forall>p. ac_held (snd (a_run xs (a_new cap))) p = 0"
  shows "\<exists>rs c c'. run_shard cap xs = Some (rs, c) \<and> LRUCache_delete c = Some c' \<and>
    mset (deleted c') = mset (inserted xs) \<and> handles (heap c') = Map.empty"
proof -
  let ?a = "snd (a_run xs (a_new cap))"
  obtain c where c: "run_shard cap xs = Some (fst (a_run xs (a_new cap)), c)" "rep c ?a" using run_shard_rep [OF assms(1)] by blast
  note wf = repD(2) [OF c(2)]
  have u: "ac_in_use ?a = []" using a_wfD(5) [OF wf] assms(2) by (metis list.set_intros(1) neq_Nil_conv not_less0)
  have C: "cached ?a = set (ac_lru ?a)" using u by (simp add: cached_def)
  have alive: "alive ?a = set (ac_lru ?a)" using a_wfD(2) [OF wf] a_wfD(6) [OF wf] assms(2) C by auto
  obtain c' where c': "LRUCache_delete c = Some c'" "deleted c' = ac_deleted ?a @ map (farewell ?a) (ac_lru ?a)"
      "\<forall>p. handles (heap c') p \<noteq> None \<longleftrightarrow> p \<in> alive ?a - cached ?a"
    using LRUCache_delete_spec [OF c(2) u] by blast
  obtain c0 :: "('v, 'd) LRUCache" where "rep (SetCapacity cap c0) (a_new cap)" using LRUCache_new_rep by blast
  then have "accounted ?a = mset (inserted xs) + accounted (a_new cap)"
    using accounted_run assms(1) by (fastforce simp: a_new_def alive_def)
  moreover have "accounted (a_new cap) = {#}" by (simp add: accounted_def a_new_def alive_def)
  moreover have "mset (deleted c') = accounted ?a"
    using c'(2) alive a_wfD(1) [OF wf] by (simp add: accounted_def mset_set_set)
  ultimately have "mset (deleted c') = mset (inserted xs)" by simp
  moreover have "handles (heap c') = Map.empty" using c'(3) alive C by (auto simp: fun_eq_iff)
  ultimately show ?thesis using c(1) c'(1) by blast
qed

theorem every_entry_is_deleted_once_witness:
  "\<exists>rs c c'. run_shard 5 some_calls = Some (rs, c) \<and> LRUCache_delete c = Some c' \<and>
    mset (deleted c') = {#(100, [1], 10), (100, [2], 20)#} \<and> handles (heap c') = Map.empty"
  using every_entry_is_deleted_once [OF some_calls_run(1)] some_calls_run(4) by (simp add: some_calls_def)

text \<open>C31: An insertion makes room by dropping unused entries from the oldest on, and only as many as it
  has to: the entries in use stay, and afterwards the total charge is within the capacity or there
  is no unused entry left.\<close>

theorem insert_evicts_oldest:
  assumes "allowed_run (xs @ [Call_Insert n key hash v charge deleter]) (a_new cap)"
  shows "\<exists>rs c k a'. run_shard cap (xs @ [Call_Insert n key hash v charge deleter]) = Some (rs, c) \<and> rep c a' \<and>
    (let e = a_entered (Ptr n) key hash v charge deleter (snd (a_run xs (a_new cap)))
     in ac_lru a' = drop k (ac_lru e) \<and> ac_in_use a' = ac_in_use e \<and>
        (\<forall>j < k. ac_capacity e < (\<Sum>p \<leftarrow> drop j (ac_lru e) @ ac_in_use e. charge_of e p)) \<and>
        (TotalCharge c \<le> capacity c \<or> ac_lru a' = []))"
proof -
  let ?x = "Call_Insert n key hash v charge deleter" let ?a = "snd (a_run xs (a_new cap))"
  have al: "allowed_run xs (a_new cap)" "allowed ?x ?a" using assms by (simp_all add: allowed_run_append)
  have "a_ok ?a" "Ptr n \<notin> alive ?a"
    using run_shard_rep [OF al(1)] repD(1) al(2) by (auto simp: alive_def)
  then have ok: "a_ok (a_entered (Ptr n) key hash v charge deleter ?a)" (is "a_ok ?e") by (rule a_entered_ok)
  obtain c where c: "run_shard cap (xs @ [?x]) = Some (fst (a_run (xs @ [?x]) (a_new cap)), c)" "rep c (a_evict ?e)"
    using run_shard_rep [OF assms] by (auto simp: a_run_append a_insert_entered)
  from a_evict_prefix [OF a_okD(1) [OF ok]] obtain k where
    k: "ac_lru (a_evict ?e) = drop k (ac_lru ?e)" "ac_in_use (a_evict ?e) = ac_in_use ?e" "ac_capacity (a_evict ?e) = ac_capacity ?e"
      "\<forall>j < k. ac_capacity ?e < (\<Sum>p \<leftarrow> drop j (ac_lru ?e) @ ac_in_use ?e. charge_of ?e p)"
      "a_usage (a_evict ?e) \<le> ac_capacity ?e \<or> ac_lru (a_evict ?e) = []" by blast
  have "TotalCharge c \<le> capacity c \<or> ac_lru (a_evict ?e) = []" using k(3,5) repD(6,7) [OF c(2)] by (simp add: TotalCharge_def)
  then show ?thesis using c k(1,2,4) unfolding Let_def by blast
qed

theorem insert_evicts_oldest_witness:
  "\<exists>rs c. run_shard 5 ([Call_Insert 0 [1] 7 (10 :: nat) 3 (100 :: nat), Call_Release (Ptr 0)] @ [Call_Insert 1 [2] 11 20 3 100]) = Some (rs, c) \<and>
    (TotalCharge c \<le> capacity c \<or> next_of (heap c) LruHead = Some LruHead)"
proof -
  have "allowed_run ([Call_Insert 0 [1] 7 (10 :: nat) 3 (100 :: nat), Call_Release (Ptr 0)] @ [Call_Insert 1 [2] 11 20 3 100]) (a_new 5)"
    by (simp add: a_new_def a_ops)
  from insert_evicts_oldest [OF this] show ?thesis using lru_front(1) by (fastforce simp: Let_def)
qed

text \<open>C32: A key that was just inserted into a shard with some capacity is found by the next lookup: the
  lookup returns the handle of the insertion. A shard of capacity zero caches nothing: there the
  lookup misses. In both cases the handle of the insertion holds the inserted key and value and
  has one reference for each of its holders, the cache included.\<close>

theorem lookup_after_insert:
  assumes "allowed_run (xs @ [Call_Insert n key hash v charge deleter, Call_Lookup key hash]) (a_new cap)"
  shows "\<exists>rs c x. run_shard cap (xs @ [Call_Insert n key hash v charge deleter, Call_Lookup key hash]) =
      Some (rs @ [Ptr n, if 0 < cap then Ptr n else Null], c) \<and>
    handles (heap c) (Ptr n) = Some x \<and> lh_value x = v \<and> lh_key x = key \<and> lh_refs x = (if 0 < cap then 3 else 1)"
proof -
  let ?ys = "[Call_Insert n key hash v charge deleter, Call_Lookup key hash]" let ?a = "snd (a_run xs (a_new cap))"
  let ?b = "a_insert (Ptr n) key hash v charge deleter ?a"
  have al: "allowed_run xs (a_new cap)" "Ptr n \<notin> alive ?a" using assms by (auto simp: allowed_run_append alive_def)
  have ok: "a_ok ?a" using run_shard_rep [OF al(1)] repD(1) by auto
  have cap: "ac_capacity ?a = cap" using a_run_capacity [of xs "a_new cap"] by (simp add: a_new_def)
  have bok: "a_ok ?b" using a_evict_ok [OF a_entered_ok [OF ok al(2)]] by (simp add: a_insert_entered)
  obtain c where c: "run_shard cap (xs @ ?ys) = Some (fst (a_run (xs @ ?ys) (a_new cap)), c)" "rep c (snd (a_run (xs @ ?ys) (a_new cap)))"
    using run_shard_rep [OF assms] by blast
  show ?thesis
  proof (cases "0 < cap")
    case True
    then have "0 < ac_capacity ?a" using cap by simp
    note new = a_insert_new [OF ok al(2) this refl, where key = key and hash = hash and v = v and charge = charge and deleter = deleter]
    have bc: "Ptr n \<in> cached ?b" using new(1) a_find_Some [OF bok] by blast
    have run: "a_run (xs @ ?ys) (a_new cap) = (fst (a_run xs (a_new cap)) @ [Ptr n, Ptr n], a_ref (Ptr n) ?b)"
      using new(1) by (simp add: a_run_append a_lookup_def)
    have "handles (heap c) (Ptr n) = Some \<lparr>lh_value = v, lh_deleter = deleter, lh_charge = charge, lh_in_cache = True, lh_refs = 3, lh_hash = hash, lh_key = key\<rparr>"
      using repD(3) [OF c(2)] a_ref_fields [OF a_okD(1) [OF bok] bc] new(2,3) bc run by (simp add: handle_for_def)
    then show ?thesis using c(1) run True by auto
  next
    case False
    then have "cap = 0" by (simp only: word_gt_0 not_not)
    then have z: "ac_capacity ?a = 0" using cap by simp
    then have e: "ac_lru ?a = []" "ac_in_use ?a = []"
      using a_run_uncached [of "a_new cap" xs] \<open>cap = 0\<close> by (simp_all add: a_new_def)
    have b: "?b = a_alloc (Ptr n) key hash v charge deleter ?a" "a_find hash key ?b = None" "Ptr n \<notin> cached ?b"
      using z e by (simp_all add: a_insert_def a_evict.simps a_alloc_def a_usage_def a_find_def cached_def Let_def)
    have run: "a_run (xs @ ?ys) (a_new cap) = (fst (a_run xs (a_new cap)) @ [Ptr n, Null], ?b)"
      using b(2) by (simp add: a_run_append a_lookup_def)
    have "handles (heap c) (Ptr n) = handle_for ?b (Ptr n)" using repD(3) [OF c(2)] run by simp
    then show ?thesis using c(1) run False b(1,3) by (auto simp: handle_for_def a_alloc_def)
  qed
qed

theorem lookup_after_insert_witness:
  "(\<exists>rs c x. run_shard 5 ([Call_Insert 0 [1] 7 (10 :: nat) 3 (100 :: nat)] @ [Call_Insert 1 [1] 7 20 3 100, Call_Lookup [1] 7]) =
      Some (rs @ [Ptr 1, Ptr 1], c) \<and> handles (heap c) (Ptr 1) = Some x \<and> lh_value x = 20 \<and> lh_key x = [1] \<and> lh_refs x = 3) \<and>
   (\<exists>rs c x. run_shard 0 ([Call_Insert 0 [1] 7 (10 :: nat) 3 (100 :: nat)] @ [Call_Insert 1 [1] 7 20 3 100, Call_Lookup [1] 7]) =
      Some (rs @ [Ptr 1, Null], c) \<and> handles (heap c) (Ptr 1) = Some x \<and> lh_value x = 20 \<and> lh_key x = [1] \<and> lh_refs x = 1)"
proof -
  let ?xs = "[Call_Insert 0 [1] 7 (10 :: nat) 3 (100 :: nat)] @ [Call_Insert 1 [1] 7 20 3 100, Call_Lookup [1] 7]"
  have "allowed_run ?xs (a_new 5)" "allowed_run ?xs (a_new 0)" by (simp_all add: a_new_def a_ops)
  from this [THEN lookup_after_insert] show ?thesis by simp
qed

end
