(* ===== verification/ShardedCache.thy ===== *)
theory ShardedCache
  imports LRUClient
begin

text \<open>
  The sharded cache behind the interface of \<^verbatim>\<open>core/lib/io/cache.h\<close>: what a client that holds at
  most one handle at a time can rely on, as a locale, and that the sharded LRU cache provides it.
\<close>

section \<open>The interface\<close>

text \<open>The virtual functions of \<^verbatim>\<open>Cache\<close> that the tables call.\<close>

record ('s, 'v, 'd) Cache =
  Cache_Insert :: "ptr \<Rightarrow> bytes \<Rightarrow> 'v \<Rightarrow> u64 \<Rightarrow> 'd \<Rightarrow> 's \<Rightarrow> (ptr \<times> 's) option"
  Cache_Lookup :: "bytes \<Rightarrow> 's \<Rightarrow> (ptr \<times> 's) option"
  Cache_Release :: "ptr \<Rightarrow> 's \<Rightarrow> 's option"
  Cache_Value :: "ptr \<Rightarrow> 's \<Rightarrow> 'v option"
  Cache_NewId :: "'s \<Rightarrow> u64 \<times> 's"

definition sharded_cache :: "(('v, 'd) ShardedLRUCache, 'v, 'd) Cache" where
  "sharded_cache = \<lparr>Cache_Insert = Sharded_Insert, Cache_Lookup = Sharded_Lookup, Cache_Release = Sharded_Release,
     Cache_Value = Sharded_Value, Cache_NewId = NewId\<rparr>"

text \<open>
  \<open>idle s\<close>: no handle is held; \<open>held s p v\<close>: the handle \<open>p\<close>, which holds \<open>v\<close>, is the only one that is
  held; \<open>content\<close>: what a lookup would find; \<open>fresh\<close>: the addresses that no entry uses at present,
  of which an allocation returns one. The table of a shard holds up to \<open>2 ^ 31\<close> entries.
\<close>

locale handle_cache =
  fixes ops :: "('s, 'v, 'd) Cache"
    and idle :: "'s \<Rightarrow> bool" and held :: "'s \<Rightarrow> ptr \<Rightarrow> 'v \<Rightarrow> bool"
    and content :: "'s \<Rightarrow> bytes \<Rightarrow> 'v option" and fresh :: "'s \<Rightarrow> ptr \<Rightarrow> bool"
  assumes lookup_hit: "idle s \<Longrightarrow> content s k = Some v \<Longrightarrow>
      \<exists>p s'. Cache_Lookup ops k s = Some (p, s') \<and> p \<noteq> Null \<and> held s' p v \<and> content s' = content s"
    and lookup_miss: "idle s \<Longrightarrow> content s k = None \<Longrightarrow>
      \<exists>s'. Cache_Lookup ops k s = Some (Null, s') \<and> idle s' \<and> content s' = content s"
    and insert_new: "idle s \<Longrightarrow> fresh s p \<Longrightarrow> card (dom (content s)) < 2 ^ 31 \<Longrightarrow>
      \<exists>s'. Cache_Insert ops p k v ch d s = Some (p, s') \<and> p \<noteq> Null \<and> held s' p v \<and>
        (\<forall>k' v'. content s' k' = Some v' \<longrightarrow> content s k' = Some v' \<or> k' = k \<and> v' = v)"
    and held_value: "held s p v \<Longrightarrow> Cache_Value ops p s = Some v"
    and release_held: "held s p v \<Longrightarrow> \<exists>s'. Cache_Release ops p s = Some s' \<and> idle s' \<and> content s' = content s"
    and new_id: "idle s \<Longrightarrow> Cache_NewId ops s = (i, s') \<Longrightarrow> idle s' \<and> content s' = content s"
    and some_fresh: "idle s \<Longrightarrow> \<exists>p. fresh s p"

section \<open>What the abstract cache finds\<close>

definition a_content :: "u32 \<Rightarrow> bytes \<Rightarrow> ('v, 'd) acache \<Rightarrow> 'v option" where
  "a_content hash key a = a_find hash key a \<bind> (\<lambda>p. map_option e_value (ac_entries a p))"

lemma a_content_Some:
  "a_ok a \<Longrightarrow> a_content hash key a = Some v \<longleftrightarrow>
     (\<exists>p e. p \<in> cached a \<and> ac_entries a p = Some e \<and> e_hash e = hash \<and> e_key e = key \<and> e_value e = v)"
proof -
  assume ok: "a_ok a"
  have "(a_content hash key a = Some v) = (\<exists>p. a_find hash key a = Some p \<and> map_option e_value (ac_entries a p) = Some v)"
    by (simp add: a_content_def Option.bind_eq_Some_conv)
  also have "\<dots> = (\<exists>p. p \<in> cached a \<and> entry_key a p = Some (hash, key) \<and> map_option e_value (ac_entries a p) = Some v)"
    by (simp add: a_find_Some [OF ok])
  also have "\<dots> = (\<exists>p e. p \<in> cached a \<and> ac_entries a p = Some e \<and> e_hash e = hash \<and> e_key e = key \<and> e_value e = v)"
    by (auto simp: entry_key_def)
  finally show ?thesis .
qed

lemma a_content_cong:
  assumes "a_ok a" "a_ok b" "cached b = cached a" "\<And>p. p \<in> cached a \<Longrightarrow> ac_entries b p = ac_entries a p"
  shows "a_content hash key b = a_content hash key a"
proof -
  have "a_content hash key b = Some v \<longleftrightarrow> a_content hash key a = Some v" for v
    unfolding a_content_Some [OF assms(1)] a_content_Some [OF assms(2)] using assms(3,4) by metis
  then show ?thesis by (metis not_None_eq)
qed

lemma a_uncache_sub:
  "cached (a_uncache p a) \<subseteq> cached a" "ac_entries (a_uncache p a) \<subseteq>\<^sub>m ac_entries a" "ac_held (a_uncache p a) = ac_held a"
  by (auto simp: a_uncache_def a_free_def Let_def cached_def map_le_def length_remove1 dest: set_remove1_subset [THEN subsetD] split: option.splits)

lemma a_evict_sub:
  "cached (a_evict a) \<subseteq> cached a \<and> ac_entries (a_evict a) \<subseteq>\<^sub>m ac_entries a \<and> ac_held (a_evict a) = ac_held a"
proof (induction a rule: a_evict.induct)
  case (1 a)
  show ?case
  proof (cases "ac_capacity a < a_usage a \<and> ac_lru a \<noteq> []")
    case True
    let ?b = "a_uncache (hd (ac_lru a)) a"
    have e: "a_evict a = a_evict ?b" using True by (simp add: a_evict.simps [of a])
    show ?thesis
      unfolding e using 1 [OF True] a_uncache_sub [of "hd (ac_lru a)" a] map_le_trans by fastforce
  next
    case False
    then have "a_evict a = a" by (auto simp: a_evict.simps [of a])
    then show ?thesis by simp
  qed
qed

lemma a_entered_sub:
  assumes b_def: "b = a_entered p key hash v charge deleter a"
    and e_def: "e = \<lparr>e_value = v, e_deleter = deleter, e_charge = charge, e_hash = hash, e_key = key\<rparr>"
  shows "cached b \<subseteq> insert p (cached a)" "ac_entries b \<subseteq>\<^sub>m (ac_entries a)(p \<mapsto> e)" "ac_held b = (ac_held a)(p := 1)"
proof -
  let ?b = "a_cache p (a_alloc p key hash v charge deleter a)"
  have B: "cached ?b = insert p (cached a)" "ac_entries ?b = (ac_entries a)(p \<mapsto> e)" "ac_held ?b = (ac_held a)(p := 1)"
    by (simp_all add: a_cache_fields a_alloc_fields e_def)
  note U = a_uncache_sub [of _ ?b]
  show "cached b \<subseteq> insert p (cached a)" "ac_entries b \<subseteq>\<^sub>m (ac_entries a)(p \<mapsto> e)" "ac_held b = (ac_held a)(p := 1)"
    using U B by (auto simp: b_def a_entered_def Let_def a_alloc_fields e_def split: option.splits)
qed

lemma a_insert_sub:
  assumes b_def: "b = a_insert p key hash v charge deleter a"
    and e_def: "e = \<lparr>e_value = v, e_deleter = deleter, e_charge = charge, e_hash = hash, e_key = key\<rparr>"
  shows "cached b \<subseteq> insert p (cached a)" "ac_entries b \<subseteq>\<^sub>m (ac_entries a)(p \<mapsto> e)" "ac_held b = (ac_held a)(p := 1)"
  using a_entered_sub [OF refl e_def, of p a] a_evict_sub [of "a_entered p key hash v charge deleter a"] map_le_trans
  by (fastforce simp: b_def a_insert_entered)+

lemma a_content_insert:
  assumes "a_ok a" "a_ok (a_insert p key hash v charge deleter a)" "a_content hash' key' (a_insert p key hash v charge deleter a) = Some v'"
    "p \<notin> alive a"
  shows "a_content hash' key' a = Some v' \<or> key' = key \<and> v' = v"
proof -
  let ?b = "a_insert p key hash v charge deleter a"
  obtain q e where q: "q \<in> cached ?b" "ac_entries ?b q = Some e" "e_hash e = hash'" "e_key e = key'" "e_value e = v'"
    using assms(3) a_content_Some [OF assms(2)] by auto
  note S = a_insert_sub [of ?b p key hash v charge deleter a, OF refl refl]
  have e: "((ac_entries a)(p \<mapsto> \<lparr>e_value = v, e_deleter = deleter, e_charge = charge, e_hash = hash, e_key = key\<rparr>)) q = Some e"
    using S(2) q(2) by (metis domI map_le_def)
  show ?thesis
  proof (cases "q = p")
    case False
    then show ?thesis using e q S(1) a_content_Some [OF assms(1)] by auto
  qed (use e q in auto)
qed

section \<open>Shards\<close>

definition in_shard :: "nat \<Rightarrow> ('v, 'd) entry \<Rightarrow> bool" where
  "in_shard i e \<longleftrightarrow> e_hash e = HashSlice (e_key e) \<and> Shard (e_hash e) = i"

definition sh_ok :: "('v, 'd) ShardedLRUCache \<Rightarrow> ('v, 'd) acache list \<Rightarrow> bool" where
  "sh_ok C as \<longleftrightarrow> length as = kNumShards \<and> list_all2 rep (shard C) as \<and>
     (\<forall>i < kNumShards. \<forall>p e. ac_entries (as ! i) p = Some e \<longrightarrow> in_shard i e) \<and>
     (\<forall>i < kNumShards. \<forall>j < kNumShards. i \<noteq> j \<longrightarrow> alive (as ! i) \<inter> alive (as ! j) = {}) \<and>
     (\<forall>i < kNumShards. finite (alive (as ! i)))"

definition sh_idle :: "('v, 'd) ShardedLRUCache \<Rightarrow> bool" where
  "sh_idle C \<longleftrightarrow> (\<exists>as. sh_ok C as \<and> (\<forall>a \<in> set as. \<forall>p. ac_held a p = 0))"

definition sh_held :: "('v, 'd) ShardedLRUCache \<Rightarrow> ptr \<Rightarrow> 'v \<Rightarrow> bool" where
  "sh_held C p v \<longleftrightarrow> (\<exists>as i e. sh_ok C as \<and> i < kNumShards \<and> ac_entries (as ! i) p = Some e \<and> e_value e = v \<and>
     (\<forall>j < kNumShards. ac_held (as ! j) = (if j = i then (\<lambda>q. 0)(p := 1) else (\<lambda>q. 0))))"

definition sh_content :: "('v, 'd) ShardedLRUCache \<Rightarrow> bytes \<Rightarrow> 'v option" where
  "sh_content C key =
     (let hash = HashSlice key; c = shard C ! Shard hash
      in HT_Lookup (table c) (heap c) key hash \<bind> (\<lambda>p. map_option lh_value (handles (heap c) p)))"

definition sh_fresh :: "('v, 'd) ShardedLRUCache \<Rightarrow> ptr \<Rightarrow> bool" where
  "sh_fresh C p \<longleftrightarrow> (\<exists>n. p = Ptr n) \<and> handle_of_shards C p = None"

lemma Shard_less [simp]: "Shard h < kNumShards"
proof -
  have "unat (drop_bit 28 h) = unat h div 2 ^ 28" by (simp add: drop_bit_eq_div unat_div)
  also have "\<dots> < 16" using unsigned_less [of h] by (intro less_mult_imp_div_less) simp
  finally show ?thesis by (simp add: Shard_def kNumShards_def kNumShardBits_def)
qed

lemma sh_okD:
  assumes "sh_ok C as"
  shows "length as = kNumShards" "length (shard C) = kNumShards" "i < kNumShards \<Longrightarrow> rep (shard C ! i) (as ! i)"
    "i < kNumShards \<Longrightarrow> ac_entries (as ! i) p = Some e \<Longrightarrow> in_shard i e"
    "i < kNumShards \<Longrightarrow> j < kNumShards \<Longrightarrow> i \<noteq> j \<Longrightarrow> alive (as ! i) \<inter> alive (as ! j) = {}" "i < kNumShards \<Longrightarrow> finite (alive (as ! i))"
  using assms by (auto simp: sh_ok_def list_all2_conv_all_nth)

text \<open>Replacing one shard.\<close>

lemma sh_ok_update:
  assumes ok: "sh_ok C as" and i: "i < kNumShards" and r: "rep c a"
    and sub: "alive a \<subseteq> alive (as ! i) \<union> N" "\<And>p e. ac_entries a p = Some e \<Longrightarrow> in_shard i e"
    and N: "\<And>j. j < kNumShards \<Longrightarrow> N \<inter> alive (as ! j) = {}" "finite N"
  shows "sh_ok (C\<lparr>shard := (shard C)[i := c]\<rparr>) (as[i := a])"
proof -
  note D = sh_okD [OF ok]
  have "rep ((shard C)[i := c] ! j) (as[i := a] ! j)" if "j < kNumShards" for j using D(1-3) r that by (cases "j = i") simp_all
  moreover have "alive (as[i := a] ! j) \<inter> alive (as[i := a] ! k) = {}" if "j < kNumShards" "k < kNumShards" "j \<noteq> k" for j k
    using D(1,5) that sub(1) N(1) i by (cases "j = i"; cases "k = i") (fastforce simp: nth_list_update)+
  moreover have "finite (alive (as[i := a] ! j))" if "j < kNumShards" for j
    using D(1,6) that i N(2) finite_subset [OF sub(1)] by (cases "j = i") simp_all
  moreover have "in_shard j e"
    if "j < kNumShards" "ac_entries (as[i := a] ! j) p = Some e" for j p e
    using D(1,4) that sub(2) i by (cases "j = i") auto
  ultimately show ?thesis using D(1,2) by (simp add: sh_ok_def list_all2_conv_all_nth)
qed

lemma rep_content:
  assumes "rep c a"
  shows "HT_Lookup (table c) (heap c) key hash \<bind> (\<lambda>p. map_option lh_value (handles (heap c) p)) = a_content hash key a"
proof -
  note R = repD [OF assms]
  obtain p where p: "HT_Lookup (table c) (heap c) key hash = Some p"
      "p = Null \<and> (\<forall>q \<in> cached a. entry_key a q \<noteq> Some (hash, key)) \<or> p \<noteq> Null \<and> p \<in> cached a \<and> entry_key a p = Some (hash, key)"
    using HT_Lookup_spec [OF R(5), of key hash] key_of_handle_for [OF R(3)] by auto
  show ?thesis
  proof (cases "p = Null")
    case True
    then have "a_find hash key a = None" using p(2) a_find_None [of hash key a] by blast
    moreover have "handles (heap c) Null = None" using a_wfD(3) [OF R(2)] handle_for_alive [of a Null] R(3) by auto
    ultimately show ?thesis using True p(1) by (simp add: a_content_def)
  next
    case False
    then have "a_find hash key a = Some p" using p(2) a_find_Some [OF R(1)] by blast
    then show ?thesis using p(1) R(3) by (simp add: a_content_def handle_for_def option.map_comp comp_def)
  qed
qed

lemma sh_content_eq: "sh_ok C as \<Longrightarrow> sh_content C key = a_content (HashSlice key) key (as ! Shard (HashSlice key))"
  using rep_content [OF sh_okD(3) [of C as "Shard (HashSlice key)"], of key "HashSlice key"] by (simp add: sh_content_def Let_def)

lemma sh_content_update:
  assumes "sh_ok C as" "sh_ok (C\<lparr>shard := (shard C)[i := c]\<rparr>) (as[i := a])" "\<And>key. a_content (HashSlice key) key a = a_content (HashSlice key) key (as ! i)"
  shows "sh_content (C\<lparr>shard := (shard C)[i := c]\<rparr>) = sh_content C"
proof
  fix key
  show "sh_content (C\<lparr>shard := (shard C)[i := c]\<rparr>) key = sh_content C key"
    using sh_content_eq [OF assms(1), of key] sh_content_eq [OF assms(2), of key] assms(3) sh_okD(1) [OF assms(1)] Shard_less [of "HashSlice key"]
    by (cases "Shard (HashSlice key) = i") simp_all
qed

lemma handle_of_shards_eq:
  assumes ok: "sh_ok C as"
  shows "i < kNumShards \<Longrightarrow> p \<in> alive (as ! i) \<Longrightarrow> handle_of_shards C p = handle_for (as ! i) p"
    and "handle_of_shards C p = None \<Longrightarrow> i < kNumShards \<Longrightarrow> p \<notin> alive (as ! i)"
proof -
  note D = sh_okD [OF ok]
  have own: "handles (heap (shard C ! j)) p \<noteq> None \<longleftrightarrow> p \<in> alive (as ! j)" if "j < kNumShards" for j
    using repD(3) [OF D(3) [OF that]] handle_for_alive [of "as ! j" p] by simp
  show eq: "handle_of_shards C p = handle_for (as ! i) p" if i: "i < kNumShards" "p \<in> alive (as ! i)"
  proof -
    let ?f = "filter (\<lambda>c. handles (heap c) p \<noteq> None) (shard C)"
    have m: "shard C ! i \<in> set ?f" using own [OF i(1)] i D(2) by simp
    have all: "c = shard C ! i" if c: "c \<in> set ?f" for c
    proof -
      from c obtain j where j: "j < kNumShards" "c = shard C ! j" "handles (heap c) p \<noteq> None" using D(2) by (auto simp: in_set_conv_nth)
      then have "j = i" using own [OF j(1)] i D(5) [of i j] by blast
      then show ?thesis using j(2) by simp
    qed
    from m have "?f \<noteq> []" by (metis empty_iff list.set(1))
    then obtain c' cs where f: "?f = c' # cs" by (meson neq_Nil_conv)
    have "c' \<in> set ?f" unfolding f by simp
    then have "c' = shard C ! i" by (rule all)
    with f have "?f = shard C ! i # cs" by simp
    then show ?thesis using repD(3) [OF D(3) [OF i(1)]] by (simp add: handle_of_shards_def)
  qed
  then show "p \<notin> alive (as ! i)" if "handle_of_shards C p = None" "i < kNumShards"
    using that handle_for_alive [of "as ! i" p] by metis
qed

lemma sh_fresh_eq:
  assumes ok: "sh_ok C as"
  shows "sh_fresh C p \<longleftrightarrow> (\<exists>n. p = Ptr n) \<and> (\<forall>i < kNumShards. p \<notin> alive (as ! i))"
proof -
  have "handle_of_shards C p = None" if none: "\<forall>i < kNumShards. p \<notin> alive (as ! i)"
  proof (rule ccontr)
    assume "handle_of_shards C p \<noteq> None"
    then have "filter (\<lambda>c. handles (heap c) p \<noteq> None) (shard C) \<noteq> []" by (auto simp: handle_of_shards_def)
    then obtain c where "c \<in> set (filter (\<lambda>c. handles (heap c) p \<noteq> None) (shard C))" using list.set_sel(1) by blast
    then have "c \<in> set (shard C)" "handles (heap c) p \<noteq> None" by auto
    then obtain i where i: "i < kNumShards" "handles (heap (shard C ! i)) p \<noteq> None" using sh_okD(2) [OF ok] by (metis in_set_conv_nth)
    then show False using none repD(3) [OF sh_okD(3) [OF ok i(1)]] handle_for_alive [of "as ! i" p] by simp
  qed
  then show ?thesis using handle_of_shards_eq(2) [OF ok] by (auto simp: sh_fresh_def)
qed

lemma sh_some_fresh:
  assumes "sh_idle C"
  shows "\<exists>p. sh_fresh C p"
proof -
  obtain as where ok: "sh_ok C as" using assms by (auto simp: sh_idle_def)
  let ?used = "\<Union>i < kNumShards. alive (as ! i)"
  have "finite ?used" using sh_okD(6) [OF ok] by simp
  then have "finite (Ptr -` ?used)" by (rule finite_vimageI) (simp add: inj_on_def)
  then obtain n where "n \<notin> Ptr -` ?used" using ex_new_if_finite infinite_UNIV_nat by blast
  then show ?thesis using sh_fresh_eq [OF ok, of "Ptr n"] by blast
qed

text \<open>The cached entries of a shard have different keys, and a lookup finds each of them.\<close>

lemma sh_cached_bound:
  assumes ok: "sh_ok C as" and i: "i < kNumShards"
  shows "card (cached (as ! i)) \<le> card (dom (sh_content C))"
proof -
  note D = sh_okD [OF ok]
  let ?key = "\<lambda>i p. e_key (the (ac_entries (as ! i) p))"
  have ent: "\<exists>e. ac_entries (as ! j) p = Some e" if "j < kNumShards" "p \<in> cached (as ! j)" for j p
    using a_wfD(2) [OF repD(2) [OF D(3) [OF that(1)]]] that(2) by (auto simp: alive_def)
  have "inj_on (?key i) (cached (as ! i))"
  proof (rule inj_onI)
    fix p q assume pq: "p \<in> cached (as ! i)" "q \<in> cached (as ! i)" "?key i p = ?key i q"
    obtain d e where de: "ac_entries (as ! i) p = Some d" "ac_entries (as ! i) q = Some e" using ent [OF i] pq(1,2) by blast
    then have "entry_key (as ! i) p = entry_key (as ! i) q" using D(4) [OF i] pq(3) by (simp add: entry_key_def in_shard_def)
    then show "p = q" using a_okD(2) [OF repD(1) [OF D(3) [OF i]]] pq(1,2) by (simp add: inj_on_eq_iff)
  qed
  moreover have "?key i ` cached (as ! i) \<subseteq> dom (sh_content C)"
  proof safe
    fix p assume p: "p \<in> cached (as ! i)"
    then obtain e where e: "ac_entries (as ! i) p = Some e" using ent [OF i] by blast
    have h: "e_hash e = HashSlice (e_key e)" "Shard (HashSlice (e_key e)) = i" using D(4) [OF i e] by (auto simp: in_shard_def)
    then have "sh_content C (e_key e) = Some (e_value e)"
      using a_content_Some [OF repD(1) [OF D(3) [OF i]], of "HashSlice (e_key e)" "e_key e" "e_value e"] p e sh_content_eq [OF ok, of "e_key e"] by auto
    then show "\<exists>v. sh_content C (?key i p) = Some v" using e by simp
  qed
  moreover have "finite (dom (sh_content C))"
  proof (rule finite_subset)
    show "dom (sh_content C) \<subseteq> (\<Union>j < kNumShards. ?key j ` alive (as ! j))"
    proof
      fix k assume "k \<in> dom (sh_content C)"
      then obtain v where "a_content (HashSlice k) k (as ! Shard (HashSlice k)) = Some v" using sh_content_eq [OF ok] by auto
      then obtain p e where "ac_entries (as ! Shard (HashSlice k)) p = Some e" "e_key e = k"
        using a_content_Some [OF repD(1) [OF D(3) [OF Shard_less]]] by blast
      then have "k \<in> ?key (Shard (HashSlice k)) ` alive (as ! Shard (HashSlice k))" by (force simp: alive_def)
      then show "k \<in> (\<Union>j < kNumShards. ?key j ` alive (as ! j))" using Shard_less by blast
    qed
    show "finite (\<Union>j < kNumShards. ?key j ` alive (as ! j))" using D(6) by simp
  qed
  ultimately show ?thesis by (rule card_inj_on_le)
qed

lemma sh_lookup_hit:
  assumes id: "sh_idle C" and c: "sh_content C k = Some v"
  shows "\<exists>p C'. Sharded_Lookup k C = Some (p, C') \<and> p \<noteq> Null \<and> sh_held C' p v \<and> sh_content C' = sh_content C"
proof -
  obtain as where ok: "sh_ok C as" and z: "\<forall>a \<in> set as. \<forall>p. ac_held a p = 0" using id by (auto simp: sh_idle_def)
  note D = sh_okD [OF ok]
  define i where "i = Shard (HashSlice k)"
  have i: "i < kNumShards" by (simp add: i_def)
  note r = D(3) [OF i]
  have zi: "ac_held (as ! j) = (\<lambda>q. 0)" if "j < kNumShards" for j using z that D(1) by (auto simp: fun_eq_iff)
  obtain p e where p: "a_find (HashSlice k) k (as ! i) = Some p" "ac_entries (as ! i) p = Some e" "e_value e = v"
    using c sh_content_eq [OF ok, of k] by (auto simp: i_def a_content_def Option.bind_eq_Some_conv)
  have pc: "p \<in> cached (as ! i)" using p(1) a_find_Some [OF repD(1) [OF r]] by blast
  let ?a = "a_ref p (as ! i)"
  note f = a_ref_fields [OF repD(2) [OF r] pc]
  obtain c1 where c1: "LRU_Lookup k (HashSlice k) (shard C ! i) = Some (p, c1)" "rep c1 ?a"
    using LRU_Lookup_refines [OF r, of k "HashSlice k"] p(1) zi [OF i] by (auto simp: a_lookup_def)
  let ?C = "C\<lparr>shard := (shard C)[i := c1]\<rparr>"
  have ok': "sh_ok ?C (as[i := ?a])"
    by (rule sh_ok_update [OF ok i c1(2), where N = "{}"]) (use f(2,8) D(4) [OF i] in auto)
  have "ac_held (as[i := ?a] ! j) = (if j = i then (\<lambda>q. 0)(p := 1) else (\<lambda>q. 0))" if "j < kNumShards" for j
    using zi that f(3) D(1) i by (cases "j = i") (simp_all add: fun_eq_iff)
  moreover have "ac_entries (as[i := ?a] ! i) p = Some e" using f(2) p(2) D(1) i by simp
  ultimately have "sh_held ?C p v" using ok' i p(3) unfolding sh_held_def by blast
  moreover have "sh_content ?C = sh_content C"
    by (rule sh_content_update [OF ok ok']) (use a_content_cong [OF repD(1) [OF r] repD(1) [OF c1(2)] f(1)] f(2) in simp)
  moreover have "Sharded_Lookup k C = Some (p, ?C)" using c1(1) D(2) i by (simp add: Sharded_Lookup_def on_shard_def Let_def flip: i_def)
  moreover have "p \<noteq> Null" using a_wfD(2,3) [OF repD(2) [OF r]] pc by auto
  ultimately show ?thesis by blast
qed

lemma sh_lookup_miss:
  assumes id: "sh_idle C" and c: "sh_content C k = None"
  shows "\<exists>C'. Sharded_Lookup k C = Some (Null, C') \<and> sh_idle C' \<and> sh_content C' = sh_content C"
proof -
  obtain as where ok: "sh_ok C as" using id by (auto simp: sh_idle_def)
  define i where "i = Shard (HashSlice k)"
  have i: "i < kNumShards" by (simp add: i_def)
  note r = sh_okD(3) [OF ok i]
  have ac: "a_content (HashSlice k) k (as ! i) = None" using c sh_content_eq [OF ok, of k] by (simp add: i_def)
  have none: "\<forall>q \<in> cached (as ! i). entry_key (as ! i) q \<noteq> Some (HashSlice k, k)"
  proof (intro ballI notI)
    fix q assume "q \<in> cached (as ! i)" and q: "entry_key (as ! i) q = Some (HashSlice k, k)"
    then have "a_find (HashSlice k) k (as ! i) = Some q" using a_find_Some [OF repD(1) [OF r]] by blast
    then show False using ac q by (auto simp: a_content_def entry_key_def)
  qed
  have "LRU_Lookup k (HashSlice k) (shard C ! i) = Some (Null, shard C ! i)"
    using HT_Lookup_spec [OF repD(5) [OF r], of k "HashSlice k"] key_of_handle_for [OF repD(3) [OF r]] none by (auto simp: LRU_Lookup_def)
  then have "Sharded_Lookup k C = Some (Null, C)"
    using sh_okD(2) [OF ok] i by (simp add: Sharded_Lookup_def on_shard_def Let_def flip: i_def)
  then show ?thesis using id by blast
qed

lemma sh_insert_new:
  assumes id: "sh_idle C" and fr: "sh_fresh C p" and n: "card (dom (sh_content C)) < 2 ^ 31"
  shows "\<exists>C'. Sharded_Insert p k v ch d C = Some (p, C') \<and> p \<noteq> Null \<and> sh_held C' p v \<and>
    (\<forall>k' v'. sh_content C' k' = Some v' \<longrightarrow> sh_content C k' = Some v' \<or> k' = k \<and> v' = v)"
proof -
  obtain as where ok: "sh_ok C as" and z: "\<forall>a \<in> set as. \<forall>p. ac_held a p = 0" using id by (auto simp: sh_idle_def)
  note D = sh_okD [OF ok]
  obtain m where p: "p = Ptr m" "handle_of_shards C p = None" using fr by (auto simp: sh_fresh_def)
  have new: "p \<notin> alive (as ! j)" if "j < kNumShards" for j using handle_of_shards_eq(2) [OF ok p(2) that] .
  define i where "i = Shard (HashSlice k)"
  have i: "i < kNumShards" by (simp add: i_def)
  note r = D(3) [OF i]
  have zi: "ac_held (as ! j) = (\<lambda>q. 0)" if "j < kNumShards" for j using z that D(1) by (auto simp: fun_eq_iff)
  have "card (cached (as ! i)) < 2 ^ 31" using sh_cached_bound [OF ok i] n by simp
  from LRU_Insert_refines [OF r new [OF i, unfolded p(1)] this, of k "HashSlice k" v ch d]
  obtain c1 where c1: "LRU_Insert p k (HashSlice k) v ch d (shard C ! i) = Some (p, c1)"
      "rep c1 (a_insert p k (HashSlice k) v ch d (as ! i))" (is "rep c1 ?a") using p(1) by auto
  note S = a_insert_sub [of ?a p k "HashSlice k" v ch d "as ! i", OF refl refl]
  let ?C = "C\<lparr>shard := (shard C)[i := c1]\<rparr>"
  have ent: "in_shard i e" if "ac_entries ?a q = Some e" for q e
  proof -
    have "((ac_entries (as ! i))(p \<mapsto> \<lparr>e_value = v, e_deleter = d, e_charge = ch, e_hash = HashSlice k, e_key = k\<rparr>)) q = Some e"
      using S(2) that by (metis domI map_le_def)
    moreover have "in_shard i \<lparr>e_value = v, e_deleter = d, e_charge = ch, e_hash = HashSlice k, e_key = k\<rparr>"
      by (simp add: in_shard_def i_def)
    ultimately show ?thesis using D(4) [OF i] by (auto split: if_splits)
  qed
  have av: "alive ?a \<subseteq> alive (as ! i) \<union> {p}" using map_le_implies_dom_le [OF S(2)] by (auto simp: alive_def)
  then have ok': "sh_ok ?C (as[i := ?a])"
    by (rule sh_ok_update [OF ok i c1(2)]) (use ent new in auto)
  have hold: "ac_held (as[i := ?a] ! j) = (if j = i then (\<lambda>q. 0)(p := 1) else (\<lambda>q. 0))" if "j < kNumShards" for j
    using zi that S(3) D(1) i by (cases "j = i") simp_all
  have pa: "p \<in> alive ?a" using a_wfD(7) [OF repD(2) [OF c1(2)], of p] S(3) by auto
  then obtain e where e: "ac_entries ?a p = Some e" by (auto simp: alive_def)
  then have "((ac_entries (as ! i))(p \<mapsto> \<lparr>e_value = v, e_deleter = d, e_charge = ch, e_hash = HashSlice k, e_key = k\<rparr>)) p = Some e"
    using S(2) by (metis domI map_le_def)
  then have "e_value e = v" by auto
  then have "sh_held ?C p v" using ok' i e hold D(1) unfolding sh_held_def
    by (intro exI [of _ "as[i := ?a]"] exI [of _ i] exI [of _ e]) simp
  moreover have "sh_content C k' = Some v' \<or> k' = k \<and> v' = v" if "sh_content ?C k' = Some v'" for k' v'
    using that sh_content_eq [OF ok, of k'] sh_content_eq [OF ok', of k'] D(1) i Shard_less [of "HashSlice k'"] new [OF i]
      a_content_insert [OF repD(1) [OF r] repD(1) [OF c1(2)], of "HashSlice k'" k' v']
    by (cases "Shard (HashSlice k') = i") auto
  moreover have "Sharded_Insert p k v ch d C = Some (p, ?C)"
    using c1(1) D(2) i p(2) by (simp add: Sharded_Insert_def on_shard_def Let_def flip: i_def)
  ultimately show ?thesis using p(1) by blast
qed

lemma sh_held_alive:
  assumes "sh_ok C as" "i < kNumShards" "ac_entries (as ! i) p = Some e"
  shows "handle_of_shards C p = handle_for (as ! i) p" "Shard (e_hash e) = i"
  using handle_of_shards_eq(1) [OF assms(1,2)] assms(3) sh_okD(4) [OF assms(1,2,3)] by (auto simp: alive_def in_shard_def)

lemma sh_held_value: "sh_held C p v \<Longrightarrow> Sharded_Value p C = Some v"
  using sh_held_alive by (fastforce simp: sh_held_def Sharded_Value_def handle_for_def)

lemma sh_release_held:
  assumes "sh_held C p v"
  shows "\<exists>C'. Sharded_Release p C = Some C' \<and> sh_idle C' \<and> sh_content C' = sh_content C"
proof -
  obtain as i e where ok: "sh_ok C as" and i: "i < kNumShards" and e: "ac_entries (as ! i) p = Some e"
    and h: "\<And>j. j < kNumShards \<Longrightarrow> ac_held (as ! j) = (if j = i then (\<lambda>q. 0)(p := 1) else (\<lambda>q. 0))"
    using assms by (auto simp: sh_held_def)
  note D = sh_okD [OF ok] and al = sh_held_alive [OF ok i e] and r = sh_okD(3) [OF ok i]
  have hp: "ac_held (as ! i) p = 1" using h [OF i] by simp
  then have hp0: "0 < ac_held (as ! i) p" by simp
  let ?a = "a_release p (as ! i)"
  note f = a_release_fields [OF repD(2) [OF r] hp0]
  obtain c1 where c1: "LRU_Release p (shard C ! i) = Some c1" "rep c1 ?a" using LRU_Release_refines [OF r hp0] by blast
  let ?C = "C\<lparr>shard := (shard C)[i := c1]\<rparr>"
  have ok': "sh_ok ?C (as[i := ?a])"
    by (rule sh_ok_update [OF ok i c1(2), where N = "{}"]) (use f(3,7) D(4) [OF i] in \<open>auto split: if_splits\<close>)
  have "ac_held a q = 0" if a: "a \<in> set (as[i := ?a])" for a q
  proof -
    from a obtain j where "j < kNumShards" "a = as[i := ?a] ! j" using D(1) by (auto simp: in_set_conv_nth)
    then show ?thesis using h f(2) hp D(1) i by (cases "j = i") auto
  qed
  then have "sh_idle ?C" using ok' unfolding sh_idle_def by blast
  moreover have "sh_content ?C = sh_content C"
    by (rule sh_content_update [OF ok ok'], rule a_content_cong [OF repD(1) [OF r] repD(1) [OF c1(2)] f(1)]) (auto simp: f(3))
  moreover have "Sharded_Release p C = Some ?C"
    using c1(1) D(2) i al e by (simp add: Sharded_Release_def on_shard_def handle_for_def)
  ultimately show ?thesis by blast
qed

lemma sh_new_id:
  assumes "sh_idle C" "NewId C = (i, C')"
  shows "sh_idle C' \<and> sh_content C' = sh_content C"
proof -
  have "shard C' = shard C" using assms(2) by (auto simp: NewId_def)
  then show ?thesis using assms(1)
    by (simp add: sh_idle_def sh_ok_def sh_content_def sh_fresh_def handle_of_shards_def fun_eq_iff)
qed

interpretation sharded: handle_cache sharded_cache sh_idle sh_held sh_content sh_fresh
  by unfold_locales
    (simp_all add: sharded_cache_def sh_lookup_hit sh_lookup_miss sh_insert_new sh_held_value sh_release_held sh_new_id sh_some_fresh)

lemma sharded_new:
  "\<exists>C :: ('v, 'd) ShardedLRUCache. ShardedLRUCache_new cap = Some C \<and> sh_idle C \<and> sh_content C = Map.empty"
proof -
  let ?n = "(cap + (of_nat kNumShards - 1)) div of_nat kNumShards"
  obtain c :: "('v, 'd) LRUCache" where c: "LRUCache_new = Some c" "rep (SetCapacity ?n c) (a_new ?n)" using LRUCache_new_rep by blast
  let ?C = "\<lparr>shard = replicate kNumShards (SetCapacity ?n c), last_id = 0\<rparr>" let ?as = "replicate kNumShards (a_new ?n) :: ('v, 'd) acache list"
  have ok: "sh_ok ?C ?as"
    using c(2) by (simp add: sh_ok_def list_all2_conv_all_nth alive_def) (simp add: a_new_def)
  moreover have "\<forall>a \<in> set ?as. \<forall>p. ac_held a p = 0" by (simp add: a_new_def)
  ultimately have "sh_idle ?C" unfolding sh_idle_def by blast
  moreover have "sh_content ?C = Map.empty"
  proof
    fix k show "sh_content ?C k = None"
      using sh_content_eq [OF ok, of k] by (simp add: a_content_def a_find_def) (simp add: a_new_def)
  qed
  moreover have "ShardedLRUCache_new cap = Some ?C" by (simp add: ShardedLRUCache_new_def c(1))
  ultimately show ?thesis by blast
qed

end
