(* ===== verification/TableCache.thy ===== *)
theory TableCache
  imports TableRoundtrip ShardedCache
begin

text \<open>
  Tables with a block cache (\<^verbatim>\<open>core/lib/io/table.cc\<close> with \<^verbatim>\<open>options.block_cache\<close> set): the cached
  operations over any cache with the interface of \<^verbatim>\<open>cache.h\<close>, and that lookups through a cache give
  the same results as lookups without one.

  The address of a new cache entry is what the allocator returns in the state of the cache when the
  entry is allocated; the allocator is an argument. A cached iterator is given with the handle that
  its cleanup function releases, or with null.
\<close>

section \<open>Cached operations\<close>

definition cache_key :: "u64 \<Rightarrow> u64 \<Rightarrow> bytes" where
  "cache_key cache_id offset = EncodeFixed64 kLittleEndian cache_id @ EncodeFixed64 kLittleEndian offset"

definition Table_OpenCached ::
  "('s, Block, unit) Cache \<Rightarrow> Snappy \<Rightarrow> bool \<Rightarrow> bytes \<Rightarrow> nat \<Rightarrow> 's \<Rightarrow> (Table \<times> u64) result \<times> 's" where
  "Table_OpenCached ops z in_place file sz s =
     (case Table_Open z in_place file sz of
        Inl e \<Rightarrow> (Inl e, s)
      | Inr t \<Rightarrow> (let (cache_id, s1) = Cache_NewId ops s in (Inr (t, cache_id), s1)))"

definition CachedBlockReader ::
  "('s, Block, unit) Cache \<Rightarrow> Snappy \<Rightarrow> bool \<Rightarrow> Table \<times> u64 \<Rightarrow> ('s \<Rightarrow> ptr) \<Rightarrow> bytes \<Rightarrow> 's \<Rightarrow> (BlockIterator \<times> ptr \<times> 's) option" where
  "CachedBlockReader ops z in_place tc alloc index_value s =
     (case BlockHandle_DecodeFrom index_value of
        Inl err \<Rightarrow> Some (EmptyIterator (Some err), Null, s)
      | Inr (handle, _) \<Rightarrow> do {
          let key = cache_key (snd tc) (bh_offset handle);
          (cache_handle, s1) \<leftarrow> Cache_Lookup ops key s;
          if cache_handle \<noteq> Null then do {
            block \<leftarrow> Cache_Value ops cache_handle s1;
            iter \<leftarrow> Block_NewIterator block;
            Some (iter, cache_handle, s1) }
          else
            (case ReadBlock z in_place (t_file (fst tc)) handle of
               Inl err \<Rightarrow> Some (EmptyIterator (Some err), Null, s1)
             | Inr contents \<Rightarrow> do {
                 block \<leftarrow> Block_new contents;
                 (cache_handle, s2) \<leftarrow> Cache_Insert ops (alloc s1) key block (of_nat (blk_size block)) () s1;
                 iter \<leftarrow> Block_NewIterator block;
                 Some (iter, cache_handle, s2) }) })"

text \<open>The cleanup function of a cached iterator, which its destructor runs.\<close>

definition ReleaseBlock :: "('s, Block, unit) Cache \<Rightarrow> ptr \<Rightarrow> 's \<Rightarrow> 's option" where
  "ReleaseBlock ops h s = (if h = Null then Some s else Cache_Release ops h s)"

definition CachedInternalGet ::
  "('s, Block, unit) Cache \<Rightarrow> Snappy \<Rightarrow> bool \<Rightarrow> Table \<times> u64 \<Rightarrow> ('s \<Rightarrow> ptr) \<Rightarrow> bytes \<Rightarrow> 's \<Rightarrow>
   ((status \<times> (bytes \<times> bytes) option) \<times> 's) option" where
  "CachedInternalGet ops z in_place tc alloc k s = do {
     iiter0 \<leftarrow> Block_NewIterator (t_index_block (fst tc));
     iiter \<leftarrow> BI_Seek k iiter0;
     if BI_Valid iiter then do {
       (block_iter0, h, s1) \<leftarrow> CachedBlockReader ops z in_place tc alloc (BI_value iiter) s;
       block_iter \<leftarrow> BI_Seek k block_iter0;
       let saved = (if BI_Valid block_iter then Some (BI_key block_iter, BI_value block_iter) else None);
       let st = BI_status block_iter;
       s2 \<leftarrow> ReleaseBlock ops h s1;
       Some ((if st = OK then BI_status iiter else st, saved), s2) }
     else Some ((BI_status iiter, None), s) }"

text \<open>A sequence of lookups; what the allocator returns may differ from one to the next.\<close>

fun cached_gets ::
  "('s, Block, unit) Cache \<Rightarrow> Snappy \<Rightarrow> bool \<Rightarrow> Table \<times> u64 \<Rightarrow> (nat \<Rightarrow> 's \<Rightarrow> ptr) \<Rightarrow> nat \<Rightarrow> bytes list \<Rightarrow> 's \<Rightarrow>
   ((status \<times> (bytes \<times> bytes) option) list \<times> 's) option" where
  "cached_gets ops z in_place tc alloc i [] s = Some ([], s)"
| "cached_gets ops z in_place tc alloc i (k # ks) s = do {
     (r, s1) \<leftarrow> CachedInternalGet ops z in_place tc (alloc i) k s;
     (rs, s2) \<leftarrow> cached_gets ops z in_place tc alloc (Suc i) ks s1;
     Some (r # rs, s2) }"

section \<open>Clients of a cache of blocks\<close>

definition load_block :: "Snappy \<Rightarrow> bool \<Rightarrow> Table \<Rightarrow> BlockHandle \<Rightarrow> Block \<Rightarrow> bool" where
  "load_block z in_place t h b \<longleftrightarrow> (\<exists>c. ReadBlock z in_place (t_file t) h = Inr c \<and> Block_new c = Some b)"

text \<open>
  The handles in the index of a table, which the cache tells apart by their offsets. A cache is sound
  for a table if the blocks that it holds under the keys of the table are those in the file.
\<close>

definition index_handles :: "Table \<Rightarrow> BlockHandle set \<Rightarrow> bool" where
  "index_handles t hs \<longleftrightarrow> inj_on bh_offset hs \<and>
     (\<forall>k iiter0 iiter h rest. Block_NewIterator (t_index_block t) = Some iiter0 \<longrightarrow> BI_Seek k iiter0 = Some iiter \<longrightarrow>
        BI_Valid iiter \<longrightarrow> BlockHandle_DecodeFrom (BI_value iiter) = Inr (h, rest) \<longrightarrow> h \<in> hs)"

lemma EncodeFixed64_inj: "EncodeFixed64 le a = EncodeFixed64 le b \<longleftrightarrow> a = b"
proof
  assume "EncodeFixed64 le a = EncodeFixed64 le b"
  then have "DecodeFixed64 le (EncodeFixed64 le a @ []) = DecodeFixed64 le (EncodeFixed64 le b @ [])" by simp
  then show "a = b" by (simp only: DecodeFixed64_EncodeFixed64 option.inject)
qed simp

lemma cache_key_inj: "cache_key i a = cache_key i b \<longleftrightarrow> a = b"
  by (simp add: cache_key_def EncodeFixed64_inj)

locale block_cache = handle_cache ops idle held content fresh
  for ops :: "('s, Block, unit) Cache" and idle held content fresh
begin

definition cache_sound :: "Snappy \<Rightarrow> bool \<Rightarrow> Table \<times> u64 \<Rightarrow> BlockHandle set \<Rightarrow> 's \<Rightarrow> bool" where
  "cache_sound z in_place tc hs s \<longleftrightarrow> dom (content s) \<subseteq> (\<lambda>h. cache_key (snd tc) (bh_offset h)) ` hs \<and>
     (\<forall>h \<in> hs. \<forall>b. content s (cache_key (snd tc) (bh_offset h)) = Some b \<longrightarrow> load_block z in_place (fst tc) h b)"

text \<open>The allocator returns an address that is not in use.\<close>

definition alloc_ok :: "('s \<Rightarrow> ptr) \<Rightarrow> bool" where
  "alloc_ok alloc \<longleftrightarrow> (\<forall>s. (\<exists>p. fresh s p) \<longrightarrow> fresh s (alloc s))"

lemma cache_sound_insert:
  assumes so: "cache_sound z in_place tc hs s" and inj: "inj_on bh_offset hs" and h: "h \<in> hs" "load_block z in_place (fst tc) h b"
    and new: "\<forall>k' v'. content s' k' = Some v' \<longrightarrow> content s k' = Some v' \<or> k' = cache_key (snd tc) (bh_offset h) \<and> v' = b"
  shows "cache_sound z in_place tc hs s'"
proof -
  have "dom (content s') \<subseteq> (\<lambda>h. cache_key (snd tc) (bh_offset h)) ` hs"
    using so new h(1) unfolding cache_sound_def by (auto simp: dom_def) blast
  moreover have "load_block z in_place (fst tc) h' b'"
    if h': "h' \<in> hs" "content s' (cache_key (snd tc) (bh_offset h')) = Some b'" for h' b'
  proof (cases "content s (cache_key (snd tc) (bh_offset h')) = Some b'")
    case True
    then show ?thesis using so h'(1) by (simp add: cache_sound_def)
  next
    case False
    then have "bh_offset h' = bh_offset h" "b' = b" using new h'(2) cache_key_inj by blast+
    moreover from this(1) have "h' = h" using inj h'(1) h(1) by (simp add: inj_on_eq_iff)
    ultimately show ?thesis using h(2) by simp
  qed
  ultimately show ?thesis by (simp add: cache_sound_def)
qed

lemma cache_sound_card:
  assumes "cache_sound z in_place tc hs s" "finite hs" "card hs < n"
  shows "card (dom (content s)) < n"
proof -
  have "card (dom (content s)) \<le> card ((\<lambda>h. cache_key (snd tc) (bh_offset h)) ` hs)"
    using assms(1,2) by (intro card_mono) (simp_all add: cache_sound_def)
  then show ?thesis using card_image_le [OF assms(2)] assms(3) by (meson le_less_trans)
qed

lemma cached_reader:
  assumes id: "idle s" and so: "cache_sound z in_place tc hs s" and inj: "inj_on bh_offset hs" and fin: "finite hs" "card hs < 2 ^ 31"
    and hs: "\<forall>h rest. BlockHandle_DecodeFrom v = Inr (h, rest) \<longrightarrow> h \<in> hs"
    and al: "alloc_ok alloc" and it: "BlockReader z in_place (fst tc) v = Some it"
  shows "\<exists>p s'. CachedBlockReader ops z in_place tc alloc v s = Some (it, p, s') \<and>
    (p = Null \<and> idle s' \<or> p \<noteq> Null \<and> (\<exists>b. held s' p b)) \<and> cache_sound z in_place tc hs s'"
proof (cases "BlockHandle_DecodeFrom v")
  case (Inl err)
  then show ?thesis using it id so by (auto simp: CachedBlockReader_def BlockReader_def)
next
  case (Inr hr)
  then obtain h rest where h: "BlockHandle_DecodeFrom v = Inr (h, rest)" by (cases hr) auto
  have hin: "h \<in> hs" using hs h by blast
  let ?k = "cache_key (snd tc) (bh_offset h)"
  show ?thesis
  proof (cases "content s ?k")
    case (Some b)
    obtain p s' where l: "Cache_Lookup ops ?k s = Some (p, s')" "p \<noteq> Null" "held s' p b" "content s' = content s"
      using lookup_hit [OF id Some] by blast
    have "load_block z in_place (fst tc) h b" using so hin Some by (simp add: cache_sound_def)
    then have "Block_NewIterator b = Some it" using it h by (auto simp: BlockReader_def load_block_def)
    then have "CachedBlockReader ops z in_place tc alloc v s = Some (it, p, s')"
      using h l held_value [OF l(3)] by (simp add: CachedBlockReader_def)
    then show ?thesis using l so by (intro exI [of _ p] exI [of _ s']) (auto simp: cache_sound_def)
  next
    case None
    obtain s1 where l: "Cache_Lookup ops ?k s = Some (Null, s1)" "idle s1" "content s1 = content s"
      using lookup_miss [OF id None] by blast
    have so1: "cache_sound z in_place tc hs s1" using so l(3) by (simp add: cache_sound_def)
    show ?thesis
    proof (cases "ReadBlock z in_place (t_file (fst tc)) h")
      case (Inl err)
      then show ?thesis using it h l so1
        by (intro exI [of _ Null] exI [of _ s1]) (auto simp: CachedBlockReader_def BlockReader_def)
    next
      case (Inr c)
      then obtain b where b: "Block_new c = Some b" "Block_NewIterator b = Some it"
        using it h by (auto simp: BlockReader_def bind_eq_Some_conv)
      have "fresh s1 (alloc s1)" using al some_fresh [OF l(2)] by (simp add: alloc_ok_def)
      from insert_new [OF l(2) this cache_sound_card [OF so1 fin], of ?k b "of_nat (blk_size b)" "()"] obtain s2 where
        i: "Cache_Insert ops (alloc s1) ?k b (of_nat (blk_size b)) () s1 = Some (alloc s1, s2)" "alloc s1 \<noteq> Null" "held s2 (alloc s1) b"
          "\<forall>k' v'. content s2 k' = Some v' \<longrightarrow> content s1 k' = Some v' \<or> k' = ?k \<and> v' = b" by blast
      have "load_block z in_place (fst tc) h b" using Inr b(1) by (simp add: load_block_def)
      then have "cache_sound z in_place tc hs s2" using cache_sound_insert [OF so1 inj hin _ i(4)] by blast
      moreover have "CachedBlockReader ops z in_place tc alloc v s = Some (it, alloc s1, s2)"
        using h l(1) Inr b i(1) by (simp add: CachedBlockReader_def)
      ultimately show ?thesis using i by (intro exI [of _ "alloc s1"] exI [of _ s2]) auto
    qed
  qed
qed

lemma cached_get:
  assumes id: "idle s" and so: "cache_sound z in_place tc hs s" and hs: "index_handles (fst tc) hs" and fin: "finite hs" "card hs < 2 ^ 31"
    and al: "alloc_ok alloc" and get: "InternalGet z in_place (fst tc) k = Some r"
  shows "\<exists>s'. CachedInternalGet ops z in_place tc alloc k s = Some (r, s') \<and> idle s' \<and> cache_sound z in_place tc hs s'"
proof -
  obtain it0 it where it: "Block_NewIterator (t_index_block (fst tc)) = Some it0" "BI_Seek k it0 = Some it"
    using get by (auto simp: InternalGet_def bind_eq_Some_conv)
  show ?thesis
  proof (cases "BI_Valid it")
    case True
    obtain d0 d where d: "BlockReader z in_place (fst tc) (BI_value it) = Some d0" "BI_Seek k d0 = Some d"
        "r = (if BI_status d = OK then BI_status it else BI_status d, if BI_Valid d then Some (BI_key d, BI_value d) else None)"
      using get it True by (auto simp: InternalGet_def bind_eq_Some_conv Let_def)
    have inj: "inj_on bh_offset hs" and dec: "\<forall>h rest. BlockHandle_DecodeFrom (BI_value it) = Inr (h, rest) \<longrightarrow> h \<in> hs"
      using hs it True unfolding index_handles_def by blast+
    obtain p s1 where c: "CachedBlockReader ops z in_place tc alloc (BI_value it) s = Some (d0, p, s1)"
        "p = Null \<and> idle s1 \<or> p \<noteq> Null \<and> (\<exists>b. held s1 p b)" "cache_sound z in_place tc hs s1"
      using cached_reader [OF id so inj fin dec al d(1)] by blast
    obtain s2 where s2: "ReleaseBlock ops p s1 = Some s2" "idle s2" "content s2 = content s1"
    proof (cases "p = Null")
      case True
      then show ?thesis using c(2) that [of s1] by (simp add: ReleaseBlock_def)
    next
      case False
      then obtain b where "held s1 p b" using c(2) by blast
      from release_held [OF this] show ?thesis using False that by (auto simp: ReleaseBlock_def)
    qed
    have "CachedInternalGet ops z in_place tc alloc k s = Some (r, s2)"
      using it True c(1) d(2,3) s2(1) by (simp add: CachedInternalGet_def Let_def)
    moreover have "cache_sound z in_place tc hs s2" using c(3) s2(3) by (simp add: cache_sound_def)
    ultimately show ?thesis using s2(2) by blast
  next
    case False
    then have "CachedInternalGet ops z in_place tc alloc k s = Some (r, s)"
      using get it by (simp add: CachedInternalGet_def InternalGet_def)
    then show ?thesis using id so by blast
  qed
qed

lemma cached_gets_agree:
  assumes "idle s" "cache_sound z in_place tc hs s" "index_handles (fst tc) hs" "finite hs" "card hs < 2 ^ 31"
    "\<forall>i. alloc_ok (alloc i)" "\<forall>k. \<exists>r. InternalGet z in_place (fst tc) k = Some r"
  shows "\<exists>rs s'. cached_gets ops z in_place tc alloc i ks s = Some (rs, s') \<and> idle s' \<and>
    map Some rs = map (InternalGet z in_place (fst tc)) ks"
  using assms(1,2)
proof (induction ks arbitrary: i s)
  case Nil
  then show ?case by auto
next
  case (Cons k ks)
  obtain r where r: "InternalGet z in_place (fst tc) k = Some r" using assms(7) by blast
  have "alloc_ok (alloc i)" using assms(6) by blast
  from cached_get [OF Cons.prems assms(3-5) this r] obtain s1 where
    c: "CachedInternalGet ops z in_place tc (alloc i) k s = Some (r, s1)" "idle s1" "cache_sound z in_place tc hs s1" by blast
  from Cons.IH [OF c(2,3), of "Suc i"] obtain rs s' where "cached_gets ops z in_place tc alloc (Suc i) ks s1 = Some (rs, s')" "idle s'"
      "map Some rs = map (InternalGet z in_place (fst tc)) ks" by blast
  then show ?case using c(1) r by (intro exI [of _ "r # rs"] exI [of _ s']) simp
qed

end

interpretation sharded_blocks: block_cache sharded_cache sh_idle sh_held sh_content sh_fresh
  by unfold_locales

section \<open>Written tables\<close>

lemma written_handles:
  assumes t: "table_on z fs ies t"
  shows "index_handles t (handle_of fs ` {..<length fs})"
proof -
  have small: "length (file_of fs) < 2 ^ 64" using t by (simp add: table_on_def)
  have "i = j" if "i < length fs" "j < length fs" "bh_offset (handle_of fs i) = bh_offset (handle_of fs j)" for i j
    using handle_offset_less [of i j fs] handle_offset_less [of j i fs] that small by (metis less_irrefl nat_neq_iff)
  then have "inj_on bh_offset (handle_of fs ` {..<length fs})" by (auto simp: inj_on_def)
  moreover have "h \<in> handle_of fs ` {..<length fs}"
    if it0: "Block_NewIterator (t_index_block t) = Some it0" and it: "BI_Seek k it0 = Some it" "BI_Valid it"
      and d: "BlockHandle_DecodeFrom (BI_value it) = Inr (h, rest)" for k it0 it h rest
  proof -
    have src: "block_source it0 ies" using t it0 by (auto simp: table_on_def)
    define j where "j = first_from k ies"
    have pos: "block_pos it ies j" using block_iter.seek [OF src, of k] it(1) by (auto simp: block_iterator_def j_def)
    have j: "j < length fs" using block_iter.valid [OF pos] it(2) table_on_index(1) [OF t] by (simp add: block_iterator_def)
    have "BI_value it = snd (ies ! j)"
      using block_iter.entry [OF pos] j table_on_index(1) [OF t] by (auto simp: block_iterator_def prod_eq_iff)
    then have "BI_value it = handle_bytes fs j" using table_on_index(2) [OF t j] by simp
    then have "h = handle_of fs j" using d BlockHandle_roundtrip [of "handle_of fs j" "[]"] by (simp add: handle_bytes_def)
    then show ?thesis using j by simp
  qed
  ultimately show ?thesis unfolding index_handles_def by blast
qed

section \<open>Properties\<close>

text \<open>
  What the allocator of the cache entries promises: the address it returns is not that of an entry
  that is still allocated. It may return the address of a deleted entry again. An allocator that
  takes the lowest free address is an example.
\<close>

definition malloc_ok :: "(nat \<Rightarrow> (Block, unit) ShardedLRUCache \<Rightarrow> ptr) \<Rightarrow> bool" where
  "malloc_ok alloc \<longleftrightarrow> (\<forall>i C. (\<exists>p. sh_fresh C p) \<longrightarrow> sh_fresh C (alloc i C))"

definition lowest_free :: "nat \<Rightarrow> (Block, unit) ShardedLRUCache \<Rightarrow> ptr" where
  "lowest_free i C = Ptr (LEAST n. handle_of_shards C (Ptr n) = None)"

lemma lowest_free_ok: "malloc_ok lowest_free"
  unfolding malloc_ok_def sh_fresh_def lowest_free_def by (auto intro: LeastI)

text \<open>C28: Looking keys up in a table through a block cache gives exactly what looking them up without a
  cache gives, for every sequence of keys and every capacity of the cache, zero included, with or
  without evictions; every handle is released again. The allocator of the cache entries may
  return any addresses that are not in use, those of deleted entries included. The table is any
  that was built from sorted entries within the size limits of the builder; it exists unless the
  disk was full.\<close>

theorem cached_lookups_agree:
  assumes "snappy_ok z" "limits opt K V N" "tb_entries_ok K V N es" "pwf_open f" "pwf_data f = []" "malloc_ok alloc"
  shows "\<exists>s r. build_table z opt es f = Some (s, r) \<and>
    (s = Some (IOError ''fwrite'') \<and> pwf_room (tb_file r) = 0 \<or>
     s = OK \<and> (\<exists>C tc C1 rs C2. ShardedLRUCache_new cap = Some C \<and>
       Table_OpenCached sharded_cache z in_place (pwf_data (tb_file r)) (length (pwf_data (tb_file r))) C = (Inr tc, C1) \<and>
       cached_gets sharded_cache z in_place tc alloc 0 ks C1 = Some (rs, C2) \<and> sh_idle C2 \<and>
       map Some rs = map (InternalGet z in_place (fst tc)) ks))"
proof -
  obtain r where r: "build_table z opt es f = Some (tb_status r, r)"
    "tb_failed r \<or> tb_status r = OK \<and>
      (\<exists>fs ies t. Table_Open z in_place (pwf_data (tb_file r)) (length (pwf_data (tb_file r))) = Inr t \<and>
         table_on z fs ies t \<and> table_entries fs = es \<and> length fs \<le> length es)"
    using build_table_spec [OF assms(1-5), of in_place] by blast
  show ?thesis
  proof (cases "tb_failed r")
    case True
    then show ?thesis using r(1) by (auto simp: tb_failed_def)
  next
    case False
    then obtain fs ies t where t: "Table_Open z in_place (pwf_data (tb_file r)) (length (pwf_data (tb_file r))) = Inr t"
        "table_on z fs ies t" "tb_status r = OK" "length fs \<le> length es" using r(2) by blast
    obtain C :: "(Block, unit) ShardedLRUCache" where C: "ShardedLRUCache_new cap = Some C" "sh_idle C" "sh_content C = Map.empty"
      using sharded_new by blast
    obtain i C1 where N: "Cache_NewId sharded_cache C = (i, C1)" by fastforce
    note new = sharded.new_id [OF C(2) N]
    let ?hs = "handle_of fs ` {..<length fs}"
    have so: "sharded_blocks.cache_sound z in_place (t, i) ?hs C1"
      using new C(3) by (simp add: sharded_blocks.cache_sound_def)
    have "length fs \<le> N" using t(4) assms(3) by (simp add: tb_entries_ok_def)
    have "N * 64 \<le> Suc N * (K + 64)" by (intro mult_le_mono) simp_all
    then have "N * 64 < 2 ^ 32" using assms(2) unfolding limits_def by (metis le_less_trans)
    then have "N < 2 ^ 31" by simp
    with \<open>length fs \<le> N\<close> have small: "card ?hs < 2 ^ 31" using card_image_le [of "{..<length fs}" "handle_of fs"] by simp
    have al: "\<forall>i. sharded_blocks.alloc_ok (alloc i)" using assms(6) by (simp add: sharded_blocks.alloc_ok_def malloc_ok_def)
    have get: "\<forall>k. \<exists>x. InternalGet z in_place (fst (t, i)) k = Some x" using InternalGet_spec [OF t(2), of in_place] by fastforce
    have "index_handles (fst (t, i)) ?hs" using written_handles [OF t(2)] by simp
    from sharded_blocks.cached_gets_agree [OF conjunct1 [OF new] so this _ small al get, of 0 ks] obtain rs C2 where
      g: "cached_gets sharded_cache z in_place (t, i) alloc 0 ks C1 = Some (rs, C2)" "sh_idle C2"
        "map Some rs = map (InternalGet z in_place (fst (t, i))) ks" by auto
    have "Table_OpenCached sharded_cache z in_place (pwf_data (tb_file r)) (length (pwf_data (tb_file r))) C = (Inr (t, i), C1)"
      using t(1) N by (simp add: Table_OpenCached_def)
    then show ?thesis using r(1) t(3) C(1) g by blast
  qed
qed

theorem cached_lookups_agree_witness:
  "\<exists>s r. build_table no_snappy small_options some_entries empty_file = Some (s, r) \<and>
    (s = Some (IOError ''fwrite'') \<and> pwf_room (tb_file r) = 0 \<or>
     s = OK \<and> (\<exists>C tc C1 rs C2. ShardedLRUCache_new 0 = Some C \<and>
       Table_OpenCached sharded_cache no_snappy False (pwf_data (tb_file r)) (length (pwf_data (tb_file r))) C = (Inr tc, C1) \<and>
       cached_gets sharded_cache no_snappy False tc lowest_free 0 [[1, 2], [1, 4], [1, 2]] C1 = Some (rs, C2) \<and> sh_idle C2 \<and>
       map Some rs = map (InternalGet no_snappy False (fst tc)) [[1, 2], [1, 4], [1, 2]]))"
  using cached_lookups_agree [OF small_setup lowest_free_ok, of 0 False "[[1, 2], [1, 4], [1, 2]]"] .

end
