(* ===== verification/Spec2Isabelle.thy ===== *)
theory Spec2Isabelle
  imports Crc32c RecordFile OrderedKeys GraphClient TableCache
begin

text \<open>
  A verification development of TensorFlow 2.6.2 (the sources under \<^verbatim>\<open>src/tensorflow\<close>).
\<close>

end
